(* ===== verification/Prelude.thy ===== *)
theory Prelude
  imports Complex_Main "HOL-Library.AList" "HOL-Library.Word" "HOL-Library.Sublist"
begin

text \<open>
  What every component of the resolver shares: the Python exceptions it distinguishes, bytes and
  clock readings, dictionaries with their insertion order (\<^verbatim>\<open>dict\<close> and
  \<^verbatim>\<open>collections.OrderedDict\<close>) and their lemmas. The lemma collections of the development are
  declared here and filled by the components.

  Clock readings and the other floats of the program are real numbers, so rounding, infinities and
  NaN are not modelled. A Python string is a list of code points below 256 (the type
  \<^typ>\<open>char\<close>); code points above are outside the model, and the case mappings below
  are the ones Python defines on this range.
\<close>

named_theorems dict_simps \<open>lookups after updates of a dictionary\<close>
named_theorems metric_simps \<open>counter values after increments\<close>
named_theorems cache_simps \<open>unfolding rules of the cache operations\<close>
named_theorems handler_simps \<open>unfolding rules of the handler segments\<close>

section \<open>Exceptions, bytes, time\<close>

text \<open>
  The exceptions that some branch of the program distinguishes. \<open>CancelledError\<close> derives from
  \<^verbatim>\<open>BaseException\<close>, so \<^verbatim>\<open>except Exception\<close> does not catch it.
\<close>

datatype exn =
    ValueError string
  | KeyError
  | TypeError
  | OverflowError
  | UnicodeDecodeError
  | TimeoutError
  | OSError
  | OtherError
  | CancelledError

definition is_Exception :: "exn \<Rightarrow> bool" where
  "is_Exception e \<longleftrightarrow> e \<noteq> CancelledError"

type_synonym 'a result = "exn + 'a"
type_synonym byte = "8 word"
type_synonym bytes = "byte list"
type_synonym time = real

text \<open>ASCII encoding of a text whose characters are ASCII.\<close>

definition ascii :: "string \<Rightarrow> bytes" where
  "ascii s = map of_char s"

lemma length_ascii [simp]: "length (ascii s) = length s"
  by (simp add: ascii_def)

lemma ascii_append [simp]: "ascii (s @ t) = ascii s @ ascii t"
  by (simp add: ascii_def)

section \<open>Dictionaries\<close>

text \<open>
  A dictionary is the list of its items in insertion order. Assignment keeps the position of an
  existing key and appends a new one, which is what \<^const>\<open>AList.update\<close> does.
\<close>

type_synonym ('k, 'v) dict = "('k \<times> 'v) list"

abbreviation keys :: "('k, 'v) dict \<Rightarrow> 'k list" where
  "keys d \<equiv> map fst d"

abbreviation dict_get :: "('k, 'v) dict \<Rightarrow> 'k \<Rightarrow> 'v option" where
  "dict_get \<equiv> map_of"

abbreviation dict_set :: "'k \<Rightarrow> 'v \<Rightarrow> ('k, 'v) dict \<Rightarrow> ('k, 'v) dict" where
  "dict_set \<equiv> AList.update"

abbreviation dict_pop :: "'k \<Rightarrow> ('k, 'v) dict \<Rightarrow> ('k, 'v) dict" where
  "dict_pop \<equiv> AList.delete"

abbreviation dict_ok :: "('k, 'v) dict \<Rightarrow> bool" where
  "dict_ok d \<equiv> distinct (keys d)"

text \<open>\<^verbatim>\<open>OrderedDict.move_to_end\<close> on a key that is present.\<close>

definition move_to_end :: "'k \<Rightarrow> ('k, 'v) dict \<Rightarrow> ('k, 'v) dict" where
  "move_to_end k d = (case dict_get d k of None \<Rightarrow> d | Some v \<Rightarrow> dict_pop k d @ [(k, v)])"

text \<open>\<^verbatim>\<open>OrderedDict.popitem(last=False)\<close>: the oldest item, or KeyError when empty.\<close>

fun popitem_first :: "('k, 'v) dict \<Rightarrow> (('k \<times> 'v) \<times> ('k, 'v) dict) result" where
  "popitem_first [] = Inl KeyError"
| "popitem_first (it # d) = Inr (it, d)"

text \<open>\<^verbatim>\<open>d.get(k, default)\<close>.\<close>

definition dict_get_default :: "('k, 'v) dict \<Rightarrow> 'k \<Rightarrow> 'v \<Rightarrow> 'v" where
  "dict_get_default d k v = (case dict_get d k of None \<Rightarrow> v | Some w \<Rightarrow> w)"

lemma dict_get_set [dict_simps, simp]:
  "dict_get (dict_set k v d) k' = (if k' = k then Some v else dict_get d k')"
  by (simp add: update_conv')

lemma dict_get_pop [dict_simps, simp]:
  "dict_get (dict_pop k d) k' = (if k' = k then None else dict_get d k')"
  by (simp add: delete_conv')

lemma dict_get_move [dict_simps, simp]: "dict_get (move_to_end k d) k' = dict_get d k'"
  by (auto simp: move_to_end_def map_add_def split: option.splits)

lemma dict_ok_set [simp]: "dict_ok d \<Longrightarrow> dict_ok (dict_set k v d)"
  by (rule distinct_update)

lemma dict_ok_pop [simp]: "dict_ok d \<Longrightarrow> dict_ok (dict_pop k d)"
  by (rule distinct_delete)

lemma dict_get_mem_keys: "dict_get d k = Some v \<Longrightarrow> k \<in> set (keys d)"
  by (force dest: map_of_SomeD)

lemma keys_pop: "keys (dict_pop k d) = filter (\<lambda>x. x \<noteq> k) (keys d)"
  by (induction d) auto

lemma set_keys_pop [simp]: "set (keys (dict_pop k d)) = set (keys d) - {k}"
  unfolding keys_pop by auto

lemma dict_ok_move [simp]: "dict_ok d \<Longrightarrow> dict_ok (move_to_end k d)"
  using set_keys_pop [of k d] dict_ok_pop [of d k]
  by (auto simp: move_to_end_def split: option.splits)

lemma keys_move:
  "keys (move_to_end k d) =
     (if k \<in> set (keys d) then filter (\<lambda>x. x \<noteq> k) (keys d) @ [k] else keys d)"
proof (cases "dict_get d k")
  case None
  moreover from None have "k \<notin> set (keys d)" by (simp add: map_of_eq_None_iff)
  ultimately show ?thesis by (simp add: move_to_end_def)
next
  case (Some v)
  then have "k \<in> set (keys d)" by (rule dict_get_mem_keys)
  with Some show ?thesis by (simp add: move_to_end_def keys_pop)
qed

lemma set_keys_move [simp]: "set (keys (move_to_end k d)) = set (keys d)"
  unfolding keys_move by auto

lemma set_keys_set [simp]: "set (keys (dict_set k v d)) = insert k (set (keys d))"
  using dom_update [of k v d] by auto

lemma length_pop_present:
  "dict_ok d \<Longrightarrow> k \<in> set (keys d) \<Longrightarrow> Suc (length (dict_pop k d)) = length d"
proof (induction d)
  case (Cons p d)
  show ?case
  proof (cases "fst p = k")
    case True
    with Cons.prems have "dict_pop k d = d"
      by (auto intro!: delete_id simp: image_iff)
    with True show ?thesis by simp
  next
    case False
    with Cons show ?thesis by auto
  qed
qed simp

lemma length_move [simp]: "dict_ok d \<Longrightarrow> length (move_to_end k d) = length d"
proof (cases "dict_get d k")
  case (Some v)
  then have "k \<in> set (keys d)" by (rule dict_get_mem_keys)
  moreover assume "dict_ok d"
  ultimately show ?thesis using Some length_pop_present [of d k] by (simp add: move_to_end_def)
qed (simp add: move_to_end_def)

lemma length_dict_set:
  "dict_ok d \<Longrightarrow> length (dict_set k v d) = (if k \<in> set (keys d) then length d else Suc (length d))"
  by (induction d) auto

lemma dict_get_iff_mem: "dict_ok d \<Longrightarrow> dict_get d k = Some v \<longleftrightarrow> (k, v) \<in> set d"
  by simp

lemma dict_mem_set_cases:
  "(k', v') \<in> set (dict_set k v d) \<Longrightarrow> (k' = k \<and> v' = v) \<or> (k', v') \<in> set d"
  by (induction d) (auto split: if_splits)

lemma dict_mem_pop: "(k', v') \<in> set (dict_pop k d) \<Longrightarrow> (k', v') \<in> set d"
  by (induction d) (auto split: if_splits)

lemma dict_mem_move: "(k', v') \<in> set (move_to_end k d) \<Longrightarrow> (k', v') \<in> set d"
  by (auto simp: move_to_end_def dest: dict_mem_pop map_of_SomeD split: option.splits)

text \<open>Assigning a key and then moving it to the end puts exactly that item last.\<close>

lemma move_set:
  "dict_ok d \<Longrightarrow> move_to_end k (dict_set k v d) = dict_pop k d @ [(k, v)]"
proof -
  have "dict_pop k (dict_set k v d) = dict_pop k d" by (induction d) auto
  then show ?thesis by (simp add: move_to_end_def)
qed

lemma subseq_set: "subseq xs ys \<Longrightarrow> set xs \<subseteq> set ys"
  by (induction rule: list_emb.induct) auto

lemma subseq_distinct: "subseq xs ys \<Longrightarrow> distinct ys \<Longrightarrow> distinct xs"
  by (induction rule: list_emb.induct) (auto dest: subseq_set)

lemma subseq_dict_ok: "subseq d' d \<Longrightarrow> dict_ok d \<Longrightarrow> dict_ok d'"
  by (meson subseq_distinct subseq_map)

lemma subseq_dict_get:
  assumes "subseq d' d" and "dict_ok d" and "dict_get d' k = Some v"
  shows "dict_get d k = Some v"
proof -
  from assms(1) have "set d' \<subseteq> set d" by (rule subseq_set)
  with assms show ?thesis by (auto dest: map_of_SomeD)
qed

text \<open>How many values of a dictionary satisfy a predicate, and how an update changes that number.\<close>

abbreviation tally :: "('a \<Rightarrow> bool) \<Rightarrow> ('k, 'a) dict \<Rightarrow> nat" where
  "tally P d \<equiv> length (filter (P \<circ> snd) d)"

lemma tally_pop:
  "dict_ok d \<Longrightarrow> dict_get d k = Some v \<Longrightarrow> tally P d = tally P (dict_pop k d) + of_bool (P v)"
proof (induction d)
  case (Cons p d)
  show ?case
  proof (cases "fst p = k")
    case True
    with Cons.prems have "dict_pop k d = d" by (auto intro!: delete_id simp: image_iff)
    with True Cons.prems show ?thesis by simp
  next
    case False
    with Cons show ?thesis by (auto split: if_splits)
  qed
qed simp

lemma tally_set:
  "dict_ok d \<Longrightarrow> dict_get d k = Some v \<Longrightarrow> tally P (dict_set k w d) + of_bool (P v) = tally P d + of_bool (P w)"
proof (induction d)
  case (Cons p d)
  show ?case
  proof (cases "fst p = k")
    case True
    with Cons.prems show ?thesis by (cases p) simp
  next
    case False
    with Cons show ?thesis by (cases p) (auto split: if_splits)
  qed
qed simp

lemma find_SomeD: "find P xs = Some x \<Longrightarrow> x \<in> set xs \<and> P x"
  by (induction xs) (auto split: if_splits)

lemma find_snoc: "\<not> list_ex P xs \<Longrightarrow> find P (xs @ [x]) = (if P x then Some x else None)"
  by (induction xs) auto

text \<open>An item that was appended under a new key.\<close>

lemma dict_get_snoc: "k \<notin> set (keys d) \<Longrightarrow> dict_get (d @ [(k, v)]) k = Some v"
  by (induction d) auto

lemma dict_set_snoc: "k \<notin> set (keys d) \<Longrightarrow> dict_set k w (d @ [(k, v)]) = d @ [(k, w)]"
  by (induction d) auto

lemma dict_pop_snoc: "k \<notin> set (keys d) \<Longrightarrow> dict_pop k (d @ [(k, v)]) = d"
  by (induction d) auto

end
