(* ===== verification/Py_String.thy ===== *)
theory Py_String
  imports Prelude
begin

text \<open>
  The methods of Python's \<^verbatim>\<open>str\<close> and \<^verbatim>\<open>int\<close> that the sources call, on code points below
  256. \<open>upper\<close> sends the sharp s to two letters, as Python does; the two letters of this range whose
  capitals lie above 255 (codes 181 and 255) are left as they are.
\<close>

section \<open>Characters\<close>

abbreviation code :: "char \<Rightarrow> nat" where
  "code c \<equiv> of_char c"

definition is_space :: "char \<Rightarrow> bool" where
  "is_space c \<longleftrightarrow> (let n = code c in 9 \<le> n \<and> n \<le> 13 \<or> 28 \<le> n \<and> n \<le> 32 \<or> n = 133 \<or> n = 160)"

definition is_linebreak :: "char \<Rightarrow> bool" where
  "is_linebreak c \<longleftrightarrow> (let n = code c in 10 \<le> n \<and> n \<le> 13 \<or> 28 \<le> n \<and> n \<le> 30 \<or> n = 133)"

definition is_decimal :: "char \<Rightarrow> bool" where
  "is_decimal c \<longleftrightarrow> 48 \<le> code c \<and> code c \<le> 57"

text \<open>\<^verbatim>\<open>str.isdigit\<close> also accepts the superscripts one, two and three.\<close>

definition is_digit :: "char \<Rightarrow> bool" where
  "is_digit c \<longleftrightarrow> is_decimal c \<or> code c \<in> {178, 179, 185}"

definition lower_char :: "char \<Rightarrow> char" where
  "lower_char c =
     (let n = code c in
      if 65 \<le> n \<and> n \<le> 90 \<or> 192 \<le> n \<and> n \<le> 214 \<or> 216 \<le> n \<and> n \<le> 222 then char_of (n + 32) else c)"

definition upper_chars :: "char \<Rightarrow> string" where
  "upper_chars c =
     (let n = code c in
      if n = 223 then ''SS''
      else if 97 \<le> n \<and> n \<le> 122 \<or> 224 \<le> n \<and> n \<le> 246 \<or> 248 \<le> n \<and> n \<le> 254
      then [char_of (n - 32)] else [c])"

section \<open>Strings\<close>

definition lower :: "string \<Rightarrow> string" where
  "lower s = map lower_char s"

definition upper :: "string \<Rightarrow> string" where
  "upper s = concat (map upper_chars s)"

definition rstrip_by :: "(char \<Rightarrow> bool) \<Rightarrow> string \<Rightarrow> string" where
  "rstrip_by p s = rev (dropWhile p (rev s))"

text \<open>\<^verbatim>\<open>s.rstrip(".")\<close> and the like; \<^verbatim>\<open>s.strip()\<close>.\<close>

definition rstrip_char :: "char \<Rightarrow> string \<Rightarrow> string" where
  "rstrip_char c s = rstrip_by (\<lambda>x. x = c) s"

definition strip :: "string \<Rightarrow> string" where
  "strip s = rstrip_by is_space (dropWhile is_space s)"

definition isdigit :: "string \<Rightarrow> bool" where
  "isdigit s \<longleftrightarrow> s \<noteq> [] \<and> list_all is_digit s"

fun split_aux :: "string \<Rightarrow> string \<Rightarrow> string list" where
  "split_aux acc [] = (if acc = [] then [] else [rev acc])"
| "split_aux acc (c # s) =
     (if is_space c then (if acc = [] then split_aux [] s else rev acc # split_aux [] s)
      else split_aux (c # acc) s)"

definition split :: "string \<Rightarrow> string list" where
  "split s = split_aux [] s"

text \<open>The flag says that the previous character was a carriage return, whose line feed is skipped.\<close>

fun splitlines_aux :: "string \<Rightarrow> bool \<Rightarrow> string \<Rightarrow> string list" where
  "splitlines_aux acc cr [] = (if acc = [] then [] else [rev acc])"
| "splitlines_aux acc cr (c # s) =
     (if cr \<and> code c = 10 then splitlines_aux acc False s
      else if is_linebreak c then rev acc # splitlines_aux [] (code c = 13) s
      else splitlines_aux (c # acc) False s)"

definition splitlines :: "string \<Rightarrow> string list" where
  "splitlines s = splitlines_aux [] False s"

definition line_feed :: char where
  "line_feed = char_of (10 :: nat)"

section \<open>Numbers as text\<close>

definition digit_char :: "nat \<Rightarrow> char" where
  "digit_char d = char_of (48 + d)"

fun str_nat :: "nat \<Rightarrow> string" where
  "str_nat n = (if n < 10 then [digit_char n] else str_nat (n div 10) @ [digit_char (n mod 10)])"

declare str_nat.simps [simp del]

definition str_int :: "int \<Rightarrow> string" where
  "str_int i = (if i < 0 then ''-'' @ str_nat (nat (- i)) else str_nat (nat i))"

definition decimal_value :: "string \<Rightarrow> nat" where
  "decimal_value s = foldl (\<lambda>n c. 10 * n + (code c - 48)) 0 s"

text \<open>\<^verbatim>\<open>int(s)\<close> on a text without signs, spaces or underscores: decimal digits only.\<close>

definition int_of_digits :: "string \<Rightarrow> int result" where
  "int_of_digits s =
     (if s \<noteq> [] \<and> list_all is_decimal s then Inr (int (decimal_value s))
      else Inl (ValueError ''invalid literal for int() with base 10''))"

section \<open>Lemmas\<close>

lemma code_digit_char: "d < 10 \<Longrightarrow> code (digit_char d) = 48 + d"
  by (simp add: digit_char_def)

lemma str_nat_nonempty [simp]: "str_nat n \<noteq> []"
  by (subst str_nat.simps) simp

lemma str_nat_decimal: "list_all is_decimal (str_nat n)"
proof (induction n rule: str_nat.induct)
  case (1 n)
  have "is_decimal (digit_char (n mod 10))" and "n < 10 \<Longrightarrow> is_decimal (digit_char n)"
    by (simp_all add: is_decimal_def code_digit_char)
  with 1 show ?case by (subst str_nat.simps) auto
qed

lemma decimal_value_snoc: "decimal_value (s @ [c]) = 10 * decimal_value s + (code c - 48)"
  by (simp add: decimal_value_def)

lemma decimal_value_str_nat: "decimal_value (str_nat n) = n"
proof (induction n rule: str_nat.induct)
  case (1 n)
  show ?case
  proof (cases "n < 10")
    case True
    then show ?thesis
      by (subst str_nat.simps) (simp add: code_digit_char decimal_value_def)
  next
    case False
    with 1 show ?thesis
      by (subst str_nat.simps) (simp add: decimal_value_snoc code_digit_char)
  qed
qed

lemma int_of_str_nat [simp]: "int_of_digits (str_nat n) = Inr (int n)"
  by (simp add: int_of_digits_def str_nat_decimal decimal_value_str_nat)

lemma split_aux_tokens:
  "list_all (\<lambda>c. \<not> is_space c) acc \<Longrightarrow> w \<in> set (split_aux acc s) \<Longrightarrow>
     w \<noteq> [] \<and> list_all (\<lambda>c. \<not> is_space c) w"
proof (induction s arbitrary: acc)
  case (Cons c s)
  show ?case
  proof (cases "is_space c")
    case True
    with Cons.prems have "acc \<noteq> [] \<and> w = rev acc \<or> w \<in> set (split_aux [] s)"
      by (auto split: if_splits)
    with Cons.prems(1) Cons.IH [of "[]"] show ?thesis by auto
  next
    case False
    with Cons.prems Cons.IH [of "c # acc"] show ?thesis by simp
  qed
qed (auto split: if_splits)

lemma split_tokens: "w \<in> set (split s) \<Longrightarrow> w \<noteq> [] \<and> list_all (\<lambda>c. \<not> is_space c) w"
  unfolding split_def by (rule split_aux_tokens) auto

lemma rstrip_by_id: "s = [] \<or> \<not> p (last s) \<Longrightarrow> rstrip_by p s = s"
  by (cases s rule: rev_cases) (auto simp: rstrip_by_def)

lemma rstrip_by_last: "rstrip_by p s \<noteq> [] \<Longrightarrow> \<not> p (last (rstrip_by p s))"
  by (simp add: rstrip_by_def last_rev hd_dropWhile)

lemma rstrip_by_idem [simp]: "rstrip_by p (rstrip_by p s) = rstrip_by p s"
  using rstrip_by_last [of p s] by (intro rstrip_by_id) auto

lemma lower_char_idem [simp]: "lower_char (lower_char c) = lower_char c"
proof -
  have "code c < 256" by (rule nat_of_char_less_256)
  then show ?thesis by (auto simp: lower_char_def Let_def)
qed

lemma lower_idem [simp]: "lower (lower s) = lower s"
  by (simp add: lower_def)

text \<open>A line without line breaks that is followed by a line feed is split off.\<close>

lemma splitlines_aux_line:
  "list_all (\<lambda>c. \<not> is_linebreak c) l \<Longrightarrow>
     splitlines_aux acc False (l @ line_feed # s) = (rev acc @ l) # splitlines_aux [] False s"
  by (induction l arbitrary: acc) (auto simp: line_feed_def is_linebreak_def Let_def)

end
