(* ===== verification/Py_Argparse.thy ===== *)
theory Py_Argparse
  imports Py_String
begin

text \<open>
  What the programs use of Python's number syntax and of \<^verbatim>\<open>argparse\<close> (as of CPython 3.11): options with
  one value, flags, help, and at most one positional argument. A parser is the table of its option
  strings in the order of their declaration.
\<close>

section \<open>Numbers\<close>

definition number_space :: "char \<Rightarrow> bool" where
  "number_space c \<longleftrightarrow> (let n = code c in 9 \<le> n \<and> n \<le> 13 \<or> n = 32 \<or> n = 133 \<or> n = 160)"

definition trim :: "string \<Rightarrow> string" where
  "trim s = rstrip_by number_space (dropWhile number_space s)"

definition split_sign :: "string \<Rightarrow> bool \<times> string" where
  "split_sign s = (case s of [] \<Rightarrow> (False, []) | c # t \<Rightarrow> if c = CHR ''-'' then (True, t) else if c = CHR ''+'' then (False, t) else (False, s))"

text \<open>Decimal digits, with single underscores between them.\<close>

fun no_double_underscore :: "string \<Rightarrow> bool" where
  "no_double_underscore (c # d # s) \<longleftrightarrow> \<not> (c = CHR ''_'' \<and> d = CHR ''_'') \<and> no_double_underscore (d # s)"
| "no_double_underscore _ \<longleftrightarrow> True"

definition digits :: "string \<Rightarrow> string option" where
  "digits s =
     (if s \<noteq> [] \<and> is_decimal (hd s) \<and> is_decimal (last s) \<and> list_all (\<lambda>c. is_decimal c \<or> c = CHR ''_'') s \<and> no_double_underscore s
      then Some (filter is_decimal s) else None)"

text \<open>\<^verbatim>\<open>int(s)\<close>, which rejects more than 4300 digits.\<close>

definition int_max_str_digits :: nat where
  "int_max_str_digits = 4300"

definition py_int :: "string \<Rightarrow> int option" where
  "py_int s =
     (case split_sign (trim s) of (negative, t) \<Rightarrow>
        (case digits t of
           None \<Rightarrow> None
         | Some ds \<Rightarrow>
             if length ds > int_max_str_digits then None
             else Some (if negative then - int (decimal_value ds) else int (decimal_value ds))))"

text \<open>
  \<^verbatim>\<open>float(s)\<close>. Infinities, NaN and numbers so large that they round to an infinity have no counterpart
  among the real numbers.
\<close>

datatype float_value = Real real | NotReal | NotFloat

definition split_at :: "(char \<Rightarrow> bool) \<Rightarrow> string \<Rightarrow> string \<times> string option" where
  "split_at P s = (case dropWhile (\<lambda>c. \<not> P c) s of [] \<Rightarrow> (s, None) | _ # t \<Rightarrow> (takeWhile (\<lambda>c. \<not> P c) s, Some t))"

definition digits_or_empty :: "string \<Rightarrow> string option" where
  "digits_or_empty s = (if s = [] then Some [] else digits s)"

definition scale :: "nat \<Rightarrow> int \<Rightarrow> real" where
  "scale m e = (if e \<ge> 0 then real m * 10 ^ nat e else real m / 10 ^ nat (- e))"

definition exponent :: "string option \<Rightarrow> int option" where
  "exponent t =
     (case t of
        None \<Rightarrow> Some 0
      | Some s \<Rightarrow>
          (case split_sign s of (negative, u) \<Rightarrow>
             map_option (\<lambda>ds. if negative then - int (decimal_value ds) else int (decimal_value ds)) (digits u)))"

definition decimal_float :: "string \<Rightarrow> real option" where
  "decimal_float s =
     (case split_at (\<lambda>c. c = CHR ''e'' \<or> c = CHR ''E'') s of (mantissa, ex) \<Rightarrow>
      (case split_at (\<lambda>c. c = CHR ''.'') mantissa of (whole, fraction) \<Rightarrow>
       (case (digits_or_empty whole, digits_or_empty (case fraction of None \<Rightarrow> [] | Some f \<Rightarrow> f), exponent ex) of
          (Some w, Some f, Some e) \<Rightarrow>
            if w @ f = [] then None else Some (scale (decimal_value (w @ f)) (e - int (length f)))
        | _ \<Rightarrow> None)))"

definition py_float :: "string \<Rightarrow> float_value" where
  "py_float s =
     (case split_sign (trim s) of (negative, t) \<Rightarrow>
        if lower t \<in> {''inf'', ''infinity'', ''nan''} then NotReal
        else
          (case decimal_float t of
             None \<Rightarrow> NotFloat
           | Some x \<Rightarrow> if x \<ge> 2 ^ 1024 - 2 ^ 970 then NotReal else Real (if negative then - x else x)))"

section \<open>Parsers\<close>

text \<open>
  The actions of the options, over the type of the namespace: store a text, one of several texts, an
  integer or a float; store true; print the help and exit.
\<close>

datatype 'n arg_action =
    StoreText "string \<Rightarrow> 'n \<Rightarrow> 'n"
  | StoreChoice "string list" "string \<Rightarrow> 'n \<Rightarrow> 'n"
  | StoreInt "int \<Rightarrow> 'n \<Rightarrow> 'n"
  | StoreFloat "real \<Rightarrow> 'n \<Rightarrow> 'n"
  | StoreTrue "'n \<Rightarrow> 'n"
  | Help

type_synonym 'n options = "(string \<times> 'n arg_action) list"

text \<open>
  How parsing ends: with the namespace, by exiting with a status (2 after an error, 0 after the help),
  or with a float that the model does not have.
\<close>

datatype 'n parsed = Parsed 'n | Exits int | Unrepresentable

fun takes_value :: "'n arg_action \<Rightarrow> bool" where
  "takes_value (StoreTrue f) \<longleftrightarrow> False"
| "takes_value Help \<longleftrightarrow> False"
| "takes_value _ \<longleftrightarrow> True"

fun apply_action :: "'n arg_action \<Rightarrow> string \<Rightarrow> 'n \<Rightarrow> 'n parsed" where
  "apply_action (StoreText f) v ns = Parsed (f v ns)"
| "apply_action (StoreChoice cs f) v ns = (if v \<in> set cs then Parsed (f v ns) else Exits 2)"
| "apply_action (StoreInt f) v ns = (case py_int v of None \<Rightarrow> Exits 2 | Some i \<Rightarrow> Parsed (f i ns))"
| "apply_action (StoreFloat f) v ns =
     (case py_float v of Real x \<Rightarrow> Parsed (f x ns) | NotReal \<Rightarrow> Unrepresentable | NotFloat \<Rightarrow> Exits 2)"
| "apply_action (StoreTrue f) v ns = Parsed (f ns)"
| "apply_action Help v ns = Exits 0"

fun run_actions :: "('n arg_action \<times> string) list \<Rightarrow> 'n \<Rightarrow> 'n parsed" where
  "run_actions [] ns = Parsed ns"
| "run_actions ((a, v) # as) ns = (case apply_action a v ns of Parsed ns' \<Rightarrow> run_actions as ns' | r \<Rightarrow> r)"

section \<open>Kinds of arguments\<close>

text \<open>
  \<open>_parse_optional\<close>: an argument is positional, the double dash, an option (its action, whether its
  option string starts with two dashes, whether a value is attached by an equals sign, and the attached
  text), or an unknown option. An abbreviation of several option strings is ambiguous.
\<close>

datatype 'n token = Argument | DoubleDash | Option "'n arg_action" bool bool "string option" | Unknown

definition is_long :: "string \<Rightarrow> bool" where
  "is_long s \<longleftrightarrow> take 2 s = ''--''"

definition equals :: "char \<Rightarrow> bool" where
  "equals c \<longleftrightarrow> c = CHR ''=''"

definition option_tuples :: "'n options \<Rightarrow> string \<Rightarrow> 'n token list" where
  "option_tuples opts s =
     (if is_long s then
        (case split_at equals s of (pre, val) \<Rightarrow>
           map (\<lambda>(os, a). Option a (is_long os) (val \<noteq> None) val) (filter (\<lambda>(os, a). prefix pre os) opts))
      else
        map (\<lambda>(os, a). if os = take 2 s then Option a (is_long os) False (Some (drop 2 s)) else Option a (is_long os) False None)
          (filter (\<lambda>(os, a). os = take 2 s \<or> prefix s os) opts))"

definition negative_number :: "string \<Rightarrow> bool" where
  "negative_number s =
     (let t = (if s \<noteq> [] \<and> last s = line_feed then butlast s else s) in
      t \<noteq> [] \<and> hd t = CHR ''-'' \<and>
      (case split_at (\<lambda>c. c = CHR ''.'') (tl t) of
         (w, None) \<Rightarrow> w \<noteq> [] \<and> list_all is_decimal w
       | (w, Some f) \<Rightarrow> list_all is_decimal w \<and> f \<noteq> [] \<and> list_all is_decimal f))"

definition guess :: "'n options \<Rightarrow> string \<Rightarrow> 'n token option" where
  "guess opts s =
     (case option_tuples opts s of
        [] \<Rightarrow> Some (if negative_number s \<or> CHR '' '' \<in> set s then Argument else Unknown)
      | [t] \<Rightarrow> Some t
      | _ \<Rightarrow> None)"

definition parse_optional :: "'n options \<Rightarrow> string \<Rightarrow> 'n token option" where
  "parse_optional opts s =
     (if s = [] \<or> hd s \<noteq> CHR ''-'' then Some Argument
      else
        (case map_of opts s of
           Some a \<Rightarrow> Some (Option a (is_long s) False None)
         | None \<Rightarrow>
             if length s = 1 then Some Argument
             else
               (case split_at equals s of
                  (os, None) \<Rightarrow> guess opts s
                | (os, Some val) \<Rightarrow>
                    (case map_of opts os of
                       Some a \<Rightarrow> Some (Option a (is_long os) True (Some val))
                     | None \<Rightarrow> guess opts s))))"

text \<open>Everything after a double dash is positional.\<close>

fun classify :: "'n options \<Rightarrow> string list \<Rightarrow> (string \<times> 'n token) list option" where
  "classify opts [] = Some []"
| "classify opts (s # ss) =
     (if s = ''--'' then Some ((s, DoubleDash) # map (\<lambda>x. (x, Argument)) ss)
      else
        (case parse_optional opts s of
           None \<Rightarrow> None
         | Some t \<Rightarrow> map_option (\<lambda>ts. (s, t) # ts) (classify opts ss)))"

section \<open>Consuming arguments\<close>

text \<open>
  An option with an attached text: the actions it stands for, and what remains to be done: nothing, an
  unknown letter to report, or an option that still looks for its value. Letters of flags can be joined.
\<close>

datatype 'n remaining = Done | Leftover | Open "'n arg_action"

fun attached :: "'n options \<Rightarrow> 'n arg_action \<Rightarrow> bool \<Rightarrow> bool \<Rightarrow> string \<Rightarrow> (('n arg_action \<times> string) list \<times> 'n remaining) option" where
  "attached opts a long sep [] = (if takes_value a then Some ([(a, [])], Done) else None)"
| "attached opts a long sep (c # r) =
     (if takes_value a then Some ([(a, c # r)], Done)
      else if long \<or> sep \<or> c = CHR ''-'' then None
      else
        (case map_of opts [CHR ''-'', c] of
           None \<Rightarrow> Some ([(a, [])], Leftover)
         | Some a' \<Rightarrow>
             (case r of
                [] \<Rightarrow> Some ([(a, [])], Open a')
              | d # r' \<Rightarrow>
                  map_option (\<lambda>(as, rem). ((a, []) # as, rem))
                    (if d = CHR ''='' then attached opts a' False True r' else attached opts a' False False r))))"

text \<open>\<open>consume_optional\<close>: the actions to take, the arguments left, and whether something was left over.\<close>

definition consume_option ::
  "'n options \<Rightarrow> 'n arg_action \<Rightarrow> bool \<Rightarrow> bool \<Rightarrow> string option \<Rightarrow> (string \<times> 'n token) list \<Rightarrow>
     (('n arg_action \<times> string) list \<times> (string \<times> 'n token) list \<times> bool) option" where
  "consume_option opts a long sep val ts =
     (case (case val of None \<Rightarrow> Some ([], Open a) | Some v \<Rightarrow> attached opts a long sep v) of
        None \<Rightarrow> None
      | Some (as, Done) \<Rightarrow> Some (as, ts, False)
      | Some (as, Leftover) \<Rightarrow> Some (as, ts, True)
      | Some (as, Open a') \<Rightarrow>
          if takes_value a' then (case ts of (v, Argument) # ts' \<Rightarrow> Some (as @ [(a', v)], ts', False) | _ \<Rightarrow> None)
          else Some (as @ [(a', [])], ts, False))"

lemma consume_option_length: "consume_option opts a long sep val ts = Some (as, ts', x) \<Longrightarrow> length ts' \<le> length ts"
  by (auto simp: consume_option_def split: option.splits prod.splits remaining.splits if_splits list.splits token.splits)

text \<open>
  The loop of \<open>_parse_known_args\<close>, with the positional argument that is still missing and whether an
  argument was left over, and the errors after it.
\<close>

definition skip_dash :: "(string \<times> 'n token) list \<Rightarrow> (string \<times> 'n token) list" where
  "skip_dash ts = (case ts of (_, DoubleDash) # ts' \<Rightarrow> ts' | _ \<Rightarrow> ts)"

lemma skip_dash_length: "length (skip_dash ts) \<le> length ts"
  by (simp add: skip_dash_def split: list.split prod.split token.split)

function consume ::
  "'n options \<Rightarrow> (string \<Rightarrow> 'n \<Rightarrow> 'n) option \<Rightarrow> (string \<times> 'n token) list \<Rightarrow> 'n \<Rightarrow> bool \<Rightarrow> 'n parsed" where
  "consume opts pos [] ns extras = (if pos \<noteq> None \<or> extras then Exits 2 else Parsed ns)"
| "consume opts pos ((s, Argument) # ts) ns extras =
     (case pos of
        Some f \<Rightarrow> consume opts None (skip_dash ts) (f s ns) extras
      | None \<Rightarrow> consume opts None ts ns True)"
| "consume opts pos ((s, DoubleDash) # ts) ns extras =
     (case pos of
        None \<Rightarrow> consume opts None ts ns True
      | Some f \<Rightarrow>
          (case ts of
             (v, Argument) # ts' \<Rightarrow> consume opts None ts' (f v ns) extras
           | _ \<Rightarrow> consume opts pos ts ns True))"
| "consume opts pos ((s, Unknown) # ts) ns extras = consume opts pos ts ns True"
| "consume opts pos ((s, Option a long sep val) # ts) ns extras =
     (case consume_option opts a long sep val ts of
        None \<Rightarrow> Exits 2
      | Some (as, ts', left) \<Rightarrow>
          (case run_actions as ns of Parsed ns' \<Rightarrow> consume opts pos ts' ns' (extras \<or> left) | r \<Rightarrow> r))"
  by pat_completeness auto
termination
  by (relation "measure (\<lambda>(opts, pos, ts, ns, extras). length ts)")
    (auto simp: less_Suc_eq_le skip_dash_length dest: consume_option_length)

definition parse_argv :: "'n options \<Rightarrow> (string \<Rightarrow> 'n \<Rightarrow> 'n) option \<Rightarrow> string list \<Rightarrow> 'n \<Rightarrow> 'n parsed" where
  "parse_argv opts pos argv ns =
     (case classify opts argv of None \<Rightarrow> Exits 2 | Some ts \<Rightarrow> consume opts pos ts ns False)"

section \<open>Lemmas\<close>

text \<open>Numbers that Python printed are read back.\<close>

lemma length_str_nat: "n < 10 ^ k \<Longrightarrow> 0 < k \<Longrightarrow> length (str_nat n) \<le> k"
proof (induction n arbitrary: k rule: str_nat.induct)
  case (1 n)
  show ?case
  proof (cases "n < 10")
    case True
    with 1(3) show ?thesis by (subst str_nat.simps) simp
  next
    case False
    then obtain j where j: "k = Suc j" "0 < j" using 1(2,3) by (cases k; cases "k - 1") auto
    with 1(2) have "n div 10 < 10 ^ j" by auto
    with 1(1) False j have "length (str_nat (n div 10)) \<le> j" by simp
    with False j show ?thesis by (subst str_nat.simps) simp
  qed
qed

lemma decimal_no_underscore: "list_all is_decimal s \<Longrightarrow> no_double_underscore s"
  by (induction s rule: no_double_underscore.induct) (auto simp: is_decimal_def)

lemma digits_str_nat [simp]: "digits (str_nat n) = Some (str_nat n)"
proof -
  have d: "\<forall>c \<in> set (str_nat n). is_decimal c" using str_nat_decimal [of n] by (simp add: list_all_iff)
  then have "is_decimal (hd (str_nat n))" "is_decimal (last (str_nat n))" "filter is_decimal (str_nat n) = str_nat n"
    by (simp_all add: filter_id_conv)
  with d decimal_no_underscore [OF str_nat_decimal [of n]] show ?thesis by (auto simp: digits_def list_all_iff)
qed

lemma trim_id: "s = [] \<or> \<not> number_space (hd s) \<and> \<not> number_space (last s) \<Longrightarrow> trim s = s"
  by (cases s) (auto simp: trim_def intro!: rstrip_by_id)

lemma split_sign_str_int [simp]: "split_sign (trim (str_int i)) = (i < 0, str_nat (nat \<bar>i\<bar>))"
proof -
  have d: "is_decimal c" if "c \<in> set (str_nat n)" for c n using that str_nat_decimal [of n] by (simp add: list_all_iff)
  have n: "\<not> number_space c \<and> c \<noteq> CHR ''-'' \<and> c \<noteq> CHR ''+''" if "is_decimal c" for c
    using that by (auto simp: is_decimal_def number_space_def Let_def)
  have "\<not> number_space (CHR ''-'')" by (simp add: number_space_def)
  moreover have "\<not> number_space (hd (str_nat m))" "\<not> number_space (last (str_nat m))" for m
    using d [of "hd (str_nat m)" m] d [of "last (str_nat m)" m] n by simp_all
  ultimately have "trim (str_int i) = str_int i"
    by (intro trim_id) (auto simp: str_int_def)
  moreover obtain c t where "str_nat (nat i) = c # t" by (cases "str_nat (nat i)") auto
  moreover have "is_decimal c" if "str_nat (nat i) = c # t" for c t using d [of c "nat i"] that by simp
  ultimately show ?thesis using n by (auto simp: str_int_def split_sign_def)
qed

lemma py_int_str_int:
  assumes "\<bar>i\<bar> < 10 ^ int_max_str_digits" shows "py_int (str_int i) = Some i"
proof -
  have "int (nat \<bar>i\<bar>) < int (10 ^ int_max_str_digits)" using assms by simp
  then have "nat \<bar>i\<bar> < 10 ^ int_max_str_digits" by (simp only: of_nat_less_iff)
  then have "length (str_nat (nat \<bar>i\<bar>)) \<le> int_max_str_digits"
    by (rule length_str_nat) (simp add: int_max_str_digits_def)
  then show ?thesis by (simp add: py_int_def decimal_value_str_nat)
qed

text \<open>
  Options written out in full, a value attached by an equals sign, whatever the value: their actions are
  taken in the order of the options.
\<close>

type_synonym setting = "string \<times> string option"

definition render :: "setting \<Rightarrow> string" where
  "render x = (case x of (os, None) \<Rightarrow> os | (os, Some v) \<Rightarrow> os @ CHR ''='' # v)"

definition setting_ok :: "'n options \<Rightarrow> setting \<Rightarrow> bool" where
  "setting_ok opts x \<longleftrightarrow>
     (case x of (os, v) \<Rightarrow> is_long os \<and> os \<noteq> ''--'' \<and> \<not> list_ex equals os \<and>
        (case map_of opts os of None \<Rightarrow> False | Some a \<Rightarrow> takes_value a \<longleftrightarrow> v \<noteq> None))"

definition options_ok :: "'n options \<Rightarrow> bool" where
  "options_ok opts \<longleftrightarrow> list_all (\<lambda>(os, a). \<not> list_ex equals os) opts"

definition setting_action :: "'n options \<Rightarrow> setting \<Rightarrow> 'n arg_action \<times> string" where
  "setting_action opts x = (case x of (os, v) \<Rightarrow> (the (map_of opts os), case v of None \<Rightarrow> [] | Some t \<Rightarrow> t))"

definition setting_token :: "'n options \<Rightarrow> setting \<Rightarrow> string \<times> 'n token" where
  "setting_token opts x = (render x, Option (the (map_of opts (fst x))) True (snd x \<noteq> None) (snd x))"

lemma split_at_sep: "\<not> list_ex P s \<Longrightarrow> P c \<Longrightarrow> split_at P (s @ c # t) = (s, Some t)"
proof -
  assume "\<not> list_ex P s" and c: "P c"
  then have "\<forall>x \<in> set s. \<not> P x" by (simp add: list_ex_iff)
  with c have "dropWhile (\<lambda>x. \<not> P x) (s @ c # t) = c # t" "takeWhile (\<lambda>x. \<not> P x) (s @ c # t) = s"
    by (simp_all add: dropWhile_append2 takeWhile_append2)
  then show ?thesis by (simp add: split_at_def)
qed

lemma is_longE: "is_long s \<Longrightarrow> (\<And>t. s = CHR ''-'' # CHR ''-'' # t \<Longrightarrow> thesis) \<Longrightarrow> thesis"
  by (cases s; cases "tl s") (auto simp: is_long_def)

lemma classify_setting:
  assumes "options_ok opts" and "setting_ok opts x"
  shows "render x \<noteq> ''--'' \<and> parse_optional opts (render x) = Some (snd (setting_token opts x))"
proof -
  obtain os v a where x: "x = (os, v)" and a: "map_of opts os = Some a" "is_long os" "\<not> list_ex equals os" "os \<noteq> ''--''"
    using assms(2) by (auto simp: setting_ok_def split: option.splits)
  obtain t where t: "os = CHR ''-'' # CHR ''-'' # t" using a(2) by (rule is_longE)
  show ?thesis
  proof (cases v)
    case None
    with x a t show ?thesis by (simp add: render_def setting_token_def parse_optional_def)
  next
    case (Some w)
    have "map_of opts (os @ CHR ''='' # w) = None"
    proof (rule ccontr)
      assume "map_of opts (os @ CHR ''='' # w) \<noteq> None"
      then obtain b where "(os @ CHR ''='' # w, b) \<in> set opts" by (auto dest: map_of_SomeD)
      with assms(1) show False by (auto simp: options_ok_def list_all_iff equals_def)
    qed
    moreover have "split_at equals (os @ CHR ''='' # w) = (os, Some w)"
      using a(3) by (intro split_at_sep) (simp_all add: equals_def)
    moreover have "hd (os @ CHR ''='' # w) = CHR ''-''" "os @ CHR ''='' # w \<noteq> ''--''" using t by auto
    ultimately show ?thesis using Some x a t by (simp add: render_def setting_token_def parse_optional_def)
  qed
qed

lemma classify_settings:
  "options_ok opts \<Longrightarrow> list_all (setting_ok opts) xs \<Longrightarrow>
     classify opts (map render xs) = Some (map (setting_token opts) xs)"
proof (induction xs)
  case (Cons x xs)
  then have "classify opts (map render xs) = Some (map (setting_token opts) xs)" by simp
  moreover have "render x \<noteq> ''--''" "parse_optional opts (render x) = Some (snd (setting_token opts x))"
    using Cons.prems classify_setting [of opts x] by simp_all
  moreover have "fst (setting_token opts x) = render x" by (simp add: setting_token_def)
  ultimately show ?case by (simp add: prod_eq_iff)
qed simp

lemma consume_setting:
  assumes "setting_ok opts x"
  shows "consume_option opts (the (map_of opts (fst x))) True (snd x \<noteq> None) (snd x) ts =
    Some ([setting_action opts x], ts, False)"
  using assms
  by (cases x; cases "snd x"; cases "the (snd x)")
    (auto simp: setting_ok_def setting_action_def consume_option_def split: option.splits)

lemma consume_settings:
  "list_all (setting_ok opts) xs \<Longrightarrow>
     consume opts None (map (setting_token opts) xs) ns False = run_actions (map (setting_action opts) xs) ns"
proof (induction xs arbitrary: ns)
  case (Cons x xs)
  obtain a v where av: "setting_action opts x = (a, v)" by fastforce
  have ok: "setting_ok opts x" "list_all (setting_ok opts) xs" using Cons.prems by simp_all
  have t: "map (setting_token opts) (x # xs) =
      (render x, Option (the (map_of opts (fst x))) True (snd x \<noteq> None) (snd x)) # map (setting_token opts) xs"
    by (simp add: setting_token_def)
  have "consume opts None (map (setting_token opts) (x # xs)) ns False =
      (case run_actions [(a, v)] ns of Parsed ns' \<Rightarrow> consume opts None (map (setting_token opts) xs) ns' False | r \<Rightarrow> r)"
    by (simp only: t consume.simps consume_setting [OF ok(1)] av option.case prod.case simp_thms)
  then show ?case using Cons.IH [OF ok(2)] by (simp add: av split: parsed.split)
qed simp

lemma parse_settings:
  assumes "options_ok opts" and "list_all (setting_ok opts) xs"
  shows "parse_argv opts None (map render xs) ns = run_actions (map (setting_action opts) xs) ns"
  by (simp add: parse_argv_def classify_settings [OF assms] consume_settings [OF assms(2)])

text \<open>What every action of a parser keeps, parsing keeps.\<close>

definition keeps :: "('n \<Rightarrow> bool) \<Rightarrow> 'n arg_action \<Rightarrow> bool" where
  "keeps P a \<longleftrightarrow> (\<forall>v ns ns'. P ns \<longrightarrow> apply_action a v ns = Parsed ns' \<longrightarrow> P ns')"

lemma run_actions_keep:
  "\<forall>(a, v) \<in> set as. keeps P a \<Longrightarrow> P ns \<Longrightarrow> run_actions as ns = Parsed ns' \<Longrightarrow> P ns'"
proof (induction as arbitrary: ns)
  case (Cons x as)
  then show ?case by (cases x) (auto simp: keeps_def split: parsed.splits)
qed simp

lemma attached_actions:
  "attached opts a long sep v = Some (as, r) \<Longrightarrow>
     fst ` set as \<subseteq> insert a (snd ` set opts) \<and> (\<forall>a'. r = Open a' \<longrightarrow> a' \<in> snd ` set opts)"
proof (induction opts a long sep v arbitrary: as r rule: attached.induct)
  case (2 opts a long sep c t)
  show ?case
  proof (cases "takes_value a \<or> map_of opts [CHR ''-'', c] = None \<or> long \<or> sep \<or> c = CHR ''-''")
    case True
    with 2 show ?thesis by (auto split: if_splits)
  next
    case False
    then obtain a' where a': "map_of opts [CHR ''-'', c] = Some a'" by auto
    then have m: "a' \<in> snd ` set opts" by (force dest: map_of_SomeD)
    show ?thesis
    proof (cases t)
      case Nil
      with False a' m "2.prems" show ?thesis by auto
    next
      case (Cons d t')
      define sub where "sub = (if d = CHR ''='' then attached opts a' False True t' else attached opts a' False False t)"
      obtain as' where as': "sub = Some (as', r)" "as = (a, []) # as'"
        using "2.prems" False a' Cons by (auto simp: sub_def split: if_splits)
      have "fst ` set as' \<subseteq> insert a' (snd ` set opts) \<and> (\<forall>b. r = Open b \<longrightarrow> b \<in> snd ` set opts)"
        using "2.IH" False a' Cons as'(1) by (auto simp: sub_def split: if_splits)
      with m as'(2) show ?thesis by auto
    qed
  qed
qed (auto split: if_splits)

lemma consume_option_actions:
  assumes "consume_option opts a long sep val ts = Some (as, ts', x)"
  shows "fst ` set as \<subseteq> insert a (snd ` set opts) \<and> set ts' \<subseteq> set ts"
proof -
  obtain bs r where b: "(case val of None \<Rightarrow> Some ([], Open a) | Some v \<Rightarrow> attached opts a long sep v) = Some (bs, r)"
    using assms by (auto simp: consume_option_def split: option.splits prod.splits)
  define S where "S = insert a (snd ` set opts)"
  have "fst ` set bs \<subseteq> S \<and> (\<forall>a'. r = Open a' \<longrightarrow> a' \<in> S)"
  proof (cases val)
    case None
    with b show ?thesis by (auto simp: S_def)
  next
    case (Some v)
    with b have "attached opts a long sep v = Some (bs, r)" by simp
    from attached_actions [OF this] show ?thesis unfolding S_def by blast
  qed
  then have m: "\<And>c w. (c, w) \<in> set bs \<Longrightarrow> c \<in> S" and o: "\<And>a'. r = Open a' \<Longrightarrow> a' \<in> S" by (auto simp: image_subset_iff)
  have c: "(case r of Done \<Rightarrow> Some (bs, ts, False) | Leftover \<Rightarrow> Some (bs, ts, True)
      | Open a' \<Rightarrow>
          if takes_value a' then (case ts of (v, Argument) # ts' \<Rightarrow> Some (bs @ [(a', v)], ts', False) | _ \<Rightarrow> None)
          else Some (bs @ [(a', [])], ts, False)) = Some (as, ts', x)"
    using assms unfolding consume_option_def b option.case prod.case .
  have "set as \<subseteq> S \<times> UNIV \<and> set ts' \<subseteq> set ts"
  proof (cases r)
    case (Open a')
    have "a' \<in> S" by (rule o [OF Open])
    with m have "set (bs @ [(a', v)]) \<subseteq> S \<times> UNIV" for v by auto
    moreover have "\<exists>v. as = bs @ [(a', v)]" "set ts' \<subseteq> set ts"
      using c Open by (auto split: if_splits list.splits token.splits)
    ultimately show ?thesis by blast
  qed (use c m in auto)
  then show ?thesis by (auto simp: S_def)
qed

definition token_keeps :: "('n \<Rightarrow> bool) \<Rightarrow> 'n token \<Rightarrow> bool" where
  "token_keeps P t = (case t of Option a l sep v \<Rightarrow> keeps P a | _ \<Rightarrow> True)"

lemma parse_optional_keeps:
  assumes "\<forall>(os, a) \<in> set opts. keeps P a" and "parse_optional opts s = Some t"
  shows "token_keeps P t"
proof -
  have m: "keeps P a" if "map_of opts os = Some a" for os a using that assms(1) by (auto dest: map_of_SomeD)
  have "token_keeps P u" if "u \<in> set (option_tuples opts s)" for u
    using that assms(1) by (auto simp: option_tuples_def token_keeps_def split: if_splits prod.splits)
  then have "token_keeps P u" if "guess opts s = Some u" for u
    using that by (auto simp: guess_def token_keeps_def split: list.splits)
  then show ?thesis
    using assms(2) m by (auto simp: parse_optional_def token_keeps_def split: if_splits option.splits prod.splits)
qed

lemma classify_keeps:
  "\<forall>(os, a) \<in> set opts. keeps P a \<Longrightarrow> classify opts ss = Some ts \<Longrightarrow> \<forall>(s, t) \<in> set ts. token_keeps P t"
proof (induction ss arbitrary: ts)
  case (Cons s ss)
  then show ?case
    by (auto simp: token_keeps_def [of P Argument] token_keeps_def [of P DoubleDash] split: if_splits option.splits
        dest: parse_optional_keeps)
qed simp

lemma consume_keeps:
  assumes opts: "\<forall>(os, a) \<in> set opts. keeps P a"
  shows "\<forall>f v ns. pos = Some f \<longrightarrow> P ns \<longrightarrow> P (f v ns) \<Longrightarrow> \<forall>(s, t) \<in> set ts. token_keeps P t \<Longrightarrow> P ns \<Longrightarrow>
    consume opts pos ts ns extras = Parsed ns' \<Longrightarrow> P ns'"
proof (induction "length ts" arbitrary: pos ts ns extras rule: less_induct)
  case less
  have IH: "P ns'" if "length ts2 < length ts" "set ts2 \<subseteq> set ts" "pos2 = pos \<or> pos2 = None" "P ns2"
    "consume opts pos2 ts2 ns2 x = Parsed ns'" for pos2 ts2 ns2 x
    using less.hyps [OF that(1) _ _ that(4,5)] that(2,3) less.prems(1,2) by blast
  show ?case
  proof (cases ts)
    case Nil
    with less.prems show ?thesis by (auto split: if_splits)
  next
    case (Cons y ts1)
    obtain s t where y: "y = (s, t)" by fastforce
    note C = Cons [unfolded y]
    have sk: "length (skip_dash ts1) < length ts" "set (skip_dash ts1) \<subseteq> set ts"
      using skip_dash_length [of ts1] by (auto simp: C skip_dash_def split: list.splits prod.splits token.splits)
    have go: "P ns'" if "consume opts pos2 ts1 ns x = Parsed ns'" "pos2 = pos \<or> pos2 = None" for pos2 x
      using IH [OF _ _ that(2) less.prems(3) that(1)] by (auto simp: C)
    show ?thesis
    proof (cases t)
      case Argument
      then show ?thesis
        using less.prems(1,3,4) go [of None True] IH [OF sk, of None] by (cases pos) (auto simp: C)
    next
      case DoubleDash
      show ?thesis
      proof (cases "\<exists>f v ts2. pos = Some f \<and> ts1 = (v, Argument) # ts2")
        case True
        then obtain f v ts2 where f: "pos = Some f" "ts1 = (v, Argument) # ts2" by blast
        then show ?thesis
          using less.prems(1,3,4) DoubleDash IH [of ts2 None "f v ns" extras] by (auto simp: C)
      next
        case False
        then have "consume opts pos ts ns extras = consume opts pos ts1 ns True"
          using DoubleDash by (auto simp: C split: option.split list.split prod.split token.split)
        with go [of pos True] less.prems(4) show ?thesis by simp
      qed
    next
      case (Option a long sep val)
      obtain as ts' left ns1 where c: "consume_option opts a long sep val ts1 = Some (as, ts', left)"
        "run_actions as ns = Parsed ns1" and r: "consume opts pos ts' ns1 (extras \<or> left) = Parsed ns'"
        using less.prems(4) by (auto simp: C Option split: option.splits parsed.splits)
      have "keeps P a" using less.prems(2) by (simp add: C Option token_keeps_def)
      with opts have k: "keeps P b" if "b \<in> insert a (snd ` set opts)" for b using that by auto
      have "keeps P b" if "(b, v) \<in> set as" for b v
      proof (rule k)
        have "b \<in> fst ` set as" using that by force
        with consume_option_actions [OF c(1)] show "b \<in> insert a (snd ` set opts)" by blast
      qed
      then have "\<forall>(b, v) \<in> set as. keeps P b" by blast
      then have "P ns1" using run_actions_keep [of as P ns ns1] less.prems(3) c(2) by simp
      with consume_option_actions [OF c(1)] consume_option_length [OF c(1)] r show ?thesis
        by (intro IH [of ts' pos ns1 "extras \<or> left"]) (auto simp: C)
    next
      case Unknown
      with go [of pos True] less.prems(4) show ?thesis by (simp add: C)
    qed
  qed
qed

lemma parse_argv_keeps:
  assumes "\<forall>(os, a) \<in> set opts. keeps P a" and "P ns" and "parse_argv opts None argv ns = Parsed ns'"
  shows "P ns'"
proof -
  obtain ts where ts: "classify opts argv = Some ts" "consume opts None ts ns False = Parsed ns'"
    using assms(3) by (auto simp: parse_argv_def split: option.splits)
  show ?thesis
    using consume_keeps [OF assms(1) _ classify_keeps [OF assms(1) ts(1)] assms(2) ts(2)] by simp
qed

end
