(* ===== verification/Base64.thy ===== *)
theory Base64
  imports Prelude
begin

text \<open>
  The two functions of Python's \<^verbatim>\<open>base64\<close> module that the relay client calls: \<^verbatim>\<open>b64encode\<close> and
  \<^verbatim>\<open>b64decode\<close> with \<^verbatim>\<open>validate=True\<close> (the strict decoder of Python 3.11). A decoded JSON string can
  hold any Unicode character, so texts are lists of code points here.
\<close>

type_synonym ustr = "nat list"

definition ustr :: "string \<Rightarrow> ustr" where
  "ustr s = map of_char s"

section \<open>Definitions\<close>

definition sextet_char :: "nat \<Rightarrow> nat" where
  "sextet_char v =
     (if v < 26 then 65 + v else if v < 52 then 71 + v else if v < 62 then v - 4
      else if v = 62 then 43 else 47)"

definition char_sextet :: "nat \<Rightarrow> nat option" where
  "char_sextet c =
     (if 65 \<le> c \<and> c \<le> 90 then Some (c - 65) else if 97 \<le> c \<and> c \<le> 122 then Some (c - 71)
      else if 48 \<le> c \<and> c \<le> 57 then Some (c + 4) else if c = 43 then Some 62
      else if c = 47 then Some 63 else None)"

text \<open>Groups of three bytes become four characters; a shorter last group is padded with \<^verbatim>\<open>=\<close> (61).\<close>

fun encode_bytes :: "nat list \<Rightarrow> ustr" where
  "encode_bytes [] = []"
| "encode_bytes [a] = [sextet_char (a div 4), sextet_char (a mod 4 * 16), 61, 61]"
| "encode_bytes [a, b] =
     [sextet_char (a div 4), sextet_char (a mod 4 * 16 + b div 16), sextet_char (b mod 16 * 4), 61]"
| "encode_bytes (a # b # c # bs) =
     [sextet_char (a div 4), sextet_char (a mod 4 * 16 + b div 16), sextet_char (b mod 16 * 4 + c div 64),
      sextet_char (c mod 64)] @ encode_bytes bs"

definition b64encode :: "bytes \<Rightarrow> ustr" where
  "b64encode bs = encode_bytes (map unat bs)"

text \<open>
  The strict decoder: the position in the group of four, the bits left over, the pads seen in a row and
  whether any pad was seen. \<open>None\<close> is the ValueError (or its subclass) that the decoder raises.
\<close>

fun decode_loop :: "bool \<Rightarrow> nat \<Rightarrow> nat \<Rightarrow> nat \<Rightarrow> ustr \<Rightarrow> nat list option" where
  "decode_loop started q left pads [] = (if q = 0 then Some [] else None)"
| "decode_loop started q left pads (c # cs) =
     (if c = 61 then
        (if 2 \<le> q \<and> 4 \<le> q + (pads + 1) then (if cs \<noteq> [] then None else Some [])
         else decode_loop True q left (if 2 \<le> q then pads + 1 else pads) cs)
      else
        (case char_sextet c of
           None \<Rightarrow> None
         | Some v \<Rightarrow>
             if started then None
             else if q = 0 then decode_loop started 1 v 0 cs
             else if q = 1 then map_option (\<lambda>bs. (left * 4 + v div 16) # bs) (decode_loop started 2 (v mod 16) 0 cs)
             else if q = 2 then map_option (\<lambda>bs. (left * 16 + v div 4) # bs) (decode_loop started 3 (v mod 4) 0 cs)
             else map_option (\<lambda>bs. (left * 64 + v) # bs) (decode_loop started 0 0 0 cs)))"

definition b64decode :: "ustr \<Rightarrow> bytes option" where
  "b64decode s =
     (if list_ex (\<lambda>c. 128 \<le> c) s then None
      else if s \<noteq> [] \<and> hd s = 61 then None
      else map_option (map of_nat) (decode_loop False 0 0 0 s))"

section \<open>Round trip and length\<close>

lemma char_sextet_char [simp]: "v < 64 \<Longrightarrow> char_sextet (sextet_char v) = Some v"
  by (auto simp: sextet_char_def char_sextet_def)

lemma sextet_char_less: "v < 64 \<Longrightarrow> sextet_char v < 128"
  by (auto simp: sextet_char_def)

lemma sextet_char_no_pad [simp]: "v < 64 \<Longrightarrow> sextet_char v \<noteq> 61"
  by (auto simp: sextet_char_def)

lemma byte_quotients:
  fixes b :: nat
  assumes "b < 256"
  shows "b div 4 < 64" and "b div 16 < 16" and "b div 64 < 4"
  using assms by (simp_all add: less_mult_imp_div_less)

lemma byte_parts:
  fixes a b :: nat
  shows "a < 256 \<Longrightarrow> a div 4 < 64" and "a mod 4 * 16 < 64" and "b < 256 \<Longrightarrow> a mod 4 * 16 + b div 16 < 64"
    and "a mod 16 * 4 < 64" and "b < 256 \<Longrightarrow> a mod 16 * 4 + b div 64 < 64" and "a mod 64 < 64"
proof -
  have "a mod 4 < 4" "a mod 16 < 16" "a mod 64 < 64" by simp_all
  then show "a < 256 \<Longrightarrow> a div 4 < 64" "a mod 4 * 16 < 64" "b < 256 \<Longrightarrow> a mod 4 * 16 + b div 16 < 64"
    "a mod 16 * 4 < 64" "b < 256 \<Longrightarrow> a mod 16 * 4 + b div 64 < 64" "a mod 64 < 64"
    using byte_quotients [of a] byte_quotients [of b] by linarith+
qed

lemma byte_join [simp]:
  fixes a b :: nat
  shows "b < 256 \<Longrightarrow> b div 16 div 16 = 0" and "b < 256 \<Longrightarrow> b div 16 mod 16 = b div 16"
    and "b < 256 \<Longrightarrow> b div 64 div 4 = 0" and "b < 256 \<Longrightarrow> b div 64 mod 4 = b div 64"
  using byte_quotients [of b] by simp_all

lemma decode_encode_bytes: "\<forall>b \<in> set bs. b < 256 \<Longrightarrow> decode_loop False 0 0 0 (encode_bytes bs) = Some bs"
proof (induction bs rule: encode_bytes.induct)
  case (2 a)
  then show ?case by (simp add: byte_parts)
next
  case (3 a b)
  then show ?case by (simp add: byte_parts)
next
  case (4 a b c bs)
  then show ?case by (simp add: byte_parts)
qed simp

lemma encode_bytes_ascii: "\<forall>b \<in> set bs. b < 256 \<Longrightarrow> c \<in> set (encode_bytes bs) \<Longrightarrow> c < 128"
  by (induction bs rule: encode_bytes.induct) (auto simp: byte_parts intro!: sextet_char_less)

lemma hd_encode_bytes: "\<forall>b \<in> set bs. b < 256 \<Longrightarrow> bs \<noteq> [] \<Longrightarrow> hd (encode_bytes bs) \<noteq> 61"
  by (cases bs rule: encode_bytes.cases) (auto simp: byte_parts)

lemma encode_bytes_Nil [simp]: "encode_bytes bs = [] \<longleftrightarrow> bs = []"
  by (cases bs rule: encode_bytes.cases) auto

lemma unat_byte_less: "unat (b :: byte) < 256"
  using unsigned_less [of b] by simp

lemma b64_roundtrip: "b64decode (b64encode bs) = Some bs"
proof -
  have "\<forall>b \<in> set (map unat bs). b < 256" by (simp add: unat_byte_less)
  then show ?thesis
    using encode_bytes_ascii [of "map unat bs"] hd_encode_bytes [of "map unat bs"]
    by (auto simp: b64decode_def b64encode_def decode_encode_bytes comp_def list_ex_iff not_le)
qed

lemma length_b64encode: "length (b64encode bs) = 4 * ((length bs + 2) div 3)"
proof -
  have "length (encode_bytes ns) = 4 * ((length ns + 2) div 3)" for ns
    by (induction ns rule: encode_bytes.induct) (simp_all, presburger)
  then show ?thesis by (simp add: b64encode_def)
qed

end
