(* ===== verification/Json.thy ===== *)
theory Json
  imports Base64 Py_String
begin

text \<open>
  The parts of Python's \<^verbatim>\<open>json\<close> module and of its UTF-8 codec that the relay client calls:
  \<^verbatim>\<open>json.dumps\<close> with its default options, \<^verbatim>\<open>json.loads\<close>, and the strict decoding of bytes. Texts are lists
  of code points, numbers with a fraction or an exponent keep their text, and \<^verbatim>\<open>None\<close> as a result
  stands for the JSONDecodeError (or UnicodeDecodeError) that Python raises. The depth of a document and
  the number of digits of an integer are not limited here, as they are in Python.
\<close>

section \<open>Values\<close>

datatype json =
    JNull
  | JBool bool
  | JInt int
  | JFloat ustr
  | JStr ustr
  | JList "json list"
  | JObj "(ustr \<times> json) list"

section \<open>Printing\<close>

definition hex_char :: "nat \<Rightarrow> nat" where
  "hex_char d = (if d < 10 then 48 + d else 87 + d)"

definition nibble :: "nat \<Rightarrow> nat \<Rightarrow> nat" where
  "nibble v k = v div k mod 16"

definition hex4 :: "nat \<Rightarrow> ustr" where
  "hex4 v = [92, 117, hex_char (nibble v 4096), hex_char (nibble v 256),
     hex_char (nibble v 16), hex_char (v mod 16)]"

definition escape :: "nat \<Rightarrow> ustr" where
  "escape c =
     (if c = 34 then [92, 34] else if c = 92 then [92, 92] else if c = 10 then [92, 110]
      else if c = 13 then [92, 114] else if c = 9 then [92, 116] else if c = 12 then [92, 102]
      else if c = 8 then [92, 98] else if 32 \<le> c \<and> c \<le> 126 then [c]
      else if c < 65536 then hex4 c
      else hex4 (55296 + (c - 65536) div 1024) @ hex4 (56320 + (c - 65536) mod 1024))"

definition quoted :: "ustr \<Rightarrow> ustr" where
  "quoted s = [34] @ concat (map escape s) @ [34]"

fun dumps :: "json \<Rightarrow> ustr" and dumps_elems :: "json list \<Rightarrow> ustr"
  and dumps_members :: "(ustr \<times> json) list \<Rightarrow> ustr" where
  "dumps JNull = ustr ''null''"
| "dumps (JBool b) = (if b then ustr ''true'' else ustr ''false'')"
| "dumps (JInt i) = ustr (str_int i)"
| "dumps (JFloat t) = t"
| "dumps (JStr s) = quoted s"
| "dumps (JList xs) = [91] @ dumps_elems xs @ [93]"
| "dumps (JObj ms) = [123] @ dumps_members ms @ [125]"
| "dumps_elems [] = []"
| "dumps_elems [x] = dumps x"
| "dumps_elems (x # y # xs) = dumps x @ [44, 32] @ dumps_elems (y # xs)"
| "dumps_members [] = []"
| "dumps_members [(k, x)] = quoted k @ [58, 32] @ dumps x"
| "dumps_members ((k, x) # m # ms) = quoted k @ [58, 32] @ dumps x @ [44, 32] @ dumps_members (m # ms)"

section \<open>Scanning\<close>

definition skip_ws :: "ustr \<Rightarrow> ustr" where
  "skip_ws s = dropWhile (\<lambda>c. c = 32 \<or> c = 9 \<or> c = 10 \<or> c = 13) s"

definition hex_value :: "nat \<Rightarrow> nat option" where
  "hex_value c =
     (if 48 \<le> c \<and> c \<le> 57 then Some (c - 48) else if 97 \<le> c \<and> c \<le> 102 then Some (c - 87)
      else if 65 \<le> c \<and> c \<le> 70 then Some (c - 55) else None)"

definition hex_values :: "nat \<Rightarrow> nat \<Rightarrow> nat \<Rightarrow> nat \<Rightarrow> nat option" where
  "hex_values a b c d =
     (case (hex_value a, hex_value b, hex_value c, hex_value d) of
        (Some w, Some x, Some y, Some z) \<Rightarrow> Some (((w * 16 + x) * 16 + y) * 16 + z)
      | _ \<Rightarrow> None)"

definition unescape :: "nat \<Rightarrow> nat option" where
  "unescape e =
     (if e = 34 \<or> e = 92 \<or> e = 47 then Some e else if e = 98 then Some 8 else if e = 102 then Some 12
      else if e = 110 then Some 10 else if e = 114 then Some 13 else if e = 116 then Some 9 else None)"

text \<open>
  One character of a string: plain, or an escape. Two escapes that form a surrogate pair give one
  code point.
\<close>

definition scan_low :: "nat \<Rightarrow> ustr \<Rightarrow> (nat \<times> ustr) option" where
  "scan_low v rest =
     (case rest of
        b # u # w # x # y # z # rest' \<Rightarrow>
          if b = 92 \<and> u = 117 then
            (case hex_values w x y z of
               None \<Rightarrow> None
             | Some v' \<Rightarrow>
                 if 56320 \<le> v' \<and> v' < 57344
                 then Some (65536 + (v - 55296) * 1024 + (v' - 56320), rest')
                 else Some (v, rest))
          else Some (v, rest)
      | _ \<Rightarrow> Some (v, rest))"

definition scan_unicode :: "ustr \<Rightarrow> (nat \<times> ustr) option" where
  "scan_unicode s =
     (case s of
        w # x # y # z # rest \<Rightarrow>
          (case hex_values w x y z of
             None \<Rightarrow> None
           | Some v \<Rightarrow> if 55296 \<le> v \<and> v < 56320 then scan_low v rest else Some (v, rest))
      | _ \<Rightarrow> None)"

definition scan_char :: "ustr \<Rightarrow> (nat \<times> ustr) option" where
  "scan_char s =
     (case s of
        [] \<Rightarrow> None
      | c # cs \<Rightarrow>
          if c \<noteq> 92 then (if c < 32 then None else Some (c, cs))
          else
            (case cs of
               [] \<Rightarrow> None
             | e # es \<Rightarrow>
                 if e = 117 then scan_unicode es else map_option (\<lambda>v. (v, es)) (unescape e)))"

lemma scan_low_length: "scan_low v s = Some (c, r) \<Longrightarrow> length r \<le> length s"
  by (auto simp: scan_low_def split: list.splits if_splits option.splits)

lemma scan_unicode_length: "scan_unicode s = Some (c, r) \<Longrightarrow> length r < length s"
  by (auto simp: scan_unicode_def split: list.splits if_splits option.splits dest!: scan_low_length)

lemma scan_char_length: "scan_char s = Some (c, r) \<Longrightarrow> length r < length s"
  by (auto simp: scan_char_def split: list.splits if_splits dest!: scan_unicode_length)

text \<open>The rest of a string after its opening quote: its value and what follows the closing quote.\<close>

function scan_string :: "ustr \<Rightarrow> (ustr \<times> ustr) option" where
  "scan_string s =
     (if s \<noteq> [] \<and> hd s = 34 then Some ([], tl s)
      else
        (case scan_char s of
           None \<Rightarrow> None
         | Some (c, rest) \<Rightarrow> map_option (\<lambda>(t, r). (c # t, r)) (scan_string rest)))"
  by pat_completeness auto

termination by (relation "measure length") (auto dest: scan_char_length)

declare scan_string.simps [simp del]

abbreviation digit :: "nat \<Rightarrow> bool" where
  "digit c \<equiv> 48 \<le> c \<and> c \<le> 57"

text \<open>The integer part: a zero, or a run of digits without a leading zero.\<close>

definition scan_digits :: "ustr \<Rightarrow> (ustr \<times> ustr) option" where
  "scan_digits s =
     (case s of
        [] \<Rightarrow> None
      | c # cs \<Rightarrow>
          if c = 48 then Some ([48], cs)
          else if digit c then Some (takeWhile digit s, dropWhile digit s) else None)"

definition scan_fraction :: "ustr \<Rightarrow> ustr \<times> ustr" where
  "scan_fraction s =
     (case s of
        p # d # ds \<Rightarrow>
          if p = 46 \<and> digit d then (p # takeWhile digit (d # ds), dropWhile digit (d # ds)) else ([], s)
      | _ \<Rightarrow> ([], s))"

definition scan_exponent :: "ustr \<Rightarrow> ustr \<times> ustr" where
  "scan_exponent s =
     (case s of
        e # cs \<Rightarrow>
          if e = 101 \<or> e = 69 then
            (let sign = takeWhile (\<lambda>c. c = 43 \<or> c = 45) (take 1 cs); ds = drop (length sign) cs in
             if ds \<noteq> [] \<and> digit (hd ds) then (e # sign @ takeWhile digit ds, dropWhile digit ds) else ([], s))
          else ([], s)
      | _ \<Rightarrow> ([], s))"

definition digits_value :: "ustr \<Rightarrow> int" where
  "digits_value ds = foldl (\<lambda>n c. 10 * n + int (c - 48)) 0 ds"

definition scan_number :: "ustr \<Rightarrow> (json \<times> ustr) option" where
  "scan_number s =
     (let neg = (s \<noteq> [] \<and> hd s = 45); sign = (if neg then [45] else []) in
      case scan_digits (if neg then tl s else s) of
        None \<Rightarrow> None
      | Some (ds, r) \<Rightarrow>
          (let (fr, r1) = scan_fraction r; (ex, r2) = scan_exponent r1 in
           if fr = [] \<and> ex = []
           then Some (JInt (if neg then - digits_value ds else digits_value ds), r)
           else Some (JFloat (sign @ ds @ fr @ ex), r2)))"

definition literals :: "(ustr \<times> json) list" where
  "literals =
     [(ustr ''null'', JNull), (ustr ''true'', JBool True), (ustr ''false'', JBool False),
      (ustr ''NaN'', JFloat (ustr ''NaN'')), (ustr ''Infinity'', JFloat (ustr ''Infinity'')),
      (ustr ''-Infinity'', JFloat (ustr ''-Infinity''))]"

fun scan_literal :: "(ustr \<times> json) list \<Rightarrow> ustr \<Rightarrow> (json \<times> ustr) option" where
  "scan_literal [] s = scan_number s"
| "scan_literal ((w, v) # ls) s =
     (if take (length w) s = w then Some (v, drop (length w) s) else scan_literal ls s)"

definition starts :: "nat \<Rightarrow> ustr \<Rightarrow> bool" where
  "starts c s \<longleftrightarrow> s \<noteq> [] \<and> hd s = c"

definition mk_object :: "(ustr \<times> json) list \<Rightarrow> (ustr \<times> json) list" where
  "mk_object ms = fold (\<lambda>(k, v) d. dict_set k v d) ms []"

section \<open>Parsing\<close>

text \<open>The fuel counts calls; \<open>loads\<close> gives more than any document of the length can use.\<close>

fun parse_value :: "nat \<Rightarrow> ustr \<Rightarrow> (json \<times> ustr) option"
  and parse_elems :: "nat \<Rightarrow> ustr \<Rightarrow> (json list \<times> ustr) option"
  and parse_members :: "nat \<Rightarrow> ustr \<Rightarrow> ((ustr \<times> json) list \<times> ustr) option" where
  "parse_value 0 s = None"
| "parse_value (Suc n) s =
     (if starts 34 s then map_option (\<lambda>(t, r). (JStr t, r)) (scan_string (tl s))
      else if starts 123 s then
        (let r = skip_ws (tl s) in
         if starts 125 r then Some (JObj [], tl r)
         else map_option (\<lambda>(ms, r'). (JObj (mk_object ms), r')) (parse_members n r))
      else if starts 91 s then
        (let r = skip_ws (tl s) in
         if starts 93 r then Some (JList [], tl r)
         else map_option (\<lambda>(xs, r'). (JList xs, r')) (parse_elems n r))
      else scan_literal literals s)"
| "parse_elems 0 s = None"
| "parse_elems (Suc n) s =
     (case parse_value n s of
        None \<Rightarrow> None
      | Some (v, r) \<Rightarrow>
          (let r1 = skip_ws r in
           if starts 93 r1 then Some ([v], tl r1)
           else if starts 44 r1 then map_option (\<lambda>(vs, r'). (v # vs, r')) (parse_elems n (skip_ws (tl r1)))
           else None))"
| "parse_members 0 s = None"
| "parse_members (Suc n) s =
     (if \<not> starts 34 s then None
      else
        (case scan_string (tl s) of
           None \<Rightarrow> None
         | Some (k, r) \<Rightarrow>
             (let r1 = skip_ws r in
              if \<not> starts 58 r1 then None
              else
                (case parse_value n (skip_ws (tl r1)) of
                   None \<Rightarrow> None
                 | Some (v, r2) \<Rightarrow>
                     (let r3 = skip_ws r2 in
                      if starts 125 r3 then Some ([(k, v)], tl r3)
                      else if starts 44 r3
                      then map_option (\<lambda>(ms, r'). ((k, v) # ms, r')) (parse_members n (skip_ws (tl r3)))
                      else None)))))"

definition loads :: "ustr \<Rightarrow> json option" where
  "loads s =
     (case parse_value (2 * length s + 1) (skip_ws s) of
        None \<Rightarrow> None
      | Some (v, r) \<Rightarrow> if skip_ws r = [] then Some v else None)"

section \<open>UTF-8\<close>

definition continuation :: "byte \<Rightarrow> bool" where
  "continuation b \<longleftrightarrow> 128 \<le> unat b \<and> unat b < 192"

fun utf8_decode :: "bytes \<Rightarrow> ustr option" where
  "utf8_decode [] = Some []"
| "utf8_decode (a # bs) =
     (let x = unat a in
      if x < 128 then map_option ((#) x) (utf8_decode bs)
      else if 194 \<le> x \<and> x < 224 then
        (case bs of
           b # bs' \<Rightarrow>
             if continuation b then map_option ((#) ((x - 192) * 64 + (unat b - 128))) (utf8_decode bs') else None
         | _ \<Rightarrow> None)
      else if 224 \<le> x \<and> x < 240 then
        (case bs of
           b # c # bs' \<Rightarrow>
             if continuation b \<and> continuation c \<and> (x = 224 \<longrightarrow> 160 \<le> unat b) \<and> (x = 237 \<longrightarrow> unat b < 160)
             then map_option ((#) (((x - 224) * 64 + (unat b - 128)) * 64 + (unat c - 128))) (utf8_decode bs')
             else None
         | _ \<Rightarrow> None)
      else if 240 \<le> x \<and> x < 245 then
        (case bs of
           b # c # d # bs' \<Rightarrow>
             if continuation b \<and> continuation c \<and> continuation d \<and> (x = 240 \<longrightarrow> 144 \<le> unat b) \<and>
                (x = 244 \<longrightarrow> unat b < 144)
             then map_option ((#) ((((x - 240) * 64 + (unat b - 128)) * 64 + (unat c - 128)) * 64 + (unat d - 128)))
               (utf8_decode bs')
             else None
         | _ \<Rightarrow> None)
      else None)"

text \<open>The UTF-8 encoding of a text of ASCII characters, which is what \<open>dumps\<close> writes.\<close>

definition ascii_bytes :: "ustr \<Rightarrow> bytes" where
  "ascii_bytes s = map of_nat s"

section \<open>The fuel is enough\<close>

lemma skip_ws_length: "length (skip_ws s) \<le> length s"
  by (simp add: skip_ws_def length_dropWhile_le)

lemma starts_length: "starts c s \<Longrightarrow> 0 < length s"
  by (auto simp: starts_def)

lemma skip_tl_length: "starts c s \<Longrightarrow> length (skip_ws (tl s)) < length s"
  using skip_ws_length [of "tl s"] by (cases s) (simp_all add: starts_def)

lemma skip_next_length: "length (skip_ws (tl (skip_ws s))) \<le> length s"
  using skip_ws_length [of "tl (skip_ws s)"] skip_ws_length [of s] by simp

lemma scan_string_length: "scan_string s = Some (t, r) \<Longrightarrow> length r < length s"
proof (induction s arbitrary: t r rule: scan_string.induct)
  case (1 s)
  show ?case
  proof (cases "s \<noteq> [] \<and> hd s = 34")
    case True
    with 1(2) show ?thesis by (subst (asm) scan_string.simps) (auto simp: neq_Nil_conv)
  next
    case False
    with 1(2) obtain c rest t' where c: "scan_char s = Some (c, rest)" and "scan_string rest = Some (t', r)"
      by (subst (asm) scan_string.simps) (auto split: option.splits)
    with 1(1) [OF False c refl] scan_char_length [OF c] show ?thesis by fastforce
  qed
qed

lemma scan_digits_length: "scan_digits s = Some (ds, r) \<Longrightarrow> length r < length s"
  using length_dropWhile_le [of digit "tl s"] by (auto simp: scan_digits_def split: list.splits if_splits)

lemma scan_fraction_length: "length (snd (scan_fraction s)) \<le> length s"
  using length_dropWhile_le [of digit "tl s"] by (auto simp: scan_fraction_def split: list.splits)

lemma scan_exponent_length: "length (snd (scan_exponent s)) \<le> length s"
proof -
  have "length (dropWhile digit (drop k cs)) \<le> length cs" for k cs
    using length_dropWhile_le [of digit "drop k cs"] by simp
  then show ?thesis
    by (auto simp: scan_exponent_def Let_def split: list.splits intro: le_SucI)
qed

lemma scan_number_length: "scan_number s = Some (v, r) \<Longrightarrow> length r < length s"
proof -
  assume n: "scan_number s = Some (v, r)"
  let ?s = "if s \<noteq> [] \<and> hd s = 45 then tl s else s"
  obtain ds r0 where d: "scan_digits ?s = Some (ds, r0)"
    using n by (auto simp: scan_number_def Let_def split: option.splits)
  have "length r \<le> length r0"
    using n d scan_fraction_length [of r0] scan_exponent_length [of "snd (scan_fraction r0)"]
    by (auto simp: scan_number_def Let_def split: prod.splits if_splits)
  moreover have "length r0 < length ?s" by (rule scan_digits_length [OF d])
  moreover have "length ?s \<le> length s" by simp
  ultimately show ?thesis by linarith
qed

lemma scan_literal_length: 
  "scan_literal ls s = Some (v, r) \<Longrightarrow> \<forall>l \<in> set ls. fst l \<noteq> [] \<Longrightarrow> length r < length s"
proof (induction ls)
  case (Cons l ls)
  obtain w u where l: "l = (w, u)" by (cases l)
  show ?case
  proof (cases "take (length w) s = w")
    case True
    have "length w \<le> length s" using True by (metis length_take min.cobounded1 min_def)
    moreover have "length w > 0" using Cons.prems(2) by (simp add: l)
    ultimately show ?thesis using True Cons.prems(1) by (auto simp: l intro!: diff_less)
  qed (use Cons in \<open>simp add: l\<close>)
qed (simp add: scan_number_length)

lemma literals_nonempty: "\<forall>l \<in> set literals. fst l \<noteq> []"
  by (simp add: literals_def ustr_def)

lemma parse_lengths:
  "parse_value n s = Some (v, r) \<Longrightarrow> length r < length s"
  "parse_elems n s = Some (vs, r) \<Longrightarrow> length r < length s"
  "parse_members n s = Some (ms, r) \<Longrightarrow> length r < length s"
proof (induction n s and n s and n s arbitrary: v r and vs r and ms r
    rule: parse_value_parse_elems_parse_members.induct)
  case (2 n s)
  show ?case
  proof (cases "starts 34 s")
    case True
    with 2(3) have "map_option (\<lambda>(t, r). (JStr t, r)) (scan_string (tl s)) = Some (v, r)" by simp
    then obtain t where "scan_string (tl s) = Some (t, r)" by auto
    from scan_string_length [OF this] starts_length [OF True] show ?thesis by simp
  next
    case s34: False
    show ?thesis
    proof (cases "starts 123 s \<or> starts 91 s")
      case True
      have tl: "length (skip_ws (tl s)) < length s" using True skip_tl_length by blast
      then have "length (tl (skip_ws (tl s))) < length s" by simp
      moreover have "length r < length (skip_ws (tl s))"
        if "starts 123 s" "\<not> starts 125 (skip_ws (tl s))" "parse_members n (skip_ws (tl s)) = Some (ms, r)" for ms
        using 2(1) [OF s34 that(1) refl that(2,3)] .
      moreover have "length r < length (skip_ws (tl s))"
        if "\<not> starts 123 s" "starts 91 s" "\<not> starts 93 (skip_ws (tl s))" "parse_elems n (skip_ws (tl s)) = Some (xs, r)" for xs
        using 2(2) [OF s34 that(1,2) refl that(3,4)] .
      ultimately show ?thesis
        using 2(3) s34 True tl by (auto simp: Let_def split: if_splits intro: order.strict_trans)
    next
      case False
      with s34 2(3) show ?thesis using scan_literal_length [OF _ literals_nonempty] by simp
    qed
  qed
next
  case (4 n s)
  from 4(3) obtain v r0 where v: "parse_value n s = Some (v, r0)" by (auto split: option.splits)
  have r0: "length r0 < length s" by (rule 4(1) [OF v])
  have "length (skip_ws r0) \<le> length r0" by (rule skip_ws_length)
  moreover have "length (skip_ws (tl (skip_ws r0))) \<le> length (tl (skip_ws r0))" by (rule skip_ws_length)
  ultimately show ?case
    using 4(2) [OF v refl refl] 4(3) v r0
    by (fastforce simp: Let_def split: if_splits)
next
  case (6 n s)
  from 6(3) obtain k r0 v r2 where st: "starts 34 s" and k: "scan_string (tl s) = Some (k, r0)"
    and c: "starts 58 (skip_ws r0)" and v: "parse_value n (skip_ws (tl (skip_ws r0))) = Some (v, r2)"
    by (auto simp: Let_def split: option.splits if_splits)
  have "length r0 < length s" using scan_string_length [OF k] starts_length [OF st] by simp
  moreover have "length r2 < length (skip_ws (tl (skip_ws r0)))" using 6(1) st k c v by simp
  ultimately have r2: "length r2 < length s"
    using skip_ws_length [of r0] skip_tl_length [OF c] by linarith
  have "length (skip_ws r2) \<le> length r2" "length (skip_ws (tl (skip_ws r2))) \<le> length (tl (skip_ws r2))"
    by (rule skip_ws_length)+
  then show ?case
    using 6(2) 6(3) st k c v r2 by (fastforce simp: Let_def split: if_splits)
qed simp_all

text \<open>
  More fuel than twice the length of the text does not change a result, so the fuel of \<open>loads\<close> never
  cuts a document short.
\<close>

lemma parse_stable:
  "2 * length s + 1 \<le> n \<Longrightarrow> 2 * length s + 1 \<le> m \<Longrightarrow> parse_value n s = parse_value m s"
  "2 * length s + 2 \<le> n \<Longrightarrow> 2 * length s + 2 \<le> m \<Longrightarrow> parse_elems n s = parse_elems m s"
  "2 * length s + 2 \<le> n \<Longrightarrow> 2 * length s + 2 \<le> m \<Longrightarrow> parse_members n s = parse_members m s"
proof (induction n s and n s and n s arbitrary: m and m and m
    rule: parse_value_parse_elems_parse_members.induct)
  case (2 n s)
  from 2(4) obtain m' where m: "m = Suc m'" by (cases m) auto
  have f: "2 * length (skip_ws (tl s)) + 2 \<le> n \<and> 2 * length (skip_ws (tl s)) + 2 \<le> m'"
    if "starts 123 s \<or> starts 91 s"
  proof -
    have "length (skip_ws (tl s)) < length s" using that skip_tl_length by blast
    with 2(3,4) m show ?thesis by simp
  qed
  show ?case
  proof (cases "starts 34 s")
    case s34: False
    have "parse_members n (skip_ws (tl s)) = parse_members m' (skip_ws (tl s))"
      if "starts 123 s" "\<not> starts 125 (skip_ws (tl s))"
      using 2(1) [OF s34 that(1) refl that(2)] f that(1) by blast
    moreover have "parse_elems n (skip_ws (tl s)) = parse_elems m' (skip_ws (tl s))"
      if "\<not> starts 123 s" "starts 91 s" "\<not> starts 93 (skip_ws (tl s))"
      using 2(2) [OF s34 that(1,2) refl that(3)] f that(2) by blast
    ultimately show ?thesis
      unfolding m parse_value.simps Let_def by (simp only: s34 if_False cong: if_cong)
  qed (simp add: m)
next
  case (4 n s)
  from 4(4) obtain m' where m: "m = Suc m'" by (cases m) auto
  have v: "parse_value n s = parse_value m' s" using 4(1) [of m'] 4(3,4) m by simp
  show ?case
  proof (cases "parse_value n s")
    case None
    then show ?thesis using v by (simp add: m)
  next
    case (Some p)
    obtain x r where p: "p = (x, r)" by (cases p)
    have "length r < length s" using parse_lengths(1) Some p by blast
    then have "2 * length (skip_ws (tl (skip_ws r))) + 2 \<le> n \<and> 2 * length (skip_ws (tl (skip_ws r))) + 2 \<le> m'"
      using skip_next_length [of r] 4(3,4) m by simp
    then have "starts 44 (skip_ws r) \<Longrightarrow> \<not> starts 93 (skip_ws r) \<Longrightarrow>
        parse_elems n (skip_ws (tl (skip_ws r))) = parse_elems m' (skip_ws (tl (skip_ws r)))"
      using 4(2) [OF Some [unfolded p] refl refl] by blast
    then show ?thesis using Some v by (simp add: m p Let_def)
  qed
next
  case (6 n s)
  from 6(4) obtain m' where m: "m = Suc m'" by (cases m) auto
  show ?case
  proof (cases "starts 34 s \<and> (\<exists>k r. scan_string (tl s) = Some (k, r) \<and> starts 58 (skip_ws r))")
    case False
    then show ?thesis by (auto simp: m Let_def split: option.split)
  next
    case True
    then obtain k r where st: "starts 34 s" and k: "scan_string (tl s) = Some (k, r)" and c: "starts 58 (skip_ws r)"
      by blast
    let ?t = "skip_ws (tl (skip_ws r))"
    have t: "length ?t < length s"
      using scan_string_length [OF k] skip_next_length [of r] by (cases s) simp_all
    then have "2 * length ?t + 1 \<le> n \<and> 2 * length ?t + 1 \<le> m'" using 6(3,4) m by simp
    then have v: "parse_value n ?t = parse_value m' ?t" using 6(1) [OF _ k refl refl] st c by blast
    show ?thesis
    proof (cases "parse_value n ?t")
      case None
      then show ?thesis using st k c v by (simp add: m Let_def)
    next
      case (Some p)
      obtain x r2 where p: "p = (x, r2)" by (cases p)
      have "length r2 < length ?t" using parse_lengths(1) Some p by blast
      then have "2 * length (skip_ws (tl (skip_ws r2))) + 2 \<le> n \<and> 2 * length (skip_ws (tl (skip_ws r2))) + 2 \<le> m'"
        using skip_next_length [of r2] t 6(3,4) m by simp
      then have "starts 44 (skip_ws r2) \<Longrightarrow> \<not> starts 125 (skip_ws r2) \<Longrightarrow>
          parse_members n (skip_ws (tl (skip_ws r2))) = parse_members m' (skip_ws (tl (skip_ws r2)))"
        using 6(2) [OF _ k refl refl _ Some [unfolded p] refl refl] st c by blast
      then show ?thesis using Some v st k c by (simp add: m p Let_def)
    qed
  qed
qed auto

section \<open>Printing and reading back\<close>

text \<open>A code point that is not a surrogate.\<close>

definition scalar :: "nat \<Rightarrow> bool" where
  "scalar c \<longleftrightarrow> c < 55296 \<or> 57344 \<le> c \<and> c < 1114112"

lemma hex_value_char: "d < 16 \<Longrightarrow> hex_value (hex_char d) = Some d"
  by (auto simp: hex_value_def hex_char_def)

lemma hex_digits_value:
  assumes "v < 65536"
  shows "((nibble v 4096 * 16 + nibble v 256) * 16 + nibble v 16) * 16 + v mod 16 = v"
proof -
  have d: "v div 16 div 16 = v div 256" "v div 256 div 16 = v div 4096"
    by (simp_all add: div_mult2_eq [symmetric])
  have "v div 4096 mod 16 = v div 4096" using assms by simp
  moreover have "v div 4096 * 16 + v div 256 mod 16 = v div 256" by (metis d(2) div_mult_mod_eq)
  moreover have "v div 256 * 16 + v div 16 mod 16 = v div 16" by (metis d(1) div_mult_mod_eq)
  moreover have "v div 16 * 16 + v mod 16 = v" by (rule div_mult_mod_eq)
  ultimately show ?thesis unfolding nibble_def by (simp only:)
qed

lemma hex_values_nibbles:
  assumes "v < 65536"
  shows "hex_values (hex_char (nibble v 4096)) (hex_char (nibble v 256)) (hex_char (nibble v 16)) (hex_char (v mod 16)) = Some v"
proof -
  have "hex_value (hex_char (nibble v k)) = Some (nibble v k)" for k
    by (rule hex_value_char) (simp add: nibble_def)
  moreover have "hex_value (hex_char (v mod 16)) = Some (v mod 16)" by (rule hex_value_char) simp
  ultimately show ?thesis using hex_digits_value [OF assms] by (simp only: hex_values_def option.case prod.case)
qed

lemma scan_unicode_hex4:
  assumes "v < 65536"
  shows "scan_unicode (drop 2 (hex4 v) @ rest) =
    (if 55296 \<le> v \<and> v < 56320 then scan_low v rest else Some (v, rest))"
  by (simp add: scan_unicode_def hex4_def hex_values_nibbles [OF assms])

lemma scan_low_hex4:
  assumes "56320 \<le> v'" and "v' < 57344"
  shows "scan_low v (hex4 v' @ rest) = Some (65536 + (v - 55296) * 1024 + (v' - 56320), rest)"
  using assms hex_values_nibbles [of v'] by (simp add: scan_low_def hex4_def)

lemma hex4_split: "hex4 v @ rest = 92 # 117 # drop 2 (hex4 v) @ rest"
  by (simp add: hex4_def)

lemma scan_char_escape:
  assumes "scalar c"
  shows "scan_char (escape c @ rest) = Some (c, rest)"
proof (cases "c < 65536")
  case True
  then have "scan_char (hex4 c @ rest) = Some (c, rest)"
    using assms by (auto simp: hex4_split scan_char_def scan_unicode_hex4 scalar_def)
  with True show ?thesis
    by (auto simp: escape_def) (auto simp: scan_char_def unescape_def)
next
  case False
  let ?h = "55296 + (c - 65536) div 1024" and ?l = "56320 + (c - 65536) mod 1024"
  have "c - 65536 < 1024 * 1024" using assms by (auto simp: scalar_def)
  then have "(c - 65536) div 1024 < 1024" by (rule less_mult_imp_div_less)
  then have h: "55296 \<le> ?h" "?h < 56320" and l: "56320 \<le> ?l" "?l < 57344" by simp_all
  have "escape c = hex4 ?h @ hex4 ?l" using False by (simp add: escape_def)
  then have "scan_char (escape c @ rest) = scan_low ?h (hex4 ?l @ rest)"
    using h by (simp only: append_assoc) (simp add: hex4_split [of ?h] scan_char_def scan_unicode_hex4)
  also have "\<dots> = Some (65536 + (?h - 55296) * 1024 + (?l - 56320), rest)" by (rule scan_low_hex4 [OF l])
  also have "65536 + (?h - 55296) * 1024 + (?l - 56320) = c" using False by simp
  finally show ?thesis .
qed

lemma escape_start: "escape c \<noteq> [] \<and> hd (escape c @ s) \<noteq> 34"
  by (simp add: escape_def hex4_def)

lemma scan_string_quoted: "list_all scalar s \<Longrightarrow> scan_string (concat (map escape s) @ 34 # rest) = Some (s, rest)"
proof (induction s)
  case Nil
  show ?case by (subst scan_string.simps) simp
next
  case (Cons c s)
  then show ?case
    using escape_start [of c "[]"]
    by (subst scan_string.simps) (simp add: scan_char_escape)
qed

lemma mk_object_distinct: "distinct (map fst ms) \<Longrightarrow> mk_object ms = ms"
proof -
  have "fold (\<lambda>(k, v) d. dict_set k v d) ms d = d @ ms" if "distinct (map fst (d @ ms))" for d
    using that
  proof (induction ms arbitrary: d)
    case (Cons m ms)
    obtain k v where m: "m = (k, v)" by (cases m)
    from Cons.prems have "k \<notin> fst ` set d" by (auto simp: m)
    then have "dict_set k v d = d @ [(k, v)]" by (induction d) auto
    with Cons show ?case by (simp add: m)
  qed simp
  then show "distinct (map fst ms) \<Longrightarrow> mk_object ms = ms" by (simp add: mk_object_def)
qed

text \<open>Numbers: the printed integer is read back, whatever follows it inside a document.\<close>

definition stop :: "ustr \<Rightarrow> bool" where
  "stop s \<longleftrightarrow> s = [] \<or> hd s \<in> {44, 93, 125}"

lemma ustr_Cons [simp]: "ustr (c # s) = of_char c # ustr s" and ustr_Nil [simp]: "ustr [] = []"
  and ustr_append [simp]: "ustr (s @ t) = ustr s @ ustr t"
  by (simp_all add: ustr_def)

lemma digits_value_ustr: "list_all is_decimal s \<Longrightarrow> digits_value (ustr s) = int (decimal_value s)"
proof -
  have "foldl (\<lambda>n c. 10 * n + int (c - 48)) (int a) (ustr s) = int (foldl (\<lambda>n c. 10 * n + (code c - 48)) a s)" for a
  proof (induction s arbitrary: a)
    case (Cons c s)
    then show ?case using Cons.IH [of "10 * a + (code c - 48)"] by simp
  qed simp
  from this [of 0] show ?thesis by (simp add: digits_value_def decimal_value_def)
qed

lemma str_nat_lead: "n \<noteq> 0 \<Longrightarrow> code (hd (str_nat n)) \<noteq> 48"
proof (induction n rule: str_nat.induct)
  case (1 n)
  then show ?case
    by (subst str_nat.simps) (auto simp: code_digit_char hd_append)
qed

lemma scan_digits_str_nat:
  assumes "stop rest"
  shows "scan_digits (ustr (str_nat n) @ rest) = Some (ustr (str_nat n), rest)"
proof (cases "n = 0")
  case True
  have "str_nat 0 = [digit_char 0]" by (subst str_nat.simps) simp
  then show ?thesis using True by (simp add: scan_digits_def code_digit_char)
next
  case False
  obtain c s where cs: "str_nat n = c # s" by (cases "str_nat n") auto
  have c: "code c \<noteq> 48" using str_nat_lead [OF False] cs by simp
  have all: "\<forall>x \<in> set (ustr (str_nat n)). digit x"
    using str_nat_decimal [of n] by (auto simp: ustr_def list_all_iff is_decimal_def)
  then have "takeWhile digit (ustr (str_nat n) @ rest) = ustr (str_nat n)"
    "dropWhile digit (ustr (str_nat n) @ rest) = rest"
    using assms by (auto simp: takeWhile_append2 dropWhile_append2 stop_def takeWhile_eq_Nil_iff dropWhile_eq_self_iff)
  with all c show ?thesis by (simp add: scan_digits_def cs)
qed

lemma scan_tail_stop: "stop rest \<Longrightarrow> scan_fraction rest = ([], rest) \<and> scan_exponent rest = ([], rest)"
  by (auto simp: stop_def scan_fraction_def scan_exponent_def split: list.split)

lemma scan_number_str_int:
  assumes "stop rest"
  shows "scan_number (ustr (str_int i) @ rest) = Some (JInt i, rest)"
proof -
  have v: "digits_value (ustr (str_nat n)) = int n" for n
    by (simp add: digits_value_ustr str_nat_decimal decimal_value_str_nat)
  have hd: "hd (ustr (str_nat n)) \<noteq> 45" "ustr (str_nat n) \<noteq> []" for n
    using str_nat_decimal [of n] by (cases "str_nat n"; simp add: is_decimal_def)+
  show ?thesis
    using scan_tail_stop [OF assms] scan_digits_str_nat [OF assms]
    by (auto simp: scan_number_def str_int_def Let_def v hd)
qed

lemma scan_literal_none:
  "\<forall>w \<in> set (map fst ls). take (length w) s \<noteq> w \<Longrightarrow> scan_literal ls s = scan_number s"
  by (induction ls) auto

lemma scan_literal_int:
  assumes "stop rest"
  shows "scan_literal literals (ustr (str_int i) @ rest) = Some (JInt i, rest)"
proof -
  obtain c s where cs: "str_nat (nat \<bar>i\<bar>) = c # s" and d: "48 \<le> code c" "code c \<le> 57"
    using str_nat_decimal [of "nat \<bar>i\<bar>"] by (cases "str_nat (nat \<bar>i\<bar>)") (auto simp: is_decimal_def)
  have "str_int i = (if i < 0 then CHR ''-'' # c # s else c # s)"
    using cs by (simp add: str_int_def abs_if split: if_splits)
  then have "take (length w) (ustr (str_int i) @ rest) \<noteq> w" if "w \<in> set (map fst literals)" for w
    using that d by (auto simp: literals_def)
  then have "scan_literal literals (ustr (str_int i) @ rest) = scan_number (ustr (str_int i) @ rest)"
    by (intro scan_literal_none) blast
  then show ?thesis by (simp add: scan_number_str_int [OF assms])
qed

text \<open>The values that survive: no floats, no surrogates, and objects with distinct keys.\<close>

fun printable :: "json \<Rightarrow> bool" where
  "printable JNull \<longleftrightarrow> True"
| "printable (JBool b) \<longleftrightarrow> True"
| "printable (JInt i) \<longleftrightarrow> True"
| "printable (JFloat t) \<longleftrightarrow> False"
| "printable (JStr s) \<longleftrightarrow> list_all scalar s"
| "printable (JList xs) \<longleftrightarrow> (\<forall>x \<in> set xs. printable x)"
| "printable (JObj ms) \<longleftrightarrow>
     distinct (map fst ms) \<and> (\<forall>m \<in> set ms. list_all scalar (fst m) \<and> printable (snd m))"

lemma starts_simps [simp]: "starts c (d # s) \<longleftrightarrow> d = c" "\<not> starts c []"
  by (simp_all add: starts_def)

text \<open>No value starts with white space or with a closing bracket.\<close>

definition opener :: "ustr \<Rightarrow> bool" where
  "opener s \<longleftrightarrow> s \<noteq> [] \<and> hd s \<notin> {9, 10, 13, 32, 93, 125}"

lemma opener_skip: "opener s \<Longrightarrow> skip_ws (s @ r) = s @ r"
  by (cases s) (auto simp: opener_def skip_ws_def)

lemma opener_starts: "opener s \<Longrightarrow> \<not> starts 93 (s @ r) \<and> \<not> starts 125 (s @ r)"
  by (cases s) (auto simp: opener_def)

lemma opener_str_int: "opener (ustr (str_int i))"
proof -
  have "opener (ustr (str_nat n))" for n
    using str_nat_decimal [of n] by (cases "str_nat n") (auto simp: opener_def is_decimal_def)
  then show ?thesis by (auto simp: str_int_def) (simp add: opener_def)
qed

lemma opener_dumps: "printable j \<Longrightarrow> opener (dumps j)"
  by (cases j) (auto simp: opener_str_int, auto simp: opener_def quoted_def)

lemma int_start: "\<not> starts 34 (ustr (str_int i) @ r) \<and> \<not> starts 123 (ustr (str_int i) @ r) \<and> \<not> starts 91 (ustr (str_int i) @ r)"
proof -
  have "\<not> starts c (ustr (str_nat n) @ r)" if "57 < c \<or> c < 48" for c n
    using str_nat_decimal [of n] that by (cases "str_nat n") (auto simp: is_decimal_def)
  then show ?thesis by (simp add: str_int_def)
qed

lemma parse_quoted:
  "list_all scalar s \<Longrightarrow> parse_value (Suc n) (quoted s @ rest) = Some (JStr s, rest)"
  by (simp add: quoted_def scan_string_quoted)

lemma parse_dumps:
  "printable j \<Longrightarrow> stop rest \<Longrightarrow> 2 * length (dumps j) + 1 \<le> n \<Longrightarrow>
     parse_value n (dumps j @ rest) = Some (j, rest)"
  "xs \<noteq> [] \<Longrightarrow> \<forall>x \<in> set xs. printable x \<Longrightarrow> 2 * length (dumps_elems xs) + 2 \<le> n \<Longrightarrow>
     parse_elems n (dumps_elems xs @ 93 # rest) = Some (xs, rest)"
  "ms \<noteq> [] \<Longrightarrow> \<forall>m \<in> set ms. list_all scalar (fst m) \<and> printable (snd m) \<Longrightarrow>
     2 * length (dumps_members ms) + 2 \<le> n \<Longrightarrow>
     parse_members n (dumps_members ms @ 125 # rest) = Some (ms, rest)"
proof (induction j and xs and ms arbitrary: n rest and n rest and n rest
    rule: dumps_dumps_elems_dumps_members.induct)
  case 1
  then show ?case by (cases n) (auto simp: literals_def)
next
  case (2 b)
  then show ?case by (cases n) (auto simp: literals_def)
next
  case (3 i)
  then show ?case using int_start [of i rest] by (cases n) (auto simp: scan_literal_int)
next
  case (5 s)
  then show ?case by (cases n) (simp_all add: quoted_def scan_string_quoted)
next
  case (6 xs)
  then obtain k where n: "n = Suc k" by (cases n) auto
  show ?case
  proof (cases xs)
    case Nil
    then show ?thesis by (simp add: n skip_ws_def)
  next
    case (Cons x ys)
    from 6 Cons have "opener (dumps x)" by (simp add: opener_dumps)
    then have "opener (dumps_elems xs)" unfolding Cons by (cases ys) (auto simp: opener_def)
    then show ?thesis
      using 6(1) [of k rest] 6(2,4) Cons opener_skip [of "dumps_elems xs"] opener_starts [of "dumps_elems xs"]
      by (simp add: n)
  qed
next
  case (7 ms)
  then obtain k where n: "n = Suc k" by (cases n) auto
  show ?case
  proof (cases ms)
    case Nil
    then show ?thesis by (simp add: n skip_ws_def)
  next
    case (Cons m ms')
    have "opener (dumps_members ms)" unfolding Cons by (cases m; cases ms') (auto simp: opener_def quoted_def)
    then show ?thesis
      using 7(1) [of k rest] 7(2,4) Cons opener_skip [of "dumps_members ms"] opener_starts [of "dumps_members ms"]
      by (simp add: n mk_object_distinct)
  qed
next
  case (9 x)
  then obtain k where n: "n = Suc k" by (cases n) auto
  show ?case using 9(1) [of "93 # rest" k] 9(3,4) by (simp add: n stop_def skip_ws_def)
next
  case (10 x y xs)
  then obtain k where n: "n = Suc k" by (cases n) auto
  have op: "opener (dumps_elems (y # xs))"
    using 10(4) opener_dumps [of y] by (cases xs) (auto simp: opener_def)
  have x: "parse_value k (dumps x @ 44 # 32 # dumps_elems (y # xs) @ 93 # rest) =
      Some (x, 44 # 32 # dumps_elems (y # xs) @ 93 # rest)"
    using 10(1) [of "44 # 32 # dumps_elems (y # xs) @ 93 # rest" k] 10(4,5) by (simp add: n stop_def)
  have "skip_ws (32 # dumps_elems (y # xs) @ 93 # rest) = dumps_elems (y # xs) @ 93 # rest"
    using opener_skip [OF op] by (simp add: skip_ws_def)
  then show ?case
    using 10(2) [of k rest] 10(4,5) x by (simp add: n skip_ws_def)
next
  case (12 k x)
  then obtain l where n: "n = Suc l" by (cases n) auto
  have "skip_ws (32 # dumps x @ 125 # rest) = dumps x @ 125 # rest"
    using 12(3) opener_skip [OF opener_dumps, of x] by (simp add: skip_ws_def)
  then show ?case
    using 12(1) [of "125 # rest" l] 12(3,4) by (simp add: n quoted_def scan_string_quoted stop_def skip_ws_def)
next
  case (13 k x m ms)
  then obtain l where n: "n = Suc l" by (cases n) auto
  let ?r = "dumps_members (m # ms) @ 125 # rest"
  have op: "opener (dumps_members (m # ms))" by (cases m; cases ms) (auto simp: opener_def quoted_def)
  have s1: "skip_ws (32 # dumps x @ 44 # 32 # ?r) = dumps x @ 44 # 32 # ?r"
    using 13(4) opener_skip [OF opener_dumps, of x] by (simp add: skip_ws_def)
  have s2: "skip_ws (32 # ?r) = ?r" using opener_skip [OF op] by (simp add: skip_ws_def)
  have x: "parse_value l (dumps x @ 44 # 32 # ?r) = Some (x, 44 # 32 # ?r)"
    using 13(1) [of "44 # 32 # ?r" l] 13(4,5) by (simp add: n stop_def)
  show ?case
    using 13(2) [of l rest] 13(4,5) s1 s2 x
    by (simp add: n quoted_def scan_string_quoted skip_ws_def)
qed simp_all

lemma loads_dumps: "printable j \<Longrightarrow> loads (dumps j) = Some j"
  using parse_dumps(1) [of j "[]" "2 * length (dumps j) + 1"] opener_skip [OF opener_dumps, of j "[]"]
  by (simp add: loads_def stop_def) (simp add: skip_ws_def)

section \<open>Printed texts are ASCII\<close>

lemma utf8_ascii: "\<forall>c \<in> set s. c < 128 \<Longrightarrow> utf8_decode (ascii_bytes s) = Some s"
  by (induction s) (simp_all add: ascii_bytes_def unat_of_nat)

lemma hex_char_ascii: "d < 16 \<Longrightarrow> hex_char d < 128"
  by (simp add: hex_char_def)

lemma escape_ascii: "c \<in> set (escape d) \<Longrightarrow> c < 128"
  by (auto simp: escape_def hex4_def nibble_def intro!: hex_char_ascii split: if_splits)

lemma quoted_ascii: "c \<in> set (quoted s) \<Longrightarrow> c < 128"
  by (auto simp: quoted_def dest: escape_ascii)

lemma str_int_ascii: "c \<in> set (ustr (str_int i)) \<Longrightarrow> c < 128"
  using str_nat_decimal [of "nat i"] str_nat_decimal [of "nat (- i)"]
  by (auto simp: str_int_def ustr_def list_all_iff is_decimal_def split: if_splits)

lemma dumps_ascii:
  "printable j \<Longrightarrow> c \<in> set (dumps j) \<Longrightarrow> c < 128"
  "\<forall>x \<in> set xs. printable x \<Longrightarrow> c \<in> set (dumps_elems xs) \<Longrightarrow> c < 128"
  "\<forall>m \<in> set ms. printable (snd m) \<Longrightarrow> c \<in> set (dumps_members ms) \<Longrightarrow> c < 128"
  by (induction j and xs and ms rule: dumps_dumps_elems_dumps_members.induct)
    (auto dest: quoted_ascii str_int_ascii split: if_splits)

lemma json_wire_roundtrip:
  "printable j \<Longrightarrow> Option.bind (utf8_decode (ascii_bytes (dumps j))) loads = Some j"
  using dumps_ascii(1) [of j] utf8_ascii [of "dumps j"] loads_dumps [of j] by auto

end
