(* ===== verification/Relay_Types.thy ===== *)
theory Relay_Types
  imports Json
begin

text \<open>
  The types and validations of \<^verbatim>\<open>relay_types.py\<close>: limits, configuration with its two endpoint URLs, the
  request and response of the batch API, and the checks of limits, startup mode and base URL. A value of
  the JSON type bool passes Python's test for int and counts as 0 or 1.
\<close>

section \<open>Limits and configuration\<close>

record relay_limits =
  max_items :: int
  max_request_bytes :: int
  per_item_max_wire_bytes :: int
  max_response_bytes :: int

definition default_relay_limits :: relay_limits where
  "default_relay_limits =
     \<lparr>max_items = 32, max_request_bytes = 65536, per_item_max_wire_bytes = 4096, max_response_bytes = 262144\<rparr>"

definition limits_as_dict :: "relay_limits \<Rightarrow> (string, int) dict" where
  "limits_as_dict l =
     [(''max_items'', max_items l), (''max_request_bytes'', max_request_bytes l),
      (''per_item_max_wire_bytes'', per_item_max_wire_bytes l), (''max_response_bytes'', max_response_bytes l)]"

record relay_config =
  base_url :: string
  api_version :: int
  auth_token :: "string option"
  startup_check :: string
  limits :: relay_limits

definition info_url :: "relay_config \<Rightarrow> string" where
  "info_url cfg = rstrip_char CHR ''/'' (base_url cfg) @ ''/v'' @ str_int (api_version cfg) @ ''/info''"

definition dns_url :: "relay_config \<Rightarrow> string" where
  "dns_url cfg = rstrip_char CHR ''/'' (base_url cfg) @ ''/v'' @ str_int (api_version cfg) @ ''/dns''"

section \<open>Messages\<close>

record relay_item_request =
  ireq_id :: ustr
  q_b64 :: ustr

record relay_request =
  req_v :: int
  req_id :: ustr
  req_items :: "relay_item_request list"

definition to_dict :: "relay_request \<Rightarrow> json" where
  "to_dict r =
     JObj [(ustr ''v'', JInt (req_v r)), (ustr ''id'', JStr (req_id r)),
           (ustr ''items'',
            JList (map (\<lambda>it. JObj [(ustr ''id'', JStr (ireq_id it)), (ustr ''q'', JStr (q_b64 it))]) (req_items r)))]"

record relay_item_response =
  iresp_id :: ustr
  iresp_ok :: bool
  a_b64 :: "ustr option"
  iresp_err :: "ustr option"

record relay_response =
  resp_v :: int
  resp_id :: ustr
  resp_items :: "relay_item_response list"

text \<open>\<^verbatim>\<open>isinstance(x, int)\<close>, with the integer it stands for; the other type tests.\<close>

fun json_int :: "json \<Rightarrow> int option" where
  "json_int (JInt i) = Some i"
| "json_int (JBool b) = Some (of_bool b)"
| "json_int _ = None"

fun json_str :: "json \<Rightarrow> ustr option" where
  "json_str (JStr s) = Some s"
| "json_str _ = None"

abbreviation obj_get :: "(ustr \<times> json) list \<Rightarrow> string \<Rightarrow> json option" where
  "obj_get ms k \<equiv> dict_get ms (ustr k)"

text \<open>A word in single quotes, as in the error messages.\<close>

definition single :: "string \<Rightarrow> string" where
  "single s = [CHR 0x27] @ s @ [CHR 0x27]"

definition parse_item :: "json \<Rightarrow> relay_item_response result" where
  "parse_item item =
     (case item of
        JObj ms \<Rightarrow>
          (case (obj_get ms ''id'', obj_get ms ''ok'') of
             (None, _) \<Rightarrow> Inl (ValueError ''item missing field: id'')
           | (_, None) \<Rightarrow> Inl (ValueError ''item missing field: ok'')
           | (Some i, Some k) \<Rightarrow>
               (case (json_str i, k) of
                  (None, _) \<Rightarrow> Inl (ValueError (''item field '' @ single ''id'' @ '' must be a string''))
                | (Some item_id, JBool True) \<Rightarrow>
                    (case Option.bind (obj_get ms ''a'') json_str of
                       None \<Rightarrow> Inl (ValueError ''ok item missing field: a'')
                     | Some payload \<Rightarrow>
                         Inr \<lparr>iresp_id = item_id, iresp_ok = True, a_b64 = Some payload, iresp_err = None\<rparr>)
                | (Some item_id, JBool False) \<Rightarrow>
                    (case Option.bind (obj_get ms ''err'') json_str of
                       None \<Rightarrow> Inl (ValueError ''error item missing field: err'')
                     | Some err \<Rightarrow>
                         Inr \<lparr>iresp_id = item_id, iresp_ok = False, a_b64 = None, iresp_err = Some err\<rparr>)
                | (Some _, _) \<Rightarrow>
                    Inl (ValueError (''item field '' @ single ''ok'' @ '' must be a bool''))))
      | _ \<Rightarrow> Inl (ValueError ''item must be an object''))"

fun parse_items :: "json list \<Rightarrow> relay_item_response list result" where
  "parse_items [] = Inr []"
| "parse_items (it # its) =
     (case parse_item it of
        Inl x \<Rightarrow> Inl x
      | Inr r \<Rightarrow> (case parse_items its of Inl x \<Rightarrow> Inl x | Inr rs \<Rightarrow> Inr (r # rs)))"

fun missing_field :: "string list \<Rightarrow> (ustr \<times> json) list \<Rightarrow> string option" where
  "missing_field [] ms = None"
| "missing_field (k # ks) ms = (if obj_get ms k = None then Some k else missing_field ks ms)"

definition from_dict :: "json \<Rightarrow> relay_response result" where
  "from_dict data =
     (case data of
        JObj ms \<Rightarrow>
          (case missing_field [''v'', ''id'', ''items''] ms of
             Some k \<Rightarrow> Inl (ValueError (''missing field: '' @ k))
           | None \<Rightarrow>
               (case json_int (the (obj_get ms ''v'')) of
                  None \<Rightarrow> Inl (ValueError (''field '' @ single ''v'' @ '' must be an int''))
                | Some v \<Rightarrow>
                    (case json_str (the (obj_get ms ''id'')) of
                       None \<Rightarrow> Inl (ValueError (''field '' @ single ''id'' @ '' must be a string''))
                     | Some request_id \<Rightarrow>
                         (case the (obj_get ms ''items'') of
                            JList its \<Rightarrow>
                              (case parse_items its of
                                 Inl x \<Rightarrow> Inl x
                               | Inr rs \<Rightarrow> Inr \<lparr>resp_v = v, resp_id = request_id, resp_items = rs\<rparr>)
                          | _ \<Rightarrow> Inl (ValueError (''field '' @ single ''items'' @ '' must be a list''))))))
      | _ \<Rightarrow> Inl (ValueError ''response must be an object''))"

section \<open>Validation\<close>

fun check_positive :: "(string, int) dict \<Rightarrow> unit result" where
  "check_positive [] = Inr ()"
| "check_positive ((name, v) # d) = (if v \<le> 0 then Inl (ValueError (name @ '' must be > 0'')) else check_positive d)"

definition validate_limits :: "relay_limits \<Rightarrow> unit result" where
  "validate_limits l = check_positive (limits_as_dict l)"

definition validate_startup_check :: "string \<Rightarrow> unit result" where
  "validate_startup_check v =
     (if v \<notin> {''require'', ''warn'', ''off''}
      then Inl (ValueError (''relay_startup_check must be '' @ single ''require'' @ '', '' @ single ''warn'' @ '', or '' @ single ''off'')) else Inr ())"

text \<open>
  \<^verbatim>\<open>urllib.parse.urlsplit\<close>: leading control characters and blanks are dropped, tabs and line ends
  are removed everywhere, then scheme, network location, fragment and query are cut off in this order.
  \<open>bracket_ok\<close> is the check of a network location with brackets, which differs between versions of
  Python.
\<close>

record split_url =
  scheme :: string
  netloc :: string
  path :: string
  url_query :: string
  fragment :: string

definition clean_url :: "string \<Rightarrow> string" where
  "clean_url url = filter (\<lambda>c. code c \<notin> {9, 10, 13}) (dropWhile (\<lambda>c. code c \<le> 32) url)"

definition ascii_alpha :: "char \<Rightarrow> bool" where
  "ascii_alpha c \<longleftrightarrow> 65 \<le> code c \<and> code c \<le> 90 \<or> 97 \<le> code c \<and> code c \<le> 122"

definition scheme_char :: "char \<Rightarrow> bool" where
  "scheme_char c \<longleftrightarrow> ascii_alpha c \<or> is_decimal c \<or> c \<in> {CHR ''+'', CHR ''-'', CHR ''.''}"

text \<open>The text before the first occurrence of a character and the text after it, if there is one.\<close>

definition cut :: "char \<Rightarrow> string \<Rightarrow> string \<times> string option" where
  "cut c s = (takeWhile (\<lambda>x. x \<noteq> c) s, if c \<in> set s then Some (tl (dropWhile (\<lambda>x. x \<noteq> c) s)) else None)"

definition split_scheme :: "string \<Rightarrow> string \<times> string" where
  "split_scheme url =
     (case cut CHR '':'' url of
        (before, Some after) \<Rightarrow>
          if before \<noteq> [] \<and> ascii_alpha (hd url) \<and> list_all scheme_char before then (lower before, after) else ([], url)
      | _ \<Rightarrow> ([], url))"

definition delimiter :: "char \<Rightarrow> bool" where
  "delimiter c \<longleftrightarrow> c \<in> {CHR ''/'', CHR ''?'', CHR ''#''}"

definition split_netloc :: "string \<Rightarrow> string \<times> string" where
  "split_netloc url =
     (if take 2 url = ''//''
      then (takeWhile (\<lambda>c. \<not> delimiter c) (drop 2 url), dropWhile (\<lambda>c. \<not> delimiter c) (drop 2 url))
      else ([], url))"

definition urlsplit :: "(string \<Rightarrow> bool) \<Rightarrow> string \<Rightarrow> split_url result" where
  "urlsplit bracket_ok url0 =
     (let (sch, url1) = split_scheme (clean_url url0);
          (net, url2) = split_netloc url1
      in
      if (CHR ''['' \<in> set net) \<noteq> (CHR '']'' \<in> set net) then Inl (ValueError ''Invalid IPv6 URL'')
      else if CHR ''['' \<in> set net \<and> \<not> bracket_ok net then Inl (ValueError ''Invalid IPv6 URL'')
      else
        (let (url3, frag) = cut CHR ''#'' url2;
             (url4, qry) = cut CHR ''?'' url3
         in Inr \<lparr>scheme = sch, netloc = net, path = url4,
                 url_query = (case qry of None \<Rightarrow> [] | Some q \<Rightarrow> q),
                 fragment = (case frag of None \<Rightarrow> [] | Some f \<Rightarrow> f)\<rparr>))"

definition validate_base_url :: "(string \<Rightarrow> bool) \<Rightarrow> string \<Rightarrow> unit result" where
  "validate_base_url bracket_ok url =
     (if strip url = [] then Inl (ValueError ''relay_base_url must be non-empty'')
      else if strip url \<noteq> url then Inl (ValueError ''relay_base_url must not include surrounding whitespace'')
      else
        (case urlsplit bracket_ok url of
           Inl x \<Rightarrow> Inl x
         | Inr parts \<Rightarrow>
             if scheme parts \<noteq> ''http'' \<and> scheme parts \<noteq> ''https''
             then Inl (ValueError ''relay_base_url must start with http:// or https://'')
             else if netloc parts = [] then Inl (ValueError ''relay_base_url must include a host'')
             else if url_query parts \<noteq> [] \<or> fragment parts \<noteq> []
             then Inl (ValueError ''relay_base_url must not include a querystring or fragment'')
             else Inr ()))"

section \<open>Responses\<close>

text \<open>The JSON a relay sends for a response, and the responses that have one.\<close>

definition item_json :: "relay_item_response \<Rightarrow> json" where
  "item_json it =
     JObj ([(ustr ''id'', JStr (iresp_id it)), (ustr ''ok'', JBool (iresp_ok it))] @
       (case a_b64 it of None \<Rightarrow> [] | Some a \<Rightarrow> [(ustr ''a'', JStr a)]) @
       (case iresp_err it of None \<Rightarrow> [] | Some e \<Rightarrow> [(ustr ''err'', JStr e)]))"

definition response_json :: "relay_response \<Rightarrow> json" where
  "response_json r =
     JObj [(ustr ''v'', JInt (resp_v r)), (ustr ''id'', JStr (resp_id r)),
           (ustr ''items'', JList (map item_json (resp_items r)))]"

definition item_ok :: "relay_item_response \<Rightarrow> bool" where
  "item_ok it \<longleftrightarrow> (if iresp_ok it then a_b64 it \<noteq> None \<and> iresp_err it = None else a_b64 it = None \<and> iresp_err it \<noteq> None)"

lemma parse_item_json: "item_ok it \<Longrightarrow> parse_item (item_json it) = Inr it"
  by (cases it) (auto simp: parse_item_def item_json_def item_ok_def split: if_splits)

lemma parse_items_json: "\<forall>it \<in> set its. item_ok it \<Longrightarrow> parse_items (map item_json its) = Inr its"
  by (induction its) (simp_all add: parse_item_json)

lemma from_dict_json: "\<forall>it \<in> set (resp_items r). item_ok it \<Longrightarrow> from_dict (response_json r) = Inr r"
  by (simp add: from_dict_def response_json_def parse_items_json)

lemma parse_item_ok: "parse_item j = Inr it \<Longrightarrow> item_ok it"
  by (auto simp: parse_item_def item_ok_def split: json.splits option.splits bool.splits)

lemma parse_items_ok: "parse_items js = Inr its \<Longrightarrow> \<forall>it \<in> set its. item_ok it"
  by (induction js arbitrary: its) (auto split: sum.splits dest: parse_item_ok)

lemma from_dict_ok: "from_dict j = Inr r \<Longrightarrow> \<forall>it \<in> set (resp_items r). item_ok it"
  by (auto simp: from_dict_def split: json.splits option.splits sum.splits dest: parse_items_ok)

section \<open>Endpoint URLs\<close>

lemma cut_absent: "c \<notin> set s \<Longrightarrow> cut c s = (s, None)"
  by (simp add: cut_def) (metis takeWhile_eq_all_conv)

lemma cut_split: "c \<in> set s \<Longrightarrow> s = takeWhile (\<lambda>x. x \<noteq> c) s @ c # tl (dropWhile (\<lambda>x. x \<noteq> c) s)"
  by (induction s) auto

lemma cut_at: "c \<notin> set s \<Longrightarrow> cut c (s @ c # t) = (s, Some t)"
  by (induction s) (auto simp: cut_def)

lemma scheme_char_no_colon: "scheme_char c \<Longrightarrow> c \<noteq> CHR '':''"
  by (auto simp: scheme_char_def ascii_alpha_def is_decimal_def)

lemma urlsplit_form:
  assumes "clean_url url = before @ CHR '':'' # ''//'' @ net @ rest"
    and b: "before \<noteq> []" "ascii_alpha (hd before)" "list_all scheme_char before"
    and n: "list_all (\<lambda>c. \<not> delimiter c) net" and r: "rest = [] \<or> delimiter (hd rest)"
    and plain: "CHR ''?'' \<notin> set rest" "CHR ''#'' \<notin> set rest"
  shows "urlsplit ok url =
    (if (CHR ''['' \<in> set net) \<noteq> (CHR '']'' \<in> set net) \<or> CHR ''['' \<in> set net \<and> \<not> ok net
     then Inl (ValueError ''Invalid IPv6 URL'')
     else Inr \<lparr>scheme = lower before, netloc = net, path = rest, url_query = [], fragment = []\<rparr>)"
proof -
  have "CHR '':'' \<notin> set before" using b(3) scheme_char_no_colon by (auto simp: list_all_iff)
  then have "split_scheme (clean_url url) = (lower before, ''//'' @ net @ rest)"
    using b by (simp add: split_scheme_def assms(1) cut_at hd_append)
  moreover have "takeWhile (\<lambda>c. \<not> delimiter c) (net @ rest) = net" "dropWhile (\<lambda>c. \<not> delimiter c) (net @ rest) = rest"
    using n r by (cases rest; simp add: takeWhile_append2 dropWhile_append2 list_all_iff)+
  then have "split_netloc (''//'' @ net @ rest) = (net, rest)" by (simp add: split_netloc_def)
  ultimately show ?thesis
    using plain by (auto simp: urlsplit_def cut_absent Let_def)
qed

lemma urlsplit_parts:
  assumes "urlsplit ok url = Inr p" and "scheme p \<noteq> []" and "netloc p \<noteq> []"
  obtains before rest where "clean_url url = before @ CHR '':'' # ''//'' @ netloc p @ rest"
    and "before \<noteq> []" "ascii_alpha (hd before)" "list_all scheme_char before" "scheme p = lower before"
    and "list_all (\<lambda>c. \<not> delimiter c) (netloc p)" "rest = [] \<or> delimiter (hd rest)"
    and "(CHR ''['' \<in> set (netloc p)) = (CHR '']'' \<in> set (netloc p))" "CHR ''['' \<in> set (netloc p) \<longrightarrow> ok (netloc p)"
proof -
  let ?u = "clean_url url"
  obtain sch url1 net url2 where s: "split_scheme ?u = (sch, url1)" and n: "split_netloc url1 = (net, url2)" by fastforce
  have p: "scheme p = sch" "netloc p = net"
    and br: "(CHR ''['' \<in> set net) = (CHR '']'' \<in> set net)" "CHR ''['' \<in> set net \<longrightarrow> ok net"
    using assms(1) by (auto simp: urlsplit_def s n Let_def split: prod.splits if_splits)
  obtain before where b: "?u = before @ CHR '':'' # url1" "before \<noteq> []" "ascii_alpha (hd ?u)"
      "list_all scheme_char before" "sch = lower before"
  proof -
    from s assms(2) p(1) have "CHR '':'' \<in> set ?u"
      and f: "takeWhile (\<lambda>x. x \<noteq> CHR '':'') ?u \<noteq> []" "ascii_alpha (hd ?u)" "list_all scheme_char (takeWhile (\<lambda>x. x \<noteq> CHR '':'') ?u)"
        "sch = lower (takeWhile (\<lambda>x. x \<noteq> CHR '':'') ?u)" "url1 = tl (dropWhile (\<lambda>x. x \<noteq> CHR '':'') ?u)"
      by (auto simp: split_scheme_def cut_def split: if_splits)
    have "?u = takeWhile (\<lambda>x. x \<noteq> CHR '':'') ?u @ CHR '':'' # url1"
      unfolding f(5) by (rule cut_split) fact
    from that [OF this f(1-4)] show thesis .
  qed
  have "take 2 url1 = ''//''" and nf: "net = takeWhile (\<lambda>c. \<not> delimiter c) (drop 2 url1)"
    "url2 = dropWhile (\<lambda>c. \<not> delimiter c) (drop 2 url1)"
    using n assms(3) p(2) by (auto simp: split_netloc_def split: if_splits)
  then have "url1 = ''//'' @ net @ url2" by (metis append_take_drop_id takeWhile_dropWhile_id)
  moreover have "url2 = [] \<or> delimiter (hd url2)" unfolding nf(2) by (metis (mono_tags, lifting) hd_dropWhile)
  moreover have "list_all (\<lambda>c. \<not> delimiter c) net" unfolding nf(1) by (auto simp: list_all_iff dest: set_takeWhileD)
  moreover have "ascii_alpha (hd before)" using b(1-3) by (simp add: hd_append)
  ultimately show thesis using that [of before url2] b br p by simp
qed

text \<open>A path without control characters, blanks, question or number signs, that starts with a slash.\<close>

definition clean_path :: "string \<Rightarrow> bool" where
  "clean_path t \<longleftrightarrow> t \<noteq> [] \<and> hd t = CHR ''/'' \<and> list_all (\<lambda>c. 32 < code c \<and> c \<noteq> CHR ''?'' \<and> c \<noteq> CHR ''#'') t"

lemma clean_url_Nil: "clean_url s = [] \<longleftrightarrow> (\<forall>c \<in> set s. code c \<le> 32)"
proof
  assume e: "clean_url s = []"
  have "dropWhile (\<lambda>c. code c \<le> 32) s = []"
  proof (rule ccontr)
    assume d: "dropWhile (\<lambda>c. code c \<le> 32) s \<noteq> []"
    then have "\<not> code (hd (dropWhile (\<lambda>c. code c \<le> 32) s)) \<le> 32" by (rule hd_dropWhile)
    moreover have "hd (dropWhile (\<lambda>c. code c \<le> 32) s) \<in> set (dropWhile (\<lambda>c. code c \<le> 32) s)" using d by simp
    ultimately show False using e by (auto simp: clean_url_def filter_empty_conv)
  qed
  then show "\<forall>c \<in> set s. code c \<le> 32" by simp
next
  assume "\<forall>c \<in> set s. code c \<le> 32"
  then have "dropWhile (\<lambda>c. code c \<le> 32) s = []" by simp
  then show "clean_url s = []" by (simp only: clean_url_def filter.simps)
qed

lemma set_clean_url: "set (clean_url s) \<subseteq> set s"
  by (auto simp: clean_url_def dest: set_dropWhileD)

lemma clean_url_append:
  assumes "clean_url url \<noteq> []" and "list_all (\<lambda>c. 32 < code c) t"
  shows "clean_url (url @ t) = clean_url url @ t"
proof -
  have "\<exists>c \<in> set url. \<not> code c \<le> 32" using assms(1) by (auto simp: clean_url_Nil)
  then have "dropWhile (\<lambda>c. code c \<le> 32) (url @ t) = dropWhile (\<lambda>c. code c \<le> 32) url @ t"
    by (metis dropWhile_append1)
  moreover have "filter (\<lambda>c. code c \<notin> {9, 10, 13}) t = t"
    using assms(2) by (auto simp: list_all_iff filter_id_conv)
  ultimately show ?thesis by (simp add: clean_url_def)
qed

lemma rstrip_char_replicate: "\<exists>k. s = rstrip_char c s @ replicate k c"
proof -
  have "rev s = takeWhile (\<lambda>x. x = c) (rev s) @ dropWhile (\<lambda>x. x = c) (rev s)" by simp
  moreover have "takeWhile (\<lambda>x. x = c) (rev s) = replicate (length (takeWhile (\<lambda>x. x = c) (rev s))) c"
    by (rule replicate_eqI [symmetric, THEN sym]) (auto dest: set_takeWhileD)
  ultimately have "s = rev (dropWhile (\<lambda>x. x = c) (rev s)) @ rev (replicate (length (takeWhile (\<lambda>x. x = c) (rev s))) c)"
    by (metis rev_append rev_rev_ident)
  then show ?thesis unfolding rstrip_char_def rstrip_by_def by auto
qed

lemma endpoint_url:
  assumes v: "validate_base_url ok base = Inr ()"
    and plain: "CHR ''?'' \<notin> set base" "CHR ''#'' \<notin> set base" and t: "clean_path t"
  shows "\<exists>p q w. urlsplit ok base = Inr p \<and> urlsplit ok (rstrip_char CHR ''/'' base @ t) = Inr q \<and>
    scheme q = scheme p \<and> netloc q = netloc p \<and> path q = w @ t \<and> url_query q = [] \<and> fragment q = []"
proof -
  obtain p where p: "urlsplit ok base = Inr p" "scheme p \<noteq> []" "netloc p \<noteq> []"
    using v by (auto simp: validate_base_url_def split: if_splits sum.splits)
  obtain before rest where u: "clean_url base = before @ CHR '':'' # ''//'' @ netloc p @ rest"
    and b: "before \<noteq> []" "ascii_alpha (hd before)" "list_all scheme_char before" "scheme p = lower before"
    and n: "list_all (\<lambda>c. \<not> delimiter c) (netloc p)" "rest = [] \<or> delimiter (hd rest)"
    and br: "(CHR ''['' \<in> set (netloc p)) = (CHR '']'' \<in> set (netloc p))" "CHR ''['' \<in> set (netloc p) \<longrightarrow> ok (netloc p)"
    by (rule urlsplit_parts [OF p])
  let ?x = "before @ CHR '':'' # ''//'' @ netloc p"
  let ?base = "rstrip_char CHR ''/'' base"
  obtain k where k: "base = ?base @ replicate k CHR ''/''" using rstrip_char_replicate by blast
  have last: "last ?x \<noteq> CHR ''/''" using n(1) p(3) by (auto simp: list_all_iff delimiter_def)
  obtain w where w: "clean_url ?base = ?x @ w" "w @ replicate k CHR ''/'' = rest"
  proof -
    have ne: "clean_url ?base \<noteq> []"
    proof
      assume "clean_url ?base = []"
      then have "\<forall>c \<in> set ?base. code c \<le> 32" by (simp add: clean_url_Nil)
      then have "clean_url base = replicate k CHR ''/''"
        by (subst k) (simp add: clean_url_def dropWhile_append2)
      moreover have "hd (clean_url base) = hd before" "clean_url base \<noteq> []" using u b(1) by (simp_all add: hd_append)
      ultimately have "hd before = CHR ''/''" by (metis hd_replicate replicate_empty)
      with b(2) show False by (simp add: ascii_alpha_def)
    qed
    have "clean_url ?base @ replicate k CHR ''/'' = ?x @ rest"
      using clean_url_append [OF ne, of "replicate k CHR ''/''"] k u by (simp add: list_all_iff)
    then obtain us where "clean_url ?base = ?x @ us \<and> us @ replicate k CHR ''/'' = rest \<or>
        clean_url ?base @ us = ?x \<and> replicate k CHR ''/'' = us @ rest"
      by (auto simp only: append_eq_append_conv2)
    then show thesis
    proof
      assume "clean_url ?base @ us = ?x \<and> replicate k CHR ''/'' = us @ rest"
      then have x: "clean_url ?base @ us = ?x" and r: "replicate k CHR ''/'' = us @ rest" by blast+
      have "us = []"
      proof (rule ccontr)
        assume "us \<noteq> []"
        then have "last us \<in> set (replicate k CHR ''/'')" unfolding r by simp
        moreover have "last ?x = last us" using x \<open>us \<noteq> []\<close> by (metis last_appendR)
        ultimately show False using last by simp
      qed
      with x r that [of "[]"] show thesis by simp
    qed (use that in blast)
  qed
  have tc: "list_all (\<lambda>c. 32 < code c) t" "CHR ''?'' \<notin> set t" "CHR ''#'' \<notin> set t"
    using t by (auto simp: clean_path_def list_all_iff)
  have "clean_url (?base @ t) = before @ CHR '':'' # ''//'' @ netloc p @ w @ t"
    using clean_url_append [OF _ tc(1), of ?base] w(1) by simp
  moreover have "w @ t = [] \<or> delimiter (hd (w @ t))"
    using t w(2) n(2) by (cases w) (auto simp: clean_path_def delimiter_def)
  moreover have "set w \<subseteq> set base" using w(1) set_clean_url [of ?base] k
    by (metis Un_subset_iff order_trans set_append sup_ge1 append_Cons)
  then have "CHR ''?'' \<notin> set (w @ t)" "CHR ''#'' \<notin> set (w @ t)" using plain tc by auto
  ultimately have "urlsplit ok (?base @ t) =
      Inr \<lparr>scheme = lower before, netloc = netloc p, path = w @ t, url_query = [], fragment = []\<rparr>"
    using br by (subst urlsplit_form [OF _ b(1-3) n(1)]) auto
  with p(1) b(4) show ?thesis by auto
qed

lemma clean_path_endpoint: "clean_path (''/v'' @ str_int v @ ''/dns'') \<and> clean_path (''/v'' @ str_int v @ ''/info'')"
proof -
  have "list_all (\<lambda>c. 32 < code c \<and> c \<noteq> CHR ''?'' \<and> c \<noteq> CHR ''#'') (str_nat n)" for n
    using str_nat_decimal [of n] by (rule list.pred_mono_strong) (auto simp: is_decimal_def)
  then show ?thesis by (simp add: clean_path_def str_int_def)
qed

text \<open>
  The two endpoint URLs of an accepted base URL. If the base URL passes validation and has no
  question or number sign, then both endpoints have its scheme and its host, no query and no fragment,
  and a path that ends in the version and the endpoint name, whatever slashes the base URL ends with.
\<close>

lemma endpoint_urls:
  assumes "validate_base_url ok (base_url cfg) = Inr ()"
    and "CHR ''?'' \<notin> set (base_url cfg)" and "CHR ''#'' \<notin> set (base_url cfg)"
  shows "\<exists>p. urlsplit ok (base_url cfg) = Inr p \<and>
    (\<forall>(url, name) \<in> {(dns_url cfg, ''/dns''), (info_url cfg, ''/info'')}.
      \<exists>q w. urlsplit ok url = Inr q \<and> scheme q = scheme p \<and> netloc q = netloc p \<and>
        path q = w @ ''/v'' @ str_int (api_version cfg) @ name \<and> url_query q = [] \<and> fragment q = [])"
proof -
  have c: "clean_path (''/v'' @ str_int (api_version cfg) @ ''/dns'')"
    "clean_path (''/v'' @ str_int (api_version cfg) @ ''/info'')" using clean_path_endpoint by blast+
  from endpoint_url [OF assms c(1)] endpoint_url [OF assms c(2)] show ?thesis
    unfolding dns_url_def info_url_def by fastforce
qed

definition sample_relay :: relay_config where
  "sample_relay = \<lparr>base_url = ''https://relay.example/gw/'', api_version = 1, auth_token = Some ''t'',
     startup_check = ''require'', limits = default_relay_limits\<rparr>"

lemma endpoint_urls_witness:
  "\<exists>q w. urlsplit (\<lambda>_. True) (dns_url sample_relay) = Inr q \<and> netloc q = ''relay.example'' \<and> path q = w @ ''/v1/dns''"
proof -
  have v: "validate_base_url (\<lambda>_. True) (base_url sample_relay) = Inr ()"
    and f: "CHR ''?'' \<notin> set (base_url sample_relay)" "CHR ''#'' \<notin> set (base_url sample_relay)"
    and n: "urlsplit (\<lambda>_. True) (base_url sample_relay) =
      Inr \<lparr>scheme = ''https'', netloc = ''relay.example'', path = ''/gw/'', url_query = [], fragment = []\<rparr>"
    by code_simp+
  have "str_int (api_version sample_relay) = ''1''" by code_simp
  with endpoint_urls [OF v f] n show ?thesis by auto
qed

text \<open>
  A base URL that ends in a question mark passes validation, because its query is empty, but the
  endpoint built from it has the whole endpoint path in its query and an empty path.
\<close>

lemma question_mark_accepted:
  "validate_base_url ok ''http://h?'' = Inr () \<and>
   urlsplit ok (dns_url (sample_relay\<lparr>base_url := ''http://h?''\<rparr>)) =
     Inr \<lparr>scheme = ''http'', netloc = ''h'', path = [], url_query = ''/v1/dns'', fragment = []\<rparr>"
  by (rule conjI; code_simp)

end
