(* ===== verification/App_Config.thy ===== *)
theory App_Config
  imports Relay_Types
begin

text \<open>
  The configuration of \<^verbatim>\<open>config.py\<close>: the record \<open>Config\<close>, how it is built from the command line, whose
  parsed options are the record \<open>args\<close> with the defaults of \<^verbatim>\<open>main.py\<close>, and its validation.
\<close>

section \<open>Configuration and options\<close>

record config =
  cfg_listen_host :: string
  cfg_listen_port :: int
  cfg_max_inflight :: int
  cfg_metrics_host :: string
  cfg_metrics_port :: int
  cfg_upstream_transport :: string
  cfg_upstream_host :: string
  cfg_upstream_port :: int
  cfg_upstream_timeout_s :: time
  cfg_serve_stale_max_s :: int
  cfg_negative_ttl_s :: int
  cfg_cache_max_entries :: int
  cfg_tcp_pool_max_conns :: int
  cfg_tcp_pool_idle_timeout_s :: time
  cfg_udp_max_workers :: int
  cfg_verbose :: bool
  cfg_relay_base_url :: "string option"
  cfg_relay_api_version :: int
  cfg_relay_auth_token :: "string option"
  cfg_relay_startup_check :: string
  cfg_relay_max_items :: int
  cfg_relay_max_request_bytes :: int
  cfg_relay_per_item_max_wire_bytes :: int
  cfg_relay_max_response_bytes :: int
  cfg_refresh_enabled :: bool
  cfg_refresh_ahead_seconds :: int
  cfg_refresh_popularity_threshold :: int
  cfg_refresh_popularity_decay_seconds :: int
  cfg_refresh_tick_ms :: int
  cfg_refresh_batch_size :: int
  cfg_refresh_concurrency :: int
  cfg_refresh_queue_max :: int
  cfg_refresh_warmup_enabled :: bool
  cfg_refresh_warmup_file :: "string option"
  cfg_refresh_warmup_limit :: int

definition default_config :: config where
  "default_config =
     \<lparr>
      cfg_listen_host = ''127.0.0.1'', cfg_listen_port = 5353, cfg_max_inflight = 256,
      cfg_metrics_host = ''127.0.0.1'', cfg_metrics_port = 0, cfg_upstream_transport = ''udp'',
      cfg_upstream_host = ''1.1.1.1'', cfg_upstream_port = 53, cfg_upstream_timeout_s = 2,
      cfg_serve_stale_max_s = 300, cfg_negative_ttl_s = 60, cfg_cache_max_entries = 0,
      cfg_tcp_pool_max_conns = 4, cfg_tcp_pool_idle_timeout_s = 30, cfg_udp_max_workers = 32,
      cfg_verbose = False, cfg_relay_base_url = None, cfg_relay_api_version = 1, cfg_relay_auth_token = None,
      cfg_relay_startup_check = ''require'', cfg_relay_max_items = 32, cfg_relay_max_request_bytes = 65536,
      cfg_relay_per_item_max_wire_bytes = 4096, cfg_relay_max_response_bytes = 262144,
      cfg_refresh_enabled = False, cfg_refresh_ahead_seconds = 30, cfg_refresh_popularity_threshold = 5,
      cfg_refresh_popularity_decay_seconds = 0, cfg_refresh_tick_ms = 500, cfg_refresh_batch_size = 50,
      cfg_refresh_concurrency = 5, cfg_refresh_queue_max = 1024, cfg_refresh_warmup_enabled = False,
      cfg_refresh_warmup_file = None, cfg_refresh_warmup_limit = 200\<rparr>"

text \<open>The options of the command line as \<^verbatim>\<open>parse_args\<close> returns them.\<close>

record args =
  arg_listen_host :: string
  arg_listen_port :: int
  arg_max_inflight :: int
  arg_metrics_host :: string
  arg_metrics_port :: int
  arg_upstream_transport :: string
  arg_upstream_host :: string
  arg_upstream_port :: int
  arg_upstream_timeout :: time
  arg_serve_stale_max :: int
  arg_negative_ttl :: int
  arg_verbose :: bool
  arg_relay_base_url :: "string option"
  arg_relay_api_version :: int
  arg_relay_auth_token :: "string option"
  arg_relay_startup_check :: string
  arg_relay_max_items :: int
  arg_relay_max_request_bytes :: int
  arg_relay_per_item_max_wire_bytes :: int
  arg_relay_max_response_bytes :: int
  arg_refresh_enabled :: bool
  arg_refresh_ahead_seconds :: int
  arg_refresh_popularity_threshold :: int
  arg_refresh_popularity_decay_seconds :: int
  arg_refresh_tick_ms :: int
  arg_refresh_batch_size :: int
  arg_refresh_concurrency :: int
  arg_refresh_queue_max :: int
  arg_refresh_warmup_enabled :: bool
  arg_refresh_warmup_file :: "string option"
  arg_refresh_warmup_limit :: int

definition default_args :: args where
  "default_args =
     \<lparr>
      arg_listen_host = ''127.0.0.1'', arg_listen_port = 5353, arg_max_inflight = 256,
      arg_metrics_host = ''127.0.0.1'', arg_metrics_port = 0, arg_upstream_transport = ''udp'',
      arg_upstream_host = ''1.1.1.1'', arg_upstream_port = 53, arg_upstream_timeout = 2,
      arg_serve_stale_max = 300, arg_negative_ttl = 60, arg_verbose = False, arg_relay_base_url = None,
      arg_relay_api_version = 1, arg_relay_auth_token = None, arg_relay_startup_check = ''require'',
      arg_relay_max_items = 32, arg_relay_max_request_bytes = 65536, arg_relay_per_item_max_wire_bytes = 4096,
      arg_relay_max_response_bytes = 262144, arg_refresh_enabled = False, arg_refresh_ahead_seconds = 30,
      arg_refresh_popularity_threshold = 5, arg_refresh_popularity_decay_seconds = 0, arg_refresh_tick_ms = 500,
      arg_refresh_batch_size = 50, arg_refresh_concurrency = 5, arg_refresh_queue_max = 1024,
      arg_refresh_warmup_enabled = False, arg_refresh_warmup_file = None, arg_refresh_warmup_limit = 200\<rparr>"

definition build_config :: "args \<Rightarrow> config" where
  "build_config args =
     \<lparr>
      cfg_listen_host = arg_listen_host args, cfg_listen_port = arg_listen_port args,
      cfg_max_inflight = arg_max_inflight args, cfg_metrics_host = arg_metrics_host args,
      cfg_metrics_port = arg_metrics_port args, cfg_upstream_transport = arg_upstream_transport args,
      cfg_upstream_host = arg_upstream_host args, cfg_upstream_port = arg_upstream_port args,
      cfg_upstream_timeout_s = arg_upstream_timeout args, cfg_serve_stale_max_s = arg_serve_stale_max args,
      cfg_negative_ttl_s = arg_negative_ttl args, cfg_cache_max_entries = 0, cfg_tcp_pool_max_conns = 4,
      cfg_tcp_pool_idle_timeout_s = 30, cfg_udp_max_workers = 32, cfg_verbose = arg_verbose args,
      cfg_relay_base_url = arg_relay_base_url args, cfg_relay_api_version = arg_relay_api_version args,
      cfg_relay_auth_token = arg_relay_auth_token args, cfg_relay_startup_check = arg_relay_startup_check args,
      cfg_relay_max_items = arg_relay_max_items args,
      cfg_relay_max_request_bytes = arg_relay_max_request_bytes args,
      cfg_relay_per_item_max_wire_bytes = arg_relay_per_item_max_wire_bytes args,
      cfg_relay_max_response_bytes = arg_relay_max_response_bytes args,
      cfg_refresh_enabled = arg_refresh_enabled args, cfg_refresh_ahead_seconds = arg_refresh_ahead_seconds args,
      cfg_refresh_popularity_threshold = arg_refresh_popularity_threshold args,
      cfg_refresh_popularity_decay_seconds = arg_refresh_popularity_decay_seconds args,
      cfg_refresh_tick_ms = arg_refresh_tick_ms args, cfg_refresh_batch_size = arg_refresh_batch_size args,
      cfg_refresh_concurrency = arg_refresh_concurrency args, cfg_refresh_queue_max = arg_refresh_queue_max args,
      cfg_refresh_warmup_enabled = arg_refresh_warmup_enabled args,
      cfg_refresh_warmup_file = arg_refresh_warmup_file args,
      cfg_refresh_warmup_limit = arg_refresh_warmup_limit args\<rparr>"

section \<open>Validation\<close>

text \<open>Whether an optional text is given and not empty.\<close>

definition text_given :: "string option \<Rightarrow> bool" where
  "text_given v \<longleftrightarrow> (case v of None \<Rightarrow> False | Some s \<Rightarrow> s \<noteq> [])"

text \<open>A sequence of checks, each with the message of its ValueError; the first that fails raises.\<close>

fun require :: "(bool \<times> string) list \<Rightarrow> unit result" where
  "require [] = Inr ()"
| "require ((ok, message) # checks) = (if ok then require checks else Inl (ValueError message))"

definition basic_checks :: "config \<Rightarrow> (bool \<times> string) list" where
  "basic_checks c =
     [(strip (cfg_listen_host c) \<noteq> [], ''listen_host must be non-empty''),
      (strip (cfg_upstream_host c) \<noteq> [], ''upstream_host must be non-empty''),
      (strip (cfg_metrics_host c) \<noteq> [], ''metrics_host must be non-empty''),
      (\<not> (cfg_listen_port c < 1 \<or> cfg_listen_port c > 65535), ''listen_port must be between 1 and 65535''),
      (\<not> (cfg_upstream_port c < 1 \<or> cfg_upstream_port c > 65535), ''upstream_port must be between 1 and 65535''),
      (\<not> (cfg_metrics_port c \<noteq> 0 \<and> (cfg_metrics_port c < 1 \<or> cfg_metrics_port c > 65535)), ''metrics_port must be 0 or between 1 and 65535''),
      (cfg_upstream_transport c \<in> {''udp'', ''tcp'', ''relay''}, ''upstream_transport must be '' @ single ''udp'' @ '', '' @ single ''tcp'' @ '', or '' @ single ''relay'' @ ''''),
      (\<not> cfg_upstream_timeout_s c \<le> 0, ''upstream_timeout_s must be > 0''),
      (\<not> cfg_serve_stale_max_s c < 0, ''serve_stale_max_s must be >= 0''),
      (\<not> cfg_negative_ttl_s c < 0, ''negative_ttl_s must be >= 0''),
      (\<not> cfg_cache_max_entries c < 0, ''cache_max_entries must be >= 0''),
      (\<not> cfg_refresh_ahead_seconds c < 0, ''refresh_ahead_seconds must be >= 0''),
      (\<not> cfg_refresh_popularity_threshold c < 0, ''refresh_popularity_threshold must be >= 0''),
      (\<not> cfg_refresh_popularity_decay_seconds c < 0, ''refresh_popularity_decay_seconds must be >= 0''),
      (\<not> cfg_refresh_tick_ms c \<le> 0, ''refresh_tick_ms must be > 0''),
      (\<not> cfg_refresh_batch_size c \<le> 0, ''refresh_batch_size must be > 0''),
      (\<not> (cfg_refresh_enabled c \<and> cfg_refresh_concurrency c \<le> 0), ''refresh_concurrency must be >= 1 when refresh is enabled''),
      (\<not> cfg_refresh_concurrency c < 0, ''refresh_concurrency must be >= 0''),
      (\<not> cfg_refresh_queue_max c < 0, ''refresh_queue_max must be >= 0''),
      (\<not> (cfg_refresh_warmup_enabled c \<and> \<not> cfg_refresh_enabled c), ''Warmup requires refresh_enabled=true because warmup jobs are executed by refresh workers.''),
      (\<not> (cfg_refresh_warmup_enabled c \<and> \<not> text_given (cfg_refresh_warmup_file c)), ''refresh_warmup_file is required when warmup is enabled''),
      (\<not> (cfg_refresh_warmup_enabled c \<and> cfg_refresh_warmup_limit c \<le> 0), ''refresh_warmup_limit must be > 0 when warmup is enabled''),
      (\<not> cfg_max_inflight c < 1, ''max_inflight must be >= 1''),
      (\<not> cfg_udp_max_workers c < 1, ''udp_max_workers must be >= 1''),
      (\<not> cfg_tcp_pool_max_conns c < 0, ''tcp_pool_max_conns must be >= 0''),
      (\<not> cfg_tcp_pool_idle_timeout_s c \<le> 0, ''tcp_pool_idle_timeout_s must be > 0'')]"

definition relay_limits_of :: "config \<Rightarrow> relay_limits" where
  "relay_limits_of c =
     \<lparr>max_items = cfg_relay_max_items c, max_request_bytes = cfg_relay_max_request_bytes c,
      per_item_max_wire_bytes = cfg_relay_per_item_max_wire_bytes c,
      max_response_bytes = cfg_relay_max_response_bytes c\<rparr>"

definition after :: "unit result \<Rightarrow> unit result \<Rightarrow> unit result" where
  "after r r' = (case r of Inl x \<Rightarrow> Inl x | Inr _ \<Rightarrow> r')"

text \<open>The argument \<open>valid_netloc\<close> is the check of the host that \<^verbatim>\<open>urlsplit\<close> makes.\<close>

definition validate_config :: "(string \<Rightarrow> bool) \<Rightarrow> config \<Rightarrow> unit result" where
  "validate_config valid_netloc c =
     after (require (basic_checks c))
      (after
        (if text_given (cfg_relay_base_url c) then
           after (validate_base_url valid_netloc (the (cfg_relay_base_url c)))
             (after (validate_startup_check (cfg_relay_startup_check c)) (validate_limits (relay_limits_of c)))
         else Inr ())
        (if cfg_upstream_transport c = ''relay'' then
           require
             [(text_given (cfg_relay_base_url c), ''relay_base_url is required when upstream_transport=relay''),
              (\<not> cfg_relay_api_version c < 1, ''relay_api_version must be >= 1'')]
         else Inr ()))"

end
