(* ===== verification/Command_Line.thy ===== *)
theory Command_Line
  imports Py_Argparse App_Config
begin

text \<open>
  The command line of \<^verbatim>\<open>main.py\<close>: the table of its options as \<open>main\<close> declares them, with help added
  by \<^verbatim>\<open>argparse\<close>, and the parsing into the record \<open>args\<close>.
\<close>

definition main_options :: "args options" where
  "main_options =
     [(''-h'', Help), (''--help'', Help),
      (''--listen-host'', StoreText (\<lambda>v a. a\<lparr>arg_listen_host := v\<rparr>)),
      (''--listen-port'', StoreInt (\<lambda>v a. a\<lparr>arg_listen_port := v\<rparr>)),
      (''--max-inflight'', StoreInt (\<lambda>v a. a\<lparr>arg_max_inflight := v\<rparr>)),
      (''--metrics-host'', StoreText (\<lambda>v a. a\<lparr>arg_metrics_host := v\<rparr>)),
      (''--metrics-port'', StoreInt (\<lambda>v a. a\<lparr>arg_metrics_port := v\<rparr>)),
      (''--upstream-transport'', StoreChoice [''udp'', ''tcp'', ''relay''] (\<lambda>v a. a\<lparr>arg_upstream_transport := v\<rparr>)),
      (''--upstream-host'', StoreText (\<lambda>v a. a\<lparr>arg_upstream_host := v\<rparr>)),
      (''--upstream-port'', StoreInt (\<lambda>v a. a\<lparr>arg_upstream_port := v\<rparr>)),
      (''--upstream-timeout'', StoreFloat (\<lambda>v a. a\<lparr>arg_upstream_timeout := v\<rparr>)),
      (''--relay-base-url'', StoreText (\<lambda>v a. a\<lparr>arg_relay_base_url := Some v\<rparr>)),
      (''--relay-api-version'', StoreInt (\<lambda>v a. a\<lparr>arg_relay_api_version := v\<rparr>)),
      (''--relay-auth-token'', StoreText (\<lambda>v a. a\<lparr>arg_relay_auth_token := Some v\<rparr>)),
      (''--relay-startup-check'', StoreChoice [''require'', ''warn'', ''off''] (\<lambda>v a. a\<lparr>arg_relay_startup_check := v\<rparr>)),
      (''--relay-max-items'', StoreInt (\<lambda>v a. a\<lparr>arg_relay_max_items := v\<rparr>)),
      (''--relay-max-request-bytes'', StoreInt (\<lambda>v a. a\<lparr>arg_relay_max_request_bytes := v\<rparr>)),
      (''--relay-per-item-max-wire-bytes'', StoreInt (\<lambda>v a. a\<lparr>arg_relay_per_item_max_wire_bytes := v\<rparr>)),
      (''--relay-max-response-bytes'', StoreInt (\<lambda>v a. a\<lparr>arg_relay_max_response_bytes := v\<rparr>)),
      (''--serve-stale-max'', StoreInt (\<lambda>v a. a\<lparr>arg_serve_stale_max := v\<rparr>)),
      (''--negative-ttl'', StoreInt (\<lambda>v a. a\<lparr>arg_negative_ttl := v\<rparr>)),
      (''--refresh-enabled'', StoreTrue (\<lambda>a. a\<lparr>arg_refresh_enabled := True\<rparr>)),
      (''--refresh-ahead-seconds'', StoreInt (\<lambda>v a. a\<lparr>arg_refresh_ahead_seconds := v\<rparr>)),
      (''--refresh-popularity-threshold'', StoreInt (\<lambda>v a. a\<lparr>arg_refresh_popularity_threshold := v\<rparr>)),
      (''--refresh-popularity-decay-seconds'', StoreInt (\<lambda>v a. a\<lparr>arg_refresh_popularity_decay_seconds := v\<rparr>)),
      (''--refresh-tick-ms'', StoreInt (\<lambda>v a. a\<lparr>arg_refresh_tick_ms := v\<rparr>)),
      (''--refresh-batch-size'', StoreInt (\<lambda>v a. a\<lparr>arg_refresh_batch_size := v\<rparr>)),
      (''--refresh-concurrency'', StoreInt (\<lambda>v a. a\<lparr>arg_refresh_concurrency := v\<rparr>)),
      (''--refresh-queue-max'', StoreInt (\<lambda>v a. a\<lparr>arg_refresh_queue_max := v\<rparr>)),
      (''--refresh-warmup-enabled'', StoreTrue (\<lambda>a. a\<lparr>arg_refresh_warmup_enabled := True\<rparr>)),
      (''--refresh-warmup-file'', StoreText (\<lambda>v a. a\<lparr>arg_refresh_warmup_file := Some v\<rparr>)),
      (''--refresh-warmup-limit'', StoreInt (\<lambda>v a. a\<lparr>arg_refresh_warmup_limit := v\<rparr>)),
      (''-v'', StoreTrue (\<lambda>a. a\<lparr>arg_verbose := True\<rparr>)),
      (''--verbose'', StoreTrue (\<lambda>a. a\<lparr>arg_verbose := True\<rparr>))]"

definition parse_args :: "string list \<Rightarrow> args parsed" where
  "parse_args argv = parse_argv main_options None argv default_args"

section \<open>Round trip\<close>

text \<open>Given options written out, the timeout as the text \<open>t\<close>.\<close>

definition flag_setting :: "string \<Rightarrow> bool \<Rightarrow> setting list" where
  "flag_setting os b = (if b then [(os, None)] else [])"

definition text_setting :: "string \<Rightarrow> string option \<Rightarrow> setting list" where
  "text_setting os x = (case x of None \<Rightarrow> [] | Some v \<Rightarrow> [(os, Some v)])"

definition settings_of :: "args \<Rightarrow> string \<Rightarrow> setting list" where
  "settings_of a t =
     [
      (''--listen-host'', Some (arg_listen_host a)), (''--listen-port'', Some (str_int (arg_listen_port a))),
      (''--max-inflight'', Some (str_int (arg_max_inflight a))), (''--metrics-host'', Some (arg_metrics_host a)),
      (''--metrics-port'', Some (str_int (arg_metrics_port a))),
      (''--upstream-transport'', Some (arg_upstream_transport a)), (''--upstream-host'', Some (arg_upstream_host a)),
      (''--upstream-port'', Some (str_int (arg_upstream_port a))), (''--upstream-timeout'', Some t),
      (''--relay-api-version'', Some (str_int (arg_relay_api_version a))),
      (''--relay-startup-check'', Some (arg_relay_startup_check a)),
      (''--relay-max-items'', Some (str_int (arg_relay_max_items a))),
      (''--relay-max-request-bytes'', Some (str_int (arg_relay_max_request_bytes a))),
      (''--relay-per-item-max-wire-bytes'', Some (str_int (arg_relay_per_item_max_wire_bytes a))),
      (''--relay-max-response-bytes'', Some (str_int (arg_relay_max_response_bytes a))),
      (''--serve-stale-max'', Some (str_int (arg_serve_stale_max a))),
      (''--negative-ttl'', Some (str_int (arg_negative_ttl a))),
      (''--refresh-ahead-seconds'', Some (str_int (arg_refresh_ahead_seconds a))),
      (''--refresh-popularity-threshold'', Some (str_int (arg_refresh_popularity_threshold a))),
      (''--refresh-popularity-decay-seconds'', Some (str_int (arg_refresh_popularity_decay_seconds a))),
      (''--refresh-tick-ms'', Some (str_int (arg_refresh_tick_ms a))),
      (''--refresh-batch-size'', Some (str_int (arg_refresh_batch_size a))),
      (''--refresh-concurrency'', Some (str_int (arg_refresh_concurrency a))),
      (''--refresh-queue-max'', Some (str_int (arg_refresh_queue_max a))),
      (''--refresh-warmup-limit'', Some (str_int (arg_refresh_warmup_limit a)))] @
     text_setting ''--relay-base-url'' (arg_relay_base_url a) @
     text_setting ''--relay-auth-token'' (arg_relay_auth_token a) @
     flag_setting ''--refresh-enabled'' (arg_refresh_enabled a) @
     flag_setting ''--refresh-warmup-enabled'' (arg_refresh_warmup_enabled a) @
     text_setting ''--refresh-warmup-file'' (arg_refresh_warmup_file a) @
     flag_setting ''--verbose'' (arg_verbose a)"

definition command_line :: "args \<Rightarrow> string \<Rightarrow> string list" where
  "command_line a t = map render (settings_of a t)"

definition args_ints :: "args \<Rightarrow> int list" where
  "args_ints a =
     [
      arg_listen_port a, arg_max_inflight a, arg_metrics_port a, arg_upstream_port a, arg_relay_api_version a,
      arg_relay_max_items a, arg_relay_max_request_bytes a, arg_relay_per_item_max_wire_bytes a,
      arg_relay_max_response_bytes a, arg_serve_stale_max a, arg_negative_ttl a, arg_refresh_ahead_seconds a,
      arg_refresh_popularity_threshold a, arg_refresh_popularity_decay_seconds a, arg_refresh_tick_ms a,
      arg_refresh_batch_size a, arg_refresh_concurrency a, arg_refresh_queue_max a, arg_refresh_warmup_limit a]"

lemma main_options_ok: "options_ok main_options"
  by (simp add: options_ok_def main_options_def equals_def)

lemma main_lookup:
  "map_of main_options ''--listen-host'' = Some (StoreText (\<lambda>v a. a\<lparr>arg_listen_host := v\<rparr>))"
  "map_of main_options ''--listen-port'' = Some (StoreInt (\<lambda>v a. a\<lparr>arg_listen_port := v\<rparr>))"
  "map_of main_options ''--max-inflight'' = Some (StoreInt (\<lambda>v a. a\<lparr>arg_max_inflight := v\<rparr>))"
  "map_of main_options ''--metrics-host'' = Some (StoreText (\<lambda>v a. a\<lparr>arg_metrics_host := v\<rparr>))"
  "map_of main_options ''--metrics-port'' = Some (StoreInt (\<lambda>v a. a\<lparr>arg_metrics_port := v\<rparr>))"
  "map_of main_options ''--upstream-transport'' = Some (StoreChoice [''udp'', ''tcp'', ''relay''] (\<lambda>v a. a\<lparr>arg_upstream_transport := v\<rparr>))"
  "map_of main_options ''--upstream-host'' = Some (StoreText (\<lambda>v a. a\<lparr>arg_upstream_host := v\<rparr>))"
  "map_of main_options ''--upstream-port'' = Some (StoreInt (\<lambda>v a. a\<lparr>arg_upstream_port := v\<rparr>))"
  "map_of main_options ''--upstream-timeout'' = Some (StoreFloat (\<lambda>v a. a\<lparr>arg_upstream_timeout := v\<rparr>))"
  "map_of main_options ''--relay-base-url'' = Some (StoreText (\<lambda>v a. a\<lparr>arg_relay_base_url := Some v\<rparr>))"
  "map_of main_options ''--relay-api-version'' = Some (StoreInt (\<lambda>v a. a\<lparr>arg_relay_api_version := v\<rparr>))"
  "map_of main_options ''--relay-auth-token'' = Some (StoreText (\<lambda>v a. a\<lparr>arg_relay_auth_token := Some v\<rparr>))"
  "map_of main_options ''--relay-startup-check'' = Some (StoreChoice [''require'', ''warn'', ''off''] (\<lambda>v a. a\<lparr>arg_relay_startup_check := v\<rparr>))"
  "map_of main_options ''--relay-max-items'' = Some (StoreInt (\<lambda>v a. a\<lparr>arg_relay_max_items := v\<rparr>))"
  "map_of main_options ''--relay-max-request-bytes'' = Some (StoreInt (\<lambda>v a. a\<lparr>arg_relay_max_request_bytes := v\<rparr>))"
  "map_of main_options ''--relay-per-item-max-wire-bytes'' = Some (StoreInt (\<lambda>v a. a\<lparr>arg_relay_per_item_max_wire_bytes := v\<rparr>))"
  "map_of main_options ''--relay-max-response-bytes'' = Some (StoreInt (\<lambda>v a. a\<lparr>arg_relay_max_response_bytes := v\<rparr>))"
  "map_of main_options ''--serve-stale-max'' = Some (StoreInt (\<lambda>v a. a\<lparr>arg_serve_stale_max := v\<rparr>))"
  "map_of main_options ''--negative-ttl'' = Some (StoreInt (\<lambda>v a. a\<lparr>arg_negative_ttl := v\<rparr>))"
  "map_of main_options ''--refresh-enabled'' = Some (StoreTrue (\<lambda>a. a\<lparr>arg_refresh_enabled := True\<rparr>))"
  "map_of main_options ''--refresh-ahead-seconds'' = Some (StoreInt (\<lambda>v a. a\<lparr>arg_refresh_ahead_seconds := v\<rparr>))"
  "map_of main_options ''--refresh-popularity-threshold'' = Some (StoreInt (\<lambda>v a. a\<lparr>arg_refresh_popularity_threshold := v\<rparr>))"
  "map_of main_options ''--refresh-popularity-decay-seconds'' = Some (StoreInt (\<lambda>v a. a\<lparr>arg_refresh_popularity_decay_seconds := v\<rparr>))"
  "map_of main_options ''--refresh-tick-ms'' = Some (StoreInt (\<lambda>v a. a\<lparr>arg_refresh_tick_ms := v\<rparr>))"
  "map_of main_options ''--refresh-batch-size'' = Some (StoreInt (\<lambda>v a. a\<lparr>arg_refresh_batch_size := v\<rparr>))"
  "map_of main_options ''--refresh-concurrency'' = Some (StoreInt (\<lambda>v a. a\<lparr>arg_refresh_concurrency := v\<rparr>))"
  "map_of main_options ''--refresh-queue-max'' = Some (StoreInt (\<lambda>v a. a\<lparr>arg_refresh_queue_max := v\<rparr>))"
  "map_of main_options ''--refresh-warmup-enabled'' = Some (StoreTrue (\<lambda>a. a\<lparr>arg_refresh_warmup_enabled := True\<rparr>))"
  "map_of main_options ''--refresh-warmup-file'' = Some (StoreText (\<lambda>v a. a\<lparr>arg_refresh_warmup_file := Some v\<rparr>))"
  "map_of main_options ''--refresh-warmup-limit'' = Some (StoreInt (\<lambda>v a. a\<lparr>arg_refresh_warmup_limit := v\<rparr>))"
  "map_of main_options ''-v'' = Some (StoreTrue (\<lambda>a. a\<lparr>arg_verbose := True\<rparr>))"
  "map_of main_options ''--verbose'' = Some (StoreTrue (\<lambda>a. a\<lparr>arg_verbose := True\<rparr>))"
  by (simp_all add: main_options_def)

lemma settings_ok: "list_all (setting_ok main_options) (settings_of a t)"
  by (simp add: settings_of_def flag_setting_def text_setting_def setting_ok_def main_lookup is_long_def equals_def
      split: option.split)

lemma run_actions_append:
  "run_actions (xs @ ys) ns = (case run_actions xs ns of Parsed ns' \<Rightarrow> run_actions ys ns' | r \<Rightarrow> r)"
  by (induction xs ns rule: run_actions.induct) (auto split: parsed.split)

text \<open>The options that are always written out, and those that are written only if they are set.\<close>

lemma flag_action:
  "run_actions (map (setting_action opts) (flag_setting os b)) ns =
     (if b then apply_action (the (map_of opts os)) [] ns else Parsed ns)"
  by (simp add: flag_setting_def setting_action_def split: parsed.split)

lemma text_action:
  "run_actions (map (setting_action opts) (text_setting os x)) ns =
     (case x of None \<Rightarrow> Parsed ns | Some v \<Rightarrow> apply_action (the (map_of opts os)) v ns)"
  by (simp add: text_setting_def setting_action_def split: option.split parsed.split)

lemma optional_settings:
  "arg_relay_base_url ns = None \<Longrightarrow> run_actions (map (setting_action main_options) (text_setting ''--relay-base-url'' x0)) ns = Parsed (ns\<lparr>arg_relay_base_url := x0\<rparr>)"
  "arg_relay_auth_token ns = None \<Longrightarrow> run_actions (map (setting_action main_options) (text_setting ''--relay-auth-token'' x1)) ns = Parsed (ns\<lparr>arg_relay_auth_token := x1\<rparr>)"
  "\<not> arg_refresh_enabled ns \<Longrightarrow> run_actions (map (setting_action main_options) (flag_setting ''--refresh-enabled'' x2)) ns = Parsed (ns\<lparr>arg_refresh_enabled := x2\<rparr>)"
  "\<not> arg_refresh_warmup_enabled ns \<Longrightarrow> run_actions (map (setting_action main_options) (flag_setting ''--refresh-warmup-enabled'' x3)) ns = Parsed (ns\<lparr>arg_refresh_warmup_enabled := x3\<rparr>)"
  "arg_refresh_warmup_file ns = None \<Longrightarrow> run_actions (map (setting_action main_options) (text_setting ''--refresh-warmup-file'' x4)) ns = Parsed (ns\<lparr>arg_refresh_warmup_file := x4\<rparr>)"
  "\<not> arg_verbose ns \<Longrightarrow> run_actions (map (setting_action main_options) (flag_setting ''--verbose'' x5)) ns = Parsed (ns\<lparr>arg_verbose := x5\<rparr>)"
  by (cases ns; simp add: flag_action text_action main_lookup split: option.split)+

text \<open>
  C25. Every combination of options can be given on the command line: with each value attached to its
  option, the options are read back exactly, whatever characters the values contain.
\<close>

theorem command_line_roundtrip:
  assumes "py_float t = Real (arg_upstream_timeout a)" and "list_all (\<lambda>i. \<bar>i\<bar> < 10 ^ int_max_str_digits) (args_ints a)"
    and "arg_upstream_transport a \<in> {''udp'', ''tcp'', ''relay''}"
    and "arg_relay_startup_check a \<in> {''require'', ''warn'', ''off''}"
  shows "parse_args (command_line a t) = Parsed a"
proof -
  have i: "list_all (\<lambda>i. py_int (str_int i) = Some i) (args_ints a)"
    using assms(2) py_int_str_int by (simp add: list_all_iff)
  have "parse_args (command_line a t) = run_actions (map (setting_action main_options) (settings_of a t)) default_args"
    unfolding parse_args_def command_line_def by (rule parse_settings [OF main_options_ok settings_ok])
  also have "\<dots> = Parsed a"
    using i assms
    by (simp add: settings_of_def setting_action_def main_lookup args_ints_def default_args_def run_actions_append optional_settings)
  finally show ?thesis .
qed

definition sample_args :: args where
  "sample_args = default_args\<lparr>arg_listen_port := 53, arg_upstream_transport := ''relay'', arg_relay_base_url := Some ''https://-=.example'',
     arg_negative_ttl := -5, arg_verbose := True\<rparr>"

lemma sample_numbers:
  shows "py_float ''2.0'' = Real 2" and "list_all (\<lambda>i. \<bar>i\<bar> < 10 ^ int_max_str_digits) (args_ints sample_args)"
proof -
  have "is_decimal (CHR ''2'')" "is_decimal (CHR ''0'')" "\<not> number_space (CHR ''2'')" "\<not> number_space (CHR ''0'')"
    by (simp_all add: is_decimal_def number_space_def)
  then show "py_float ''2.0'' = Real 2"
    by (simp add: py_float_def trim_def rstrip_by_def split_sign_def decimal_float_def split_at_def digits_or_empty_def
        digits_def exponent_def scale_def decimal_value_def lower_def lower_char_def)
  have "(10 :: int) ^ 6 \<le> 10 ^ int_max_str_digits"
    unfolding int_max_str_digits_def by (rule power_increasing) simp_all
  then show "list_all (\<lambda>i. \<bar>i\<bar> < 10 ^ int_max_str_digits) (args_ints sample_args)"
    by (simp add: sample_args_def args_ints_def default_args_def)
qed

lemma command_line_roundtrip_witness: "parse_args (command_line sample_args ''2.0'') = Parsed sample_args"
  by (rule command_line_roundtrip [OF _ sample_numbers(2)])
    (use sample_numbers(1) in \<open>simp_all add: sample_args_def default_args_def\<close>)

section \<open>What parsing guarantees\<close>

lemma keepsI:
  "keeps P Help"
  "(\<And>v ns. P ns \<Longrightarrow> P (f v ns)) \<Longrightarrow> keeps P (StoreText f)"
  "(\<And>ns. P ns \<Longrightarrow> P (g ns)) \<Longrightarrow> keeps P (StoreTrue g)"
  "(\<And>v ns. P ns \<Longrightarrow> P (h v ns)) \<Longrightarrow> keeps P (StoreInt h)"
  "(\<And>v ns. P ns \<Longrightarrow> P (k v ns)) \<Longrightarrow> keeps P (StoreFloat k)"
  "(\<And>v ns. v \<in> set cs \<Longrightarrow> P ns \<Longrightarrow> P (l v ns)) \<Longrightarrow> keeps P (StoreChoice cs l)"
  by (auto simp: keeps_def split: option.splits float_value.splits if_splits)

definition choices_ok :: "args \<Rightarrow> bool" where
  "choices_ok a \<longleftrightarrow> arg_upstream_transport a \<in> {''udp'', ''tcp'', ''relay''} \<and> arg_relay_startup_check a \<in> {''require'', ''warn'', ''off''}"

lemma main_options_keep: "list_all (\<lambda>(os, x). keeps choices_ok x) main_options"
  unfolding main_options_def list.pred_inject prod.case
  by (intro conjI TrueI keepsI; simp add: choices_ok_def)

text \<open>
  However the command line was written, with abbreviations, values given separately, repeated or
  joined options: if it is accepted at all, the transport and the mode of the startup check are among the
  choices, so the corresponding checks of the validation never fail; and no options give the defaults.
\<close>

lemma parsed_choices:
  "parse_args [] = Parsed default_args \<and>
   (parse_args argv = Parsed a \<longrightarrow>
      arg_upstream_transport a \<in> {''udp'', ''tcp'', ''relay''} \<and> arg_relay_startup_check a \<in> {''require'', ''warn'', ''off''})"
proof -
  have "\<forall>(os, x) \<in> set main_options. keeps choices_ok x" using main_options_keep by (simp add: list_all_iff)
  moreover have "choices_ok default_args" by (simp add: choices_ok_def default_args_def)
  ultimately have "parse_args argv = Parsed a \<Longrightarrow> choices_ok a" unfolding parse_args_def by (rule parse_argv_keeps)
  then show ?thesis by (simp add: parse_args_def parse_argv_def choices_ok_def)
qed

section \<open>Logging\<close>

datatype log_level = DEBUG | INFO

definition setup_logging :: "bool \<Rightarrow> log_level" where
  "setup_logging verbose = (if verbose then DEBUG else INFO)"

end
