(* ===== verification/Server_Run.thy ===== *)
theory Server_Run
  imports Prelude
begin

text \<open>
  The life of one server task: \<open>run\<close> and \<open>stop\<close> of \<open>UdpDnsServer\<close>, \<open>TcpDnsServer\<close> and \<open>HttpMetricsServer\<close> in
  \<^verbatim>\<open>dns/server.py\<close>, which differ in two ways only: the HTTP server has no request tasks to cancel, and the
  UDP server does not wait for its transport to close. What cancelling the request tasks does is in the
  theory of both servers in front of the handler.
\<close>

section \<open>State\<close>

datatype server = UdpServer | TcpServer | HttpServer

text \<open>Creating the endpoint, waiting for the stop event, waiting for the closed endpoint, ended.\<close>

datatype run_phase = Binding | Serving | Draining "unit result" | Ended "unit result"

datatype endpoint = Absent | Open | Closed

record server_run =
  sv_kind :: server
  sv_ready :: bool
  sv_stop :: bool
  sv_endpoint :: endpoint
  sv_cancelled :: bool
  sv_phase :: run_phase

definition server_init :: "server \<Rightarrow> server_run" where
  "server_init k =
     \<lparr>sv_kind = k, sv_ready = False, sv_stop = False, sv_endpoint = Absent, sv_cancelled = False, sv_phase = Binding\<rparr>"

section \<open>Operations\<close>

definition close_endpoint :: "server_run \<Rightarrow> server_run" where
  "close_endpoint s = (if sv_endpoint s = Absent then s else s\<lparr>sv_endpoint := Closed\<rparr>)"

text \<open>
  The \<open>finally\<close> block of \<open>run\<close>, entered with the outcome \<open>r\<close> of waiting for the stop event.
  \<open>sv_cancelled\<close> records that \<open>_cancel_tasks\<close> was called.
\<close>

definition run_finally :: "unit result \<Rightarrow> server_run \<Rightarrow> server_run" where
  "run_finally r s =
     close_endpoint (s\<lparr>sv_cancelled := (sv_cancelled s \<or> sv_kind s \<noteq> HttpServer),
       sv_phase := (if sv_kind s = UdpServer then Ended r else Draining r)\<rparr>)"

text \<open>
  \<open>run\<close> after the attempt to create the endpoint. Waiting for an event that is set returns at once, so a
  server that was stopped earlier closes again immediately.
\<close>

definition run_bound :: "unit result \<Rightarrow> server_run \<Rightarrow> server_run" where
  "run_bound bound s =
     (case bound of
        Inl x \<Rightarrow> s\<lparr>sv_phase := Ended (Inl x)\<rparr>
      | Inr _ \<Rightarrow>
          (let s' = s\<lparr>sv_endpoint := Open, sv_ready := True\<rparr>
           in if sv_stop s then run_finally (Inr ()) s' else s'\<lparr>sv_phase := Serving\<rparr>))"

definition server_stop :: "server_run \<Rightarrow> server_run" where
  "server_stop s = close_endpoint (s\<lparr>sv_stop := True\<rparr>)"

text \<open>Cancelling the server task.\<close>

definition server_cancel :: "server_run \<Rightarrow> server_run" where
  "server_cancel s =
     (case sv_phase s of
        Binding \<Rightarrow> s\<lparr>sv_phase := Ended (Inl CancelledError)\<rparr>
      | Serving \<Rightarrow> run_finally (Inl CancelledError) s
      | Draining _ \<Rightarrow> s\<lparr>sv_phase := Ended (Inl CancelledError)\<rparr>
      | Ended _ \<Rightarrow> s)"

text \<open>What the task does next by itself, where \<open>bound\<close> is the outcome of creating the endpoint.\<close>

definition run_next :: "unit result \<Rightarrow> server_run \<Rightarrow> server_run" where
  "run_next bound s =
     (case sv_phase s of
        Binding \<Rightarrow> run_bound bound s
      | Serving \<Rightarrow> if sv_stop s then run_finally (Inr ()) s else s
      | Draining r \<Rightarrow> s\<lparr>sv_phase := Ended r\<rparr>
      | Ended _ \<Rightarrow> s)"

text \<open>The steps of a server; an exception while it waits for the endpoint to close replaces the outcome.\<close>

inductive server_step :: "server_run \<Rightarrow> server_run \<Rightarrow> bool" where
  own: "server_step s (run_next bound s)"
| stop: "server_step s (server_stop s)"
| cancel: "server_step s (server_cancel s)"
| drain_failed: "sv_phase s = Draining r \<Longrightarrow> server_step s (s\<lparr>sv_phase := Ended (Inl x)\<rparr>)"

text \<open>\<open>wait_ready\<close> of \<open>_run\<close>: nothing yet, or the outcome with which it returns.\<close>

definition wait_ready :: "server_run \<Rightarrow> unit result option" where
  "wait_ready s =
     (case sv_phase s of
        Ended r \<Rightarrow> Some r
      | _ \<Rightarrow> if sv_ready s then Some (Inr ()) else None)"

text \<open>What the shutdown of \<open>_run\<close> does to a server: stop it, cancel its task unless it has ended, and await it.\<close>

definition shut_server :: "unit result \<Rightarrow> server_run \<Rightarrow> server_run" where
  "shut_server bound s = (let s' = server_stop s in case sv_phase s' of Ended _ \<Rightarrow> s' | _ \<Rightarrow> run_next bound (server_cancel s'))"

section \<open>Invariant\<close>

definition server_ok :: "server_run \<Rightarrow> bool" where
  "server_ok s \<longleftrightarrow>
     (sv_ready s \<longleftrightarrow> sv_endpoint s \<noteq> Absent) \<and> (sv_stop s \<longrightarrow> sv_endpoint s \<noteq> Open) \<and>
     (sv_cancelled s \<longrightarrow> sv_endpoint s = Closed) \<and>
     (case sv_phase s of
        Binding \<Rightarrow> \<not> sv_ready s
      | Serving \<Rightarrow> sv_ready s \<and> \<not> sv_cancelled s
      | _ \<Rightarrow> sv_endpoint s \<noteq> Open \<and> (sv_ready s \<and> sv_kind s \<noteq> HttpServer \<longrightarrow> sv_cancelled s))"

lemma server_ok_init [simp]: "server_ok (server_init k)"
  by (simp add: server_ok_def server_init_def)

lemma run_finally_ok: "sv_ready s \<Longrightarrow> sv_endpoint s \<noteq> Absent \<Longrightarrow> server_ok (run_finally r s)"
  by (simp add: server_ok_def run_finally_def close_endpoint_def)

lemma run_finally_serving: "server_ok s \<Longrightarrow> sv_phase s = Serving \<Longrightarrow> server_ok (run_finally r s)"
  by (rule run_finally_ok) (auto simp: server_ok_def)

lemma run_bound_ok:
  assumes "server_ok s" and "sv_phase s = Binding" shows "server_ok (run_bound b s)"
proof (cases b)
  case (Inr u)
  then show ?thesis using assms
    by (cases "sv_stop s") (simp_all add: run_bound_def Let_def run_finally_ok, auto simp: server_ok_def)
qed (use assms in \<open>auto simp: run_bound_def server_ok_def\<close>)

lemma run_next_ok: "server_ok s \<Longrightarrow> server_ok (run_next b s)"
  by (cases "sv_phase s") (simp_all add: run_next_def run_bound_ok run_finally_serving, simp add: server_ok_def)

lemma server_cancel_ok: "server_ok s \<Longrightarrow> server_ok (server_cancel s)"
  by (cases "sv_phase s") (simp_all add: server_cancel_def run_finally_serving, auto simp: server_ok_def)

lemma server_stop_ok: "server_ok s \<Longrightarrow> server_ok (server_stop s)"
  by (cases "sv_endpoint s"; cases "sv_phase s") (auto simp: server_ok_def server_stop_def close_endpoint_def)

lemma server_ok_step: "server_step s s' \<Longrightarrow> server_ok s \<Longrightarrow> server_ok s'"
  by (induction rule: server_step.induct)
    (simp_all add: run_next_ok server_cancel_ok server_stop_ok, simp add: server_ok_def)

lemma server_step_kind: "server_step s s' \<Longrightarrow> sv_kind s' = sv_kind s"
  by (induction rule: server_step.induct)
    (simp_all add: run_next_def run_bound_def run_finally_def server_cancel_def server_stop_def close_endpoint_def Let_def
      split: sum.split run_phase.split)

lemma server_reach_ok: "server_step\<^sup>*\<^sup>* (server_init k) s \<Longrightarrow> server_ok s \<and> sv_kind s = k"
proof (induction rule: rtranclp_induct)
  case base
  then show ?case by (simp add: server_init_def server_ok_def)
qed (simp add: server_ok_step server_step_kind)

section \<open>Properties\<close>

lemma stopped_ends:
  assumes "sv_stop s" shows "\<exists>r. sv_phase (run_next b (run_next b s)) = Ended r"
  using assms
  by (cases "sv_phase s"; cases "sv_kind s = UdpServer")
    (simp_all add: run_next_def run_bound_def run_finally_def close_endpoint_def Let_def split: sum.split)

lemma shut_server_ends:
  assumes "server_ok s" shows "sv_endpoint (shut_server b s) \<noteq> Open \<and> (\<exists>r. sv_phase (shut_server b s) = Ended r)"
proof -
  have "\<exists>r. sv_phase (shut_server b s) = Ended r"
    by (cases "sv_phase s"; cases "sv_kind s = UdpServer")
      (simp_all add: shut_server_def server_stop_def server_cancel_def run_next_def run_finally_def close_endpoint_def Let_def)
  moreover have "server_ok (shut_server b s)"
    using assms by (simp add: shut_server_def Let_def server_stop_ok server_cancel_ok run_next_ok split: run_phase.split)
  ultimately show ?thesis by (auto simp: server_ok_def)
qed

text \<open>
  C31. A server that has ended, however that came about (it could not create its endpoint, it was stopped
  before, while or after it did, its task was cancelled, or waiting for the endpoint to close failed),
  has not left its endpoint open, and has called \<open>_cancel_tasks\<close> if it handles requests in tasks and ever
  had an endpoint (a connection that is still served may create a request task after that). Once
  \<open>stop\<close> was called, the endpoint is not open, and the task ends with its next two steps; the shutdown
  of the program ends it from any state. A server reports that it is ready exactly if it got its endpoint.
\<close>

theorem server_lifecycle:
  assumes "server_step\<^sup>*\<^sup>* (server_init k) s"
  shows "(sv_ready s \<longleftrightarrow> sv_endpoint s \<noteq> Absent) \<and>
    (\<forall>r. sv_phase s = Ended r \<longrightarrow> sv_endpoint s \<noteq> Open \<and> (sv_ready s \<and> k \<noteq> HttpServer \<longrightarrow> sv_cancelled s)) \<and>
    (sv_stop s \<longrightarrow> sv_endpoint s \<noteq> Open \<and> (\<exists>r. sv_phase (run_next b (run_next b s)) = Ended r)) \<and>
    sv_endpoint (shut_server b s) \<noteq> Open \<and> (\<exists>r. sv_phase (shut_server b s) = Ended r) \<and>
    (\<forall>r. wait_ready s = Some r \<and> \<not> sv_ready s \<longrightarrow> sv_phase s = Ended r)"
proof -
  have ok: "server_ok s" "sv_kind s = k" using server_reach_ok [OF assms] by auto
  then show ?thesis using stopped_ends [of s b] shut_server_ends [OF ok(1), of b]
    by (auto simp: server_ok_def wait_ready_def split: run_phase.splits)
qed

lemma server_lifecycle_witness:
  "let s = server_stop (run_next (Inr ()) (server_init TcpServer)) in
     sv_endpoint s = Closed \<and> (\<exists>r. sv_phase (run_next (Inr ()) (run_next (Inr ()) s)) = Ended r)"
proof -
  let ?s = "server_stop (run_next (Inr ()) (server_init TcpServer))"
  have "server_step\<^sup>*\<^sup>* (server_init TcpServer) ?s"
    using own [of "server_init TcpServer" "Inr ()"] stop by (meson converse_rtranclp_into_rtranclp rtranclp.rtrancl_refl)
  moreover have "sv_stop ?s" "sv_endpoint ?s = Closed"
    by (simp_all add: server_stop_def close_endpoint_def run_next_def run_bound_def server_init_def)
  ultimately show ?thesis using server_lifecycle [of TcpServer ?s "Inr ()"] by (simp add: Let_def)
qed

end
