(* ===== verification/Dnslib.thy ===== *)
theory Dnslib
  imports Prelude
begin

text \<open>
  The interface to the third-party package \<^verbatim>\<open>dnslib\<close>, whose code is not part of the
  repository. The attributes the resolver reads or writes are record fields; everything else a
  message or a resource record carries is the opaque field \<open>hdr_rest\<close> or \<open>rr_data\<close>. The functions
  and tables of the package are the fields of the record \<open>dnslib\<close>, an argument of every definition
  that calls them: nothing is assumed about them here, and a property that relies on documented
  behaviour of one of them names it as a hypothesis.
\<close>

text \<open>
  A resource record. \<open>rr_ttl\<close> is \<open>None\<close> for an object without the attribute \<^verbatim>\<open>ttl\<close>;
  \<open>rr_minttl\<close> and \<open>rr_times\<close> are the attributes \<^verbatim>\<open>minttl\<close> and \<^verbatim>\<open>times\<close> of its rdata,
  the latter only when it is a list or a tuple.
\<close>

record rr =
  rr_type :: "int option"
  rr_ttl :: "int option"
  rr_minttl :: "int option"
  rr_times :: "int list option"
  rr_data :: bytes

record question =
  q_name :: string
  q_type :: int
  q_class :: int

record dns_record =
  hdr_id :: int
  hdr_tc :: int
  hdr_rcode :: int
  hdr_rest :: bytes
  questions :: "question list"
  rrs :: "rr list"
  auth :: "rr list"
  ar :: "rr list"

text \<open>
  \<open>parse\<close> is \<^verbatim>\<open>DNSRecord.parse\<close>, \<open>pack\<close> the method of that name, \<open>reply\<close> the method
  \<^verbatim>\<open>reply()\<close> of a request, \<open>mk_question\<close> is \<^verbatim>\<open>DNSRecord.question\<close>; \<open>qtype_name\<close> and
  \<open>class_name\<close> are the subscripts \<^verbatim>\<open>QTYPE[i]\<close> and \<^verbatim>\<open>CLASS[i]\<close>, \<open>qtype_known\<close> is
  membership in \<^verbatim>\<open>QTYPE.forward\<close> and \<open>qtype_reverse\<close> is \<^verbatim>\<open>QTYPE.reverse.get\<close>. The last
  four are the constants \<^verbatim>\<open>RCODE.NOERROR\<close>, \<^verbatim>\<open>RCODE.FORMERR\<close>, \<^verbatim>\<open>RCODE.SERVFAIL\<close>
  and \<^verbatim>\<open>CLASS.IN\<close>.
\<close>

record dnslib =
  parse :: "bytes \<Rightarrow> dns_record result"
  pack :: "dns_record \<Rightarrow> bytes result"
  reply :: "dns_record \<Rightarrow> dns_record"
  mk_question :: "string \<Rightarrow> string \<Rightarrow> string \<Rightarrow> dns_record result"
  qtype_name :: "int \<Rightarrow> string result"
  class_name :: "int \<Rightarrow> string result"
  qtype_known :: "int \<Rightarrow> bool"
  qtype_reverse :: "string \<Rightarrow> int option"
  NOERROR :: int
  FORMERR :: int
  SERVFAIL :: int
  CLASS_IN :: int

section \<open>A concrete instance\<close>

text \<open>
  A small instance of the interface, at which the hypotheses of the properties are shown to hold.
  A message is encoded as its id, its truncation bit and its response code, one byte each, followed
  by one byte per answer record; the names of the types A and AAAA are known.
\<close>

definition sample_rr :: "int \<Rightarrow> rr" where
  "sample_rr t = \<lparr>rr_type = Some 1, rr_ttl = Some t, rr_minttl = None, rr_times = None, rr_data = []\<rparr>"

definition sample_msg :: "int \<Rightarrow> int \<Rightarrow> rr list \<Rightarrow> dns_record" where
  "sample_msg i rc as =
     \<lparr>hdr_id = i, hdr_tc = 0, hdr_rcode = rc, hdr_rest = [],
      questions = [\<lparr>q_name = ''Example.com.'', q_type = 1, q_class = 1\<rparr>],
      rrs = as, auth = [], ar = []\<rparr>"

definition sample_parse :: "bytes \<Rightarrow> dns_record result" where
  "sample_parse w =
     (case w of
        i # tc # rc # as \<Rightarrow>
          Inr ((sample_msg (uint i) (uint rc) (map (\<lambda>b. sample_rr (uint b)) as))\<lparr>hdr_tc := uint tc\<rparr>)
      | _ \<Rightarrow> Inl OtherError)"

definition sample_pack :: "dns_record \<Rightarrow> bytes result" where
  "sample_pack m =
     Inr (word_of_int (hdr_id m) # word_of_int (hdr_tc m) # word_of_int (hdr_rcode m) #
       map (\<lambda>r. case rr_ttl r of Some t \<Rightarrow> word_of_int t | None \<Rightarrow> 0) (rrs m))"

definition sample_lib :: dnslib where
  "sample_lib =
     \<lparr>parse = sample_parse, pack = sample_pack,
      reply = (\<lambda>q. (sample_msg (hdr_id q) 0 [])\<lparr>questions := questions q\<rparr>),
      mk_question = (\<lambda>n t c. Inr ((sample_msg 7 0 [])\<lparr>questions := [\<lparr>q_name = n, q_type = 1, q_class = 1\<rparr>]\<rparr>)),
      qtype_name = (\<lambda>i. if i = 1 then Inr ''A'' else if i = 28 then Inr ''AAAA'' else Inl KeyError),
      class_name = (\<lambda>i. if i = 1 then Inr ''IN'' else Inl KeyError),
      qtype_known = (\<lambda>i. i = 1 \<or> i = 28),
      qtype_reverse = (\<lambda>s. if s = ''A'' then Some 1 else if s = ''AAAA'' then Some 28 else None),
      NOERROR = 0, FORMERR = 1, SERVFAIL = 2, CLASS_IN = 1\<rparr>"

lemma sample_lib_simps [simp]:
  "parse sample_lib = sample_parse"
  "pack sample_lib = sample_pack"
  "NOERROR sample_lib = 0" "FORMERR sample_lib = 1" "SERVFAIL sample_lib = 2" "CLASS_IN sample_lib = 1"
  by (simp_all add: sample_lib_def)

end
