(* ===== verification/Metrics.thy ===== *)
theory Metrics
  imports Prelude
begin

text \<open>
  The counters of \<^verbatim>\<open>metrics.py\<close>. A \<open>Metrics\<close> object is its dictionary of counters; the
  lock that guards it only serialises the three methods, each of which is one step here. Components
  hold an optional \<open>Metrics\<close> object and write \<^verbatim>\<open>if self.metrics: self.metrics.inc(...)\<close>,
  which is the function \<open>inc\<close> on \<open>metrics option\<close>.
\<close>

section \<open>Counters\<close>

type_synonym metrics = "(string, int) dict"

definition metrics_init :: metrics where
  "metrics_init = []"

definition metrics_inc :: "string \<Rightarrow> int \<Rightarrow> metrics \<Rightarrow> metrics" where
  "metrics_inc key n m = dict_set key (dict_get_default m key 0 + n) m"

definition metrics_set :: "string \<Rightarrow> int \<Rightarrow> metrics \<Rightarrow> metrics" where
  "metrics_set key v m = dict_set key v m"

definition snapshot :: "metrics \<Rightarrow> metrics" where
  "snapshot m = m"

abbreviation metric :: "metrics \<Rightarrow> string \<Rightarrow> int" where
  "metric m key \<equiv> dict_get_default m key 0"

text \<open>Guarded updates through an optional \<open>Metrics\<close> object, and the value a reader sees.\<close>

definition inc_by :: "string \<Rightarrow> int \<Rightarrow> metrics option \<Rightarrow> metrics option" where
  "inc_by key n M = map_option (metrics_inc key n) M"

definition inc :: "string \<Rightarrow> metrics option \<Rightarrow> metrics option" where
  "inc key M = inc_by key 1 M"

definition gauge :: "string \<Rightarrow> int \<Rightarrow> metrics option \<Rightarrow> metrics option" where
  "gauge key v M = map_option (metrics_set key v) M"

definition mval :: "metrics option \<Rightarrow> string \<Rightarrow> int" where
  "mval M key = (case M of None \<Rightarrow> 0 | Some m \<Rightarrow> metric m key)"

section \<open>The counter interface\<close>

text \<open>
  What the components rely on: an increment changes its own counter by its amount and no other.
  The lemmas of this locale are about sequences of increments.
\<close>

locale counters =
  fixes incr :: "string \<Rightarrow> int \<Rightarrow> 'm \<Rightarrow> 'm"
    and val :: "'m \<Rightarrow> string \<Rightarrow> int"
  assumes val_incr: "val (incr k n m) k' = (if k' = k then val m k' + n else val m k')"
begin

lemma val_fold_incr:
  "val (fold (\<lambda>k. incr k 1) ks m) k = val m k + int (count_list ks k)"
  by (induction ks arbitrary: m) (auto simp: val_incr)

lemma fold_incr_perm:
  assumes "\<And>k. count_list ks k = count_list ks' k"
  shows "val (fold (\<lambda>k. incr k 1) ks m) k = val (fold (\<lambda>k. incr k 1) ks' m) k"
  using assms by (simp add: val_fold_incr)

lemma fold_incr_mono: "val m k \<le> val (fold (\<lambda>k. incr k 1) ks m) k"
  by (simp add: val_fold_incr)

end

lemma metric_inc [metric_simps]:
  "metric (metrics_inc k n m) k' = (if k' = k then metric m k' + n else metric m k')"
  by (simp add: metrics_inc_def dict_get_default_def)

interpretation mc: counters metrics_inc metric
  by unfold_locales (rule metric_inc)

text \<open>Whether a component has a \<open>Metrics\<close> object at all; no operation changes that.\<close>

definition metered :: "metrics option \<Rightarrow> bool" where
  "metered M \<longleftrightarrow> M \<noteq> None"

lemma metered_Some [simp]: "metered (Some m)" and metered_None [simp]: "\<not> metered None"
  by (simp_all add: metered_def)

lemma metered_inc_by [simp]: "metered (inc_by k n M) = metered M"
  by (simp add: metered_def inc_by_def)

lemma metered_inc [simp]: "metered (inc k M) = metered M"
  by (simp add: inc_def)

lemma metered_gauge [simp]: "metered (gauge k v M) = metered M"
  by (simp add: metered_def gauge_def)

lemma inc_None [simp]: "inc k None = None" and gauge_None [simp]: "gauge k v None = None"
  and inc_by_None [simp]: "inc_by k n None = None"
  by (simp_all add: inc_def inc_by_def gauge_def)

lemma mval_None [simp]: "mval None k = 0"
  by (simp add: mval_def)

lemma mval_inc_by [metric_simps]:
  "mval (inc_by k n M) k' = (if k' = k \<and> metered M then mval M k' + n else mval M k')"
  by (cases M) (auto simp: inc_by_def mval_def metric_inc)

lemma mval_inc [metric_simps]:
  "mval (inc k M) k' = (if k' = k \<and> metered M then mval M k' + 1 else mval M k')"
  by (simp add: inc_def mval_inc_by)

lemma mval_gauge [metric_simps]:
  "mval (gauge k v M) k' = (if k' = k \<and> metered M then v else mval M k')"
  by (cases M) (auto simp: gauge_def mval_def metrics_set_def dict_get_default_def)

lemma mval_init [simp]: "mval (Some metrics_init) k = 0"
  by (simp add: mval_def metrics_init_def dict_get_default_def)

end
