(* ===== verification/Memory_Cache.thy ===== *)
theory Memory_Cache
  imports Dnslib Metrics
begin

text \<open>
  The in-memory cache of \<^verbatim>\<open>cache/memory.py\<close>: its entries, the two reads
  (\<open>get_fresh\<close>, \<open>get_stale\<close>), insertion with eviction, statistics and clearing. The store is the
  \<^verbatim>\<open>OrderedDict\<close> in its order, oldest first. Every call of \<^verbatim>\<open>time.monotonic()\<close> is an
  argument of its own; an operation that may raise returns an error or a value together with the
  state the exception leaves behind. The shared \<open>Metrics\<close> object is threaded through.
\<close>

section \<open>State\<close>

record cache_config =
  serve_stale_max_s :: int
  negative_ttl_s :: int
  max_entries :: int

definition default_cache_config :: cache_config where
  "default_cache_config = \<lparr>serve_stale_max_s = 300, negative_ttl_s = 60, max_entries = 0\<rparr>"

record cache_entry =
  response_wire :: bytes
  expires_at :: time
  stale_until :: time
  rcode :: int
  hits :: int
  last_hit_mono :: time

type_synonym cache_key = "string \<times> int \<times> int"

type_synonym store_dict = "(cache_key, cache_entry) dict"

record cache =
  config :: cache_config
  store :: store_dict

definition HIT_CAP :: int where
  "HIT_CAP = 1024"

definition cache_init :: "cache_config \<Rightarrow> cache" where
  "cache_init cfg = \<lparr>config = cfg, store = []\<rparr>"

section \<open>Operations\<close>

definition touch :: "cache_key \<Rightarrow> cache \<Rightarrow> cache" where
  "touch key c = (if key \<in> set (keys (store c)) then c\<lparr>store := move_to_end key (store c)\<rparr> else c)"

definition count_negative :: "dnslib \<Rightarrow> cache_entry \<Rightarrow> metrics option \<Rightarrow> metrics option" where
  "count_negative L e M =
     (if rcode e \<noteq> NOERROR L then inc ''negative_cache_hit_total'' M else M)"

text \<open>The update both reads make on a hit: the capped hit counter and the time of the hit.\<close>

definition record_hit :: "time \<Rightarrow> cache_entry \<Rightarrow> cache_entry" where
  "record_hit now e = e\<lparr>hits := min HIT_CAP (hits e + 1), last_hit_mono := now\<rparr>"

definition get_fresh ::
  "dnslib \<Rightarrow> time \<Rightarrow> cache_key \<Rightarrow> cache \<Rightarrow> metrics option \<Rightarrow> bytes option \<times> cache \<times> metrics option"
where
  "get_fresh L now key c M =
     (case dict_get (store c) key of
        None \<Rightarrow> (None, c, M)
      | Some e \<Rightarrow>
          if now \<le> expires_at e then
            (Some (response_wire e),
             touch key (c\<lparr>store := dict_set key (record_hit now e) (store c)\<rparr>),
             count_negative L e M)
          else (None, c, M))"

definition get_stale ::
  "dnslib \<Rightarrow> time \<Rightarrow> cache_key \<Rightarrow> cache \<Rightarrow> metrics option \<Rightarrow> bytes option \<times> cache \<times> metrics option"
where
  "get_stale L now key c M =
     (case dict_get (store c) key of
        None \<Rightarrow> (None, c, M)
      | Some e \<Rightarrow>
          if expires_at e < now \<and> now \<le> stale_until e then
            (Some (response_wire e),
             touch key (c\<lparr>store := dict_set key (record_hit now e) (store c)\<rparr>),
             count_negative L e M)
          else (None, c, M))"

definition peek :: "cache_key \<Rightarrow> cache \<Rightarrow> cache_entry option" where
  "peek key c = dict_get (store c) key"

definition entries_snapshot :: "cache \<Rightarrow> (cache_key \<times> cache_entry) list" where
  "entries_snapshot c = store c"

text \<open>
  The first eviction loop walks a copy of the items and stops the whole method (flag \<open>True\<close>)
  once the store is small enough; the second pops the oldest item while the store is too big, and
  raises KeyError on an empty store, which a negative limit would reach.
\<close>

fun evict_expired ::
  "int \<Rightarrow> time \<Rightarrow> store_dict \<Rightarrow> store_dict \<Rightarrow> metrics option \<Rightarrow> bool \<times> store_dict \<times> metrics option"
where
  "evict_expired mx now [] s M = (False, s, M)"
| "evict_expired mx now ((key, e) # items) s M =
     (if int (length s) \<le> mx then (True, s, M)
      else if now > stale_until e then
        (case dict_get s key of
           None \<Rightarrow> evict_expired mx now items s M
         | Some _ \<Rightarrow> evict_expired mx now items (dict_pop key s) (inc ''evictions_total'' M))
      else evict_expired mx now items s M)"

fun evict_lru :: "int \<Rightarrow> store_dict \<Rightarrow> metrics option \<Rightarrow> unit result \<times> store_dict \<times> metrics option"
where
  "evict_lru mx [] M = (if 0 > mx then (Inl KeyError, [], M) else (Inr (), [], M))"
| "evict_lru mx (it # s) M =
     (if int (length (it # s)) > mx then evict_lru mx s (inc ''evictions_total'' M)
      else (Inr (), it # s, M))"

definition evict_if_needed ::
  "time \<Rightarrow> cache \<Rightarrow> metrics option \<Rightarrow> unit result \<times> cache \<times> metrics option"
where
  "evict_if_needed now c M =
     (let mx = max_entries (config c) in
      if mx = 0 then (Inr (), c, M)
      else if int (length (store c)) \<le> mx then (Inr (), c, M)
      else
        (case evict_expired mx now (store c) (store c) M of
           (True, s, M1) \<Rightarrow> (Inr (), c\<lparr>store := s\<rparr>, M1)
         | (False, s, M1) \<Rightarrow>
             (case evict_lru mx s M1 of (r, s', M2) \<Rightarrow> (r, c\<lparr>store := s'\<rparr>, M2))))"

definition update_cache_entries :: "cache \<Rightarrow> metrics option \<Rightarrow> metrics option" where
  "update_cache_entries c M = gauge ''cache_entries'' (int (length (store c))) M"

text \<open>The TTL of a response: the loop over the authority section looks for an SOA record (type 6).\<close>

fun soa_minimum :: "rr list \<Rightarrow> int option" where
  "soa_minimum [] = None"
| "soa_minimum (r # rs) =
     (if rr_type r = Some 6 then
        (let minttl =
           (case rr_minttl r of
              Some v \<Rightarrow> Some v
            | None \<Rightarrow>
                (case rr_times r of
                   Some ts \<Rightarrow> if length ts \<ge> 5 then Some (ts ! 4) else None
                 | None \<Rightarrow> None))
         in case minttl of Some v \<Rightarrow> Some v | None \<Rightarrow> soa_minimum rs)
      else soa_minimum rs)"

definition ttls :: "rr list \<Rightarrow> int list" where
  "ttls rs = List.map_filter rr_ttl rs"

definition compute_ttl_seconds :: "dnslib \<Rightarrow> cache_config \<Rightarrow> dns_record \<Rightarrow> int result" where
  "compute_ttl_seconds L cfg resp =
     (if hdr_rcode resp = NOERROR L \<and> rrs resp \<noteq> [] then
        (case ttls (rrs resp) of
           [] \<Rightarrow> Inl (ValueError ''min() arg is an empty sequence'')
         | t # ts \<Rightarrow> Inr (fold min ts t))
      else
        (case soa_minimum (auth resp) of
           Some v \<Rightarrow> Inr v
         | None \<Rightarrow> Inr (negative_ttl_s cfg)))"

definition put ::
  "dnslib \<Rightarrow> time \<Rightarrow> time \<Rightarrow> cache_key \<Rightarrow> dns_record \<Rightarrow> cache \<Rightarrow> metrics option
     \<Rightarrow> unit result \<times> cache \<times> metrics option"
where
  "put L now now_evict key resp c M =
     (case compute_ttl_seconds L (config c) resp of
        Inl x \<Rightarrow> (Inl x, c, M)
      | Inr ttl0 \<Rightarrow>
          (let ttl = max 0 ttl0;
               expires = now + of_int ttl;
               stale = expires + of_int (serve_stale_max_s (config c))
           in
           (case pack L resp of
              Inl x \<Rightarrow> (Inl x, c, M)
            | Inr wire \<Rightarrow>
                (let e = \<lparr>response_wire = wire, expires_at = expires, stale_until = stale,
                          rcode = hdr_rcode resp, hits = 0, last_hit_mono = 0\<rparr>;
                     c1 = touch key (c\<lparr>store := dict_set key e (store c)\<rparr>)
                 in
                 (case evict_if_needed now_evict c1 M of
                    (Inl x, c2, M2) \<Rightarrow> (Inl x, c2, M2)
                  | (Inr _, c2, M2) \<Rightarrow> (Inr (), c2, update_cache_entries c2 M2))))))"

definition put_entry_for_test ::
  "cache_key \<Rightarrow> cache_entry \<Rightarrow> cache \<Rightarrow> metrics option \<Rightarrow> cache \<times> metrics option" where
  "put_entry_for_test key e c M =
     (let c1 = touch key (c\<lparr>store := dict_set key e (store c)\<rparr>) in (c1, update_cache_entries c1 M))"

definition clear :: "cache \<Rightarrow> metrics option \<Rightarrow> cache \<times> metrics option" where
  "clear c M =
     (c\<lparr>store := []\<rparr>, inc ''cache_clears_total'' (gauge ''cache_entries'' 0 M))"

text \<open>The counters of \<open>stats_snapshot\<close>, in the order the loop keeps them.\<close>

record stats_acc =
  st_expired :: int
  st_stale :: int
  st_fresh :: int
  st_negative :: int

definition stats_entry :: "dnslib \<Rightarrow> time \<Rightarrow> cache_entry \<Rightarrow> stats_acc \<Rightarrow> stats_acc" where
  "stats_entry L now e a =
     (let a1 =
        (if expires_at e \<le> now then
           (let a0 = a\<lparr>st_expired := st_expired a + 1\<rparr> in
            if expires_at e < now \<and> now \<le> stale_until e then a0\<lparr>st_stale := st_stale a0 + 1\<rparr> else a0)
         else a\<lparr>st_fresh := st_fresh a + 1\<rparr>)
      in if rcode e \<noteq> NOERROR L then a1\<lparr>st_negative := st_negative a1 + 1\<rparr> else a1)"

definition stats_loop :: "dnslib \<Rightarrow> time \<Rightarrow> store_dict \<Rightarrow> stats_acc" where
  "stats_loop L now s =
     fold (\<lambda>it. stats_entry L now (snd it)) s
       \<lparr>st_expired = 0, st_stale = 0, st_fresh = 0, st_negative = 0\<rparr>"

definition stats_snapshot :: "dnslib \<Rightarrow> time \<Rightarrow> cache \<Rightarrow> metrics option \<Rightarrow> (string, int) dict" where
  "stats_snapshot L now c M =
     (let a = stats_loop L now (store c);
          evictions = (case M of None \<Rightarrow> 0 | Some m \<Rightarrow> dict_get_default (snapshot m) ''evictions_total'' 0)
      in [(''entries_total'', int (length (store c))),
          (''expired_total'', st_expired a),
          (''stale_servable_total'', st_stale a),
          (''fresh_total'', st_fresh a),
          (''negative_total'', st_negative a),
          (''evictions_total'', evictions)])"

section \<open>Reads\<close>

lemma touch_config [simp]: "config (touch k c) = config c"
  by (simp add: touch_def)

lemma touch_store: "store (touch k c) = move_to_end k (store c)"
  by (auto simp: touch_def move_to_end_def map_of_eq_None_iff dest: dict_get_mem_keys
      split: option.splits)

lemma record_hit_simps [simp]:
  "response_wire (record_hit t e) = response_wire e"
  "expires_at (record_hit t e) = expires_at e"
  "stale_until (record_hit t e) = stale_until e"
  "rcode (record_hit t e) = rcode e"
  "hits (record_hit t e) = min HIT_CAP (hits e + 1)"
  "last_hit_mono (record_hit t e) = t"
  by (simp_all add: record_hit_def)

lemma get_fresh_config [simp]: "config (fst (snd (get_fresh L t k c M))) = config c"
  by (auto simp: get_fresh_def split: option.splits)

lemma get_stale_config [simp]: "config (fst (snd (get_stale L t k c M))) = config c"
  by (auto simp: get_stale_def split: option.splits)

text \<open>
  What a reader of the cache can observe of a key: the response and its two deadlines. The reads
  change hit counters and the order of the store, never this view.
\<close>

definition view_entry :: "cache_entry \<Rightarrow> bytes \<times> time \<times> time" where
  "view_entry e = (response_wire e, expires_at e, stale_until e)"

definition cache_view :: "cache \<Rightarrow> cache_key \<Rightarrow> (bytes \<times> time \<times> time) option" where
  "cache_view c k = map_option view_entry (dict_get (store c) k)"

lemma get_fresh_view: "cache_view (fst (snd (get_fresh L t k c M))) = cache_view c"
  by (rule ext) (auto simp: get_fresh_def cache_view_def touch_store view_entry_def
      split: option.splits)

lemma get_stale_view: "cache_view (fst (snd (get_stale L t k c M))) = cache_view c"
  by (rule ext) (auto simp: get_stale_def cache_view_def touch_store view_entry_def
      split: option.splits)

lemma get_fresh_result:
  "fst (get_fresh L t k c M) =
     (case cache_view c k of None \<Rightarrow> None | Some (w, ex, st) \<Rightarrow> if t \<le> ex then Some w else None)"
  by (auto simp: get_fresh_def cache_view_def view_entry_def split: option.splits)

lemma get_stale_result:
  "fst (get_stale L t k c M) =
     (case cache_view c k of
        None \<Rightarrow> None | Some (w, ex, st) \<Rightarrow> if ex < t \<and> t \<le> st then Some w else None)"
  by (auto simp: get_stale_def cache_view_def view_entry_def split: option.splits)

text \<open>
  The contract the handler reads the cache under: two reads against one view, the first serving
  up to the expiry deadline, the second strictly after it and up to the stale deadline, neither
  changing the view. The client lemmas are about the handler's two-tier lookup.
\<close>

locale tiered_reads =
  fixes view :: "'c \<Rightarrow> 'k \<Rightarrow> ('w \<times> time \<times> time) option"
    and fresh :: "time \<Rightarrow> 'k \<Rightarrow> 'c \<Rightarrow> 'w option \<times> 'c"
    and stale :: "time \<Rightarrow> 'k \<Rightarrow> 'c \<Rightarrow> 'w option \<times> 'c"
  assumes fresh_val: "fst (fresh t k c) =
      (case view c k of None \<Rightarrow> None | Some (w, ex, st) \<Rightarrow> if t \<le> ex then Some w else None)"
    and fresh_view: "view (snd (fresh t k c)) = view c"
    and stale_val: "fst (stale t k c) =
      (case view c k of None \<Rightarrow> None | Some (w, ex, st) \<Rightarrow> if ex < t \<and> t \<le> st then Some w else None)"
    and stale_view: "view (snd (stale t k c)) = view c"
begin

lemma fresh_excludes_stale: "fst (fresh t k c) = Some w \<Longrightarrow> fst (stale t k c) = None"
  by (auto simp: fresh_val stale_val split: option.splits if_splits)

lemma tiered_miss_iff:
  assumes "t1 \<le> t2"
  shows "fst (fresh t1 k c) = None \<and> fst (stale t2 k (snd (fresh t1 k c))) = None \<longleftrightarrow>
    (\<forall>w ex st. view c k = Some (w, ex, st) \<longrightarrow> ex < t1 \<and> st < t2)"
  using assms by (auto simp: fresh_val stale_val fresh_view split: option.splits if_splits)

lemma tiered_same_answer:
  assumes "fst (fresh t1 k c) = Some w \<or> fst (stale t1 k c) = Some w"
    and "fst (fresh t2 k (snd (fresh t1 k c))) = Some w' \<or> fst (stale t2 k (snd (fresh t1 k c))) = Some w'"
  shows "w = w'"
  using assms by (auto simp: fresh_val stale_val fresh_view split: option.splits if_splits)

end

interpretation tr: tiered_reads
    "\<lambda>cM. cache_view (fst cM)"
    "\<lambda>t k cM. get_fresh L t k (fst cM) (snd cM)"
    "\<lambda>t k cM. get_stale L t k (fst cM) (snd cM)" for L
  by unfold_locales (auto simp: get_fresh_result get_stale_result get_fresh_view get_stale_view)

section \<open>Invariant\<close>

text \<open>
  The cache keeps its keys distinct, its hit counters between 0 and the cap, every entry's expiry
  no later than its stale deadline, and, when a limit is set, no more entries than the limit.
\<close>

definition entry_ok :: "cache_entry \<Rightarrow> bool" where
  "entry_ok e \<longleftrightarrow> 0 \<le> hits e \<and> hits e \<le> HIT_CAP \<and> expires_at e \<le> stale_until e"

definition store_ok :: "store_dict \<Rightarrow> bool" where
  "store_ok s \<longleftrightarrow> dict_ok s \<and> (\<forall>it \<in> set s. entry_ok (snd it))"

definition cache_config_ok :: "cache_config \<Rightarrow> bool" where
  "cache_config_ok cfg \<longleftrightarrow> 0 \<le> serve_stale_max_s cfg \<and> 0 \<le> max_entries cfg"

definition cache_ok :: "cache \<Rightarrow> bool" where
  "cache_ok c \<longleftrightarrow> cache_config_ok (config c) \<and> store_ok (store c) \<and>
     (0 < max_entries (config c) \<longrightarrow> int (length (store c)) \<le> max_entries (config c))"

lemma store_okD: "store_ok s \<Longrightarrow> dict_get s k = Some e \<Longrightarrow> entry_ok e"
  by (auto simp: store_ok_def dest: map_of_SomeD)

lemma store_ok_set: "store_ok s \<Longrightarrow> entry_ok e \<Longrightarrow> store_ok (dict_set k e s)"
  by (auto simp: store_ok_def dest: dict_mem_set_cases)

lemma store_ok_move: "store_ok s \<Longrightarrow> store_ok (move_to_end k s)"
  by (auto simp: store_ok_def dest: dict_mem_move)

lemma store_ok_pop: "store_ok s \<Longrightarrow> store_ok (dict_pop k s)"
  by (auto simp: store_ok_def dest: dict_mem_pop)

lemma entry_ok_hit: "entry_ok e \<Longrightarrow> entry_ok (record_hit t e)"
  by (auto simp: entry_ok_def HIT_CAP_def)

lemma length_rewrite:
  "store_ok s \<Longrightarrow> dict_get s k = Some e \<Longrightarrow> length (move_to_end k (dict_set k e' s)) = length s"
  using dict_get_mem_keys [of s k e] by (auto simp: store_ok_def length_dict_set)

lemma get_fresh_ok: "cache_ok c \<Longrightarrow> cache_ok (fst (snd (get_fresh L t k c M)))"
  by (auto simp: get_fresh_def cache_ok_def touch_store length_rewrite
      intro!: store_ok_move store_ok_set entry_ok_hit intro: store_okD split: option.splits)

lemma get_stale_ok: "cache_ok c \<Longrightarrow> cache_ok (fst (snd (get_stale L t k c M)))"
  by (auto simp: get_stale_def cache_ok_def touch_store length_rewrite
      intro!: store_ok_move store_ok_set entry_ok_hit intro: store_okD split: option.splits)

section \<open>Eviction\<close>

text \<open>
  Reference definition of the eviction policy: an item is dead once its stale deadline has passed;
  \<open>drop_dead n\<close> removes the first \<open>n\<close> dead items (oldest first), and \<open>evict_spec\<close> then drops the
  oldest remaining items down to the limit.
\<close>

definition dead :: "time \<Rightarrow> cache_key \<times> cache_entry \<Rightarrow> bool" where
  "dead now it \<longleftrightarrow> now > stale_until (snd it)"

fun drop_dead :: "nat \<Rightarrow> time \<Rightarrow> store_dict \<Rightarrow> store_dict" where
  "drop_dead 0 now s = s"
| "drop_dead (Suc n) now [] = []"
| "drop_dead (Suc n) now (it # s) =
     (if dead now it then drop_dead n now s else it # drop_dead (Suc n) now s)"

definition evict_spec :: "nat \<Rightarrow> time \<Rightarrow> store_dict \<Rightarrow> store_dict" where
  "evict_spec mx now s =
     (let s1 = drop_dead (length s - mx) now s in drop (length s1 - mx) s1)"

lemma length_drop_dead:
  "length (drop_dead n now s) = length s - min n (length (filter (dead now) s))"
proof (induction n now s rule: drop_dead.induct)
  case (3 n now it s)
  have "length (filter (dead now) s) \<le> length s" by simp
  with 3 show ?case by (auto simp: min_def simp del: length_filter_le)
qed simp_all

lemma subseq_drop_dead: "subseq (drop_dead n now s) s"
  by (induction n now s rule: drop_dead.induct) auto

lemma length_drop_dead_le: "length (drop_dead n now s) \<le> length s"
  by (simp add: length_drop_dead)

lemma drop_dead_bound: "length s - n \<le> length (drop_dead n now s)"
  by (simp add: length_drop_dead)

lemma dict_pop_absent: "k \<notin> set (keys d) \<Longrightarrow> dict_pop k d = d"
  by (auto intro: delete_id)

lemma dict_pop_append: "dict_pop k (d @ d') = dict_pop k d @ dict_pop k d'"
  by (induction d) auto

lemma dict_pop_middle:
  "dict_ok (pre @ (k, e) # items) \<Longrightarrow> dict_pop k (pre @ (k, e) # items) = pre @ items"
  by (simp add: dict_pop_append dict_pop_absent)

definition incs :: "nat \<Rightarrow> string \<Rightarrow> metrics option \<Rightarrow> metrics option" where
  "incs n k M = (inc k ^^ n) M"

lemma incs_0 [simp]: "incs 0 k M = M"
  by (simp add: incs_def)

lemma incs_inc [simp]: "incs n k (inc k M) = incs (Suc n) k M"
  by (simp add: incs_def funpow_swap1)

lemma mval_incs [metric_simps]:
  "mval (incs n k M) k' = (if k' = k \<and> metered M then mval M k' + int n else mval M k')"
proof (induction n arbitrary: M)
  case (Suc n)
  have "incs (Suc n) k M = incs n k (inc k M)" by simp
  with Suc [of "inc k M"] show ?case by (auto simp: mval_inc simp del: incs_inc)
qed simp

lemma metered_incs [simp]: "metered (incs n k M) = metered M"
  by (induction n arbitrary: M) (simp_all add: incs_def)

text \<open>
  The first loop, started in the middle: what it has already walked over is kept, and the rest
  loses its first dead items, as many as the store is over the limit.
\<close>

lemma evict_expired_eq:
  assumes "dict_ok (pre @ items)"
  shows "\<exists>b. evict_expired (int m) now items (pre @ items) M =
      (b, pre @ drop_dead (length (pre @ items) - m) now items,
       incs (length items - length (drop_dead (length (pre @ items) - m) now items))
         ''evictions_total'' M) \<and>
      (b \<longrightarrow> length (pre @ drop_dead (length (pre @ items) - m) now items) \<le> m)"
  using assms
proof (induction items arbitrary: pre M)
  case Nil
  then show ?case by (cases "length pre - m") auto
next
  case (Cons it items)
  obtain key e where it: "it = (key, e)" by (cases it)
  let ?n = "length (pre @ it # items) - m"
  show ?case
  proof (cases "?n")
    case 0
    then show ?thesis by (auto simp: it)
  next
    case (Suc n)
    then have over: "\<not> int (length (pre @ it # items)) \<le> int m" by simp
    show ?thesis
    proof (cases "dead now it")
      case True
      have ok: "dict_ok (pre @ items)" using Cons.prems by (simp add: it)
      have "dict_get (pre @ it # items) key \<noteq> None" by (simp add: it map_add_def split: option.splits)
      then have "evict_expired (int m) now (it # items) (pre @ it # items) M =
          evict_expired (int m) now items (pre @ items) (inc ''evictions_total'' M)"
        using over True Cons.prems
        by (auto simp: it dead_def dict_pop_middle simp del: incs_inc split: option.splits)
      moreover have "length (pre @ items) - m = n" using Suc by simp
      moreover have "Suc (length items - length (drop_dead n now items)) =
          length (it # items) - length (drop_dead n now items)"
        using length_drop_dead_le [of n now items] by (simp add: Suc_diff_le)
      ultimately show ?thesis
        using Cons.IH [OF ok, of "inc ''evictions_total'' M"] True Suc by simp
    next
      case False
      have ok: "dict_ok ((pre @ [it]) @ items)" using Cons.prems by simp
      have "evict_expired (int m) now (it # items) (pre @ it # items) M =
          evict_expired (int m) now items ((pre @ [it]) @ items) M"
        using over False by (simp add: it dead_def)
      then show ?thesis
        using Cons.IH [OF ok, of M] False Suc by simp
    qed
  qed
qed

lemma evict_lru_eq:
  "evict_lru (int m) s M =
     (Inr (), drop (length s - m) s, incs (length s - m) ''evictions_total'' M)"
proof (induction s arbitrary: M)
  case (Cons it s)
  show ?case
  proof (cases "length (it # s) \<le> m")
    case False
    then have "Suc (length s) - m = Suc (length s - m)" by simp
    with False Cons.IH show ?thesis by simp
  qed simp
qed simp

lemma length_evict_spec: "length (evict_spec m now s) = min (length s) m"
  using length_drop_dead_le [of "length s - m" now s] drop_dead_bound [of s "length s - m" now]
  by (auto simp: evict_spec_def Let_def min_def)

lemma subseq_evict_spec: "subseq (evict_spec m now s) s"
  unfolding evict_spec_def Let_def
  by (meson subseq_drop_dead suffix_drop suffix_imp_subseq subseq_order.trans)

lemma evict_spec_small: "length s \<le> m \<Longrightarrow> evict_spec m now s = s"
  by (simp add: evict_spec_def)

lemma evict_if_needed_eq:
  assumes "dict_ok (store c)" and "0 \<le> max_entries (config c)"
  shows "evict_if_needed now c M =
    (let s' = (if max_entries (config c) = 0 then store c
               else evict_spec (nat (max_entries (config c))) now (store c))
     in (Inr (), c\<lparr>store := s'\<rparr>, incs (length (store c) - length s') ''evictions_total'' M))"
proof (cases "max_entries (config c) = 0 \<or> int (length (store c)) \<le> max_entries (config c)")
  case True
  then show ?thesis by (auto simp: evict_if_needed_def Let_def evict_spec_small le_nat_iff)
next
  case False
  obtain m where m: "max_entries (config c) = int m"
    using assms(2) nonneg_int_cases by blast
  let ?d = "drop_dead (length (store c) - m) now (store c)"
  obtain b where b: "evict_expired (int m) now (store c) (store c) M =
      (b, ?d, incs (length (store c) - length ?d) ''evictions_total'' M)"
    and stop: "b \<Longrightarrow> length ?d \<le> m"
    using evict_expired_eq [of "[]" "store c" m now M] assms(1) by auto
  have "incs (length ?d - m) ''evictions_total''
        (incs (length (store c) - length ?d) ''evictions_total'' M) =
      incs (length (store c) - min (length ?d) m) ''evictions_total'' M"
  proof -
    have "(length ?d - m) + (length (store c) - length ?d) = length (store c) - min (length ?d) m"
      using length_drop_dead_le [of "length (store c) - m" now "store c"] by (auto simp: min_def)
    then show ?thesis by (simp add: incs_def funpow_add [THEN fun_cong, unfolded comp_def, symmetric])
  qed
  then show ?thesis
    using False m b stop
    by (cases b) (auto simp: evict_if_needed_def evict_lru_eq evict_spec_def Let_def min_def)
qed

lemma drop_dead_snoc: "\<not> dead now it \<Longrightarrow> drop_dead n now (s @ [it]) = drop_dead n now s @ [it]"
proof (induction n now s rule: drop_dead.induct)
  case (2 n now)
  then show ?case by (cases n) auto
qed auto

lemma evict_spec_snoc:
  assumes "0 < m" and "\<not> dead now it"
  obtains s' where "evict_spec m now (s @ [it]) = s' @ [it]"
  using assms by (auto simp: evict_spec_def Let_def drop_dead_snoc)

section \<open>Insertion\<close>

text \<open>The entry a successful insertion stores, and the store before eviction.\<close>

definition new_entry :: "cache_config \<Rightarrow> time \<Rightarrow> int \<Rightarrow> dns_record \<Rightarrow> bytes \<Rightarrow> cache_entry" where
  "new_entry cfg now ttl resp wire =
     \<lparr>response_wire = wire, expires_at = now + of_int (max 0 ttl),
      stale_until = now + of_int (max 0 ttl) + of_int (serve_stale_max_s cfg),
      rcode = hdr_rcode resp, hits = 0, last_hit_mono = 0\<rparr>"

definition evicted :: "cache_config \<Rightarrow> time \<Rightarrow> store_dict \<Rightarrow> store_dict" where
  "evicted cfg now s =
     (if max_entries cfg = 0 then s else evict_spec (nat (max_entries cfg)) now s)"

lemma put_eq:
  assumes "cache_ok c" and "compute_ttl_seconds L (config c) resp = Inr ttl" and "pack L resp = Inr w"
  shows "put L now now_e key resp c M =
    (let s0 = dict_pop key (store c) @ [(key, new_entry (config c) now ttl resp w)];
         s' = evicted (config c) now_e s0
     in (Inr (), c\<lparr>store := s'\<rparr>,
         gauge ''cache_entries'' (int (length s'))
           (incs (length s0 - length s') ''evictions_total'' M)))"
proof -
  let ?e = "new_entry (config c) now ttl resp w"
  let ?c1 = "touch key (c\<lparr>store := dict_set key ?e (store c)\<rparr>)"
  from assms(1) have ok: "dict_ok (store c)" and mx: "0 \<le> max_entries (config c)"
    by (auto simp: cache_ok_def store_ok_def cache_config_ok_def)
  have c1: "store ?c1 = dict_pop key (store c) @ [(key, ?e)]"
    using ok by (simp add: touch_store move_set)
  have "?c1 = c\<lparr>store := dict_pop key (store c) @ [(key, ?e)]\<rparr>"
    using c1 by (simp add: touch_def)
  moreover have "dict_ok (store ?c1)" using ok by (simp add: touch_store)
  ultimately show ?thesis
    using evict_if_needed_eq [of ?c1 now_e M] mx c1 assms(2,3)
    by (simp add: put_def new_entry_def evicted_def update_cache_entries_def Let_def)
qed

lemma put_raise_eq:
  assumes "compute_ttl_seconds L (config c) resp = Inl x \<or>
    (\<exists>ttl. compute_ttl_seconds L (config c) resp = Inr ttl) \<and> pack L resp = Inl x"
  shows "put L now now_e key resp c M = (Inl x, c, M)"
  using assms by (auto simp: put_def Let_def)

lemma put_cases:
  assumes "cache_ok c"
  obtains (raised) x where "put L now now_e key resp c M = (Inl x, c, M)"
  | (stored) ttl w where "compute_ttl_seconds L (config c) resp = Inr ttl" and "pack L resp = Inr w"
  using put_raise_eq [of L c resp _ now now_e key M]
  by (cases "compute_ttl_seconds L (config c) resp"; cases "pack L resp") blast+

lemma evicted_subseq: "subseq (evicted cfg now s) s"
  by (simp add: evicted_def subseq_evict_spec)

lemma evicted_bound:
  "0 < max_entries cfg \<Longrightarrow> int (length (evicted cfg now s)) \<le> max_entries cfg"
  by (simp add: evicted_def length_evict_spec)

lemma store_ok_subseq: "subseq s' s \<Longrightarrow> store_ok s \<Longrightarrow> store_ok s'"
  unfolding store_ok_def by (meson subseq_set subseq_dict_ok subsetD)

lemma store_ok_insert: "store_ok s \<Longrightarrow> entry_ok e \<Longrightarrow> store_ok (dict_pop k s @ [(k, e)])"
  using set_keys_pop [of k s] by (auto simp: store_ok_def dest: dict_mem_pop)

lemma new_entry_ok: "cache_config_ok cfg \<Longrightarrow> entry_ok (new_entry cfg now ttl resp w)"
  by (simp add: new_entry_def entry_ok_def cache_config_ok_def HIT_CAP_def)

lemma put_ok:
  assumes "cache_ok c"
  shows "cache_ok (fst (snd (put L now now_e key resp c M)))"
  using assms
proof (cases rule: put_cases [where L = L and resp = resp and now = now and now_e = now_e and key = key and M = M])
  case (raised x)
  with assms show ?thesis by simp
next
  case (stored ttl w)
  have "store_ok (dict_pop key (store c) @ [(key, new_entry (config c) now ttl resp w)])"
    using assms by (auto simp: cache_ok_def intro!: store_ok_insert new_entry_ok)
  with assms show ?thesis
    unfolding put_eq [OF assms stored]
    by (auto simp: cache_ok_def Let_def evicted_bound intro: store_ok_subseq [OF evicted_subseq])
qed

lemma clear_ok: "cache_ok c \<Longrightarrow> cache_ok (fst (clear c M))"
  by (simp add: clear_def cache_ok_def store_ok_def)

lemma cache_init_ok: "cache_config_ok cfg \<Longrightarrow> cache_ok (cache_init cfg)"
  by (simp add: cache_init_def cache_ok_def store_ok_def)

lemma put_config [simp]:
  assumes "cache_ok c"
  shows "config (fst (snd (put L now now_e key resp c M))) = config c"
  using assms
proof (cases rule: put_cases [where L = L and resp = resp and now = now and now_e = now_e and key = key and M = M])
  case (stored ttl w)
  show ?thesis unfolding put_eq [OF assms stored] by (simp add: Let_def)
qed simp

text \<open>The inserted key survives its own eviction unless it is already dead when it runs.\<close>

lemma evicted_last:
  assumes "0 \<le> max_entries cfg" and "\<not> dead now it"
  obtains s' where "evicted cfg now (s @ [it]) = s' @ [it]"
proof (cases "max_entries cfg = 0")
  case True
  then show ?thesis using that by (simp add: evicted_def)
next
  case False
  with assms(1) have "0 < nat (max_entries cfg)" by simp
  from evict_spec_snoc [OF this assms(2)] False that show ?thesis
    by (metis evicted_def)
qed

lemma drop_dead_all:
  "length (filter (dead now) s) \<le> n \<Longrightarrow> drop_dead n now s = filter (\<lambda>it. \<not> dead now it) s"
proof (induction n now s rule: drop_dead.induct)
  case (1 now s)
  then have "\<forall>it \<in> set s. \<not> dead now it" by (simp add: filter_empty_conv)
  then show ?case by (simp add: filter_id_conv)
qed auto

lemma live_drop_dead: "it \<in> set s \<Longrightarrow> \<not> dead now it \<Longrightarrow> it \<in> set (drop_dead n now s)"
  by (induction n now s rule: drop_dead.induct) auto

text \<open>A live entry is evicted only when every dead entry has gone.\<close>

lemma evict_spec_dead_first:
  assumes "it \<in> set s" and "it \<notin> set (evict_spec m now s)" and "\<not> dead now it"
  shows "\<forall>it' \<in> set (evict_spec m now s). \<not> dead now it'"
proof -
  let ?n = "length s - m"
  let ?d = "drop_dead ?n now s"
  show ?thesis
  proof (cases "length (filter (dead now) s) \<le> ?n")
    case True
    then show ?thesis by (auto simp: evict_spec_def Let_def drop_dead_all dest: in_set_dropD)
  next
    case False
    then have "length ?d - m = 0" by (simp add: length_drop_dead)
    then have "evict_spec m now s = ?d" by (simp add: evict_spec_def)
    moreover have "it \<in> set ?d" using assms(1,3) by (rule live_drop_dead)
    ultimately show ?thesis using assms(2) by simp
  qed
qed


section \<open>Properties of the cache\<close>

lemma put_view:
  assumes "cache_ok c" and "compute_ttl_seconds L (config c) resp = Inr ttl" and "pack L resp = Inr w"
    and "now_e \<le> now + of_int (max 0 ttl) + of_int (serve_stale_max_s (config c))"
    and "put L now now_e key resp c M = (r, c', M')"
  shows "r = Inr ()" and "cache_view c' key = Some (w, now + of_int (max 0 ttl),
      now + of_int (max 0 ttl) + of_int (serve_stale_max_s (config c)))"
proof -
  let ?e = "new_entry (config c) now ttl resp w"
  have mx: "0 \<le> max_entries (config c)"
    using assms(1) by (auto simp: cache_ok_def cache_config_ok_def)
  have "\<not> dead now_e (key, ?e)" using assms(4) by (simp add: dead_def new_entry_def)
  then obtain s' where s': "evicted (config c) now_e (dict_pop key (store c) @ [(key, ?e)]) = s' @ [(key, ?e)]"
    using evicted_last [OF mx] by blast
  have put: "r = Inr ()" "c' = c\<lparr>store := s' @ [(key, ?e)]\<rparr>"
    using assms(5) unfolding put_eq [OF assms(1-3)] by (auto simp: Let_def s')
  have "cache_ok c'" using put_ok [OF assms(1), of L now now_e key resp M] assms(5) by simp
  then have "dict_ok (s' @ [(key, ?e)])" by (simp add: cache_ok_def store_ok_def put(2))
  then have "dict_get (s' @ [(key, ?e)]) key = Some ?e" by (subst dict_get_iff_mem) auto
  then show "cache_view c' key = Some (w, now + of_int (max 0 ttl),
      now + of_int (max 0 ttl) + of_int (serve_stale_max_s (config c)))"
    by (simp add: cache_view_def put(2) view_entry_def new_entry_def)
  show "r = Inr ()" by (rule put(1))
qed

text \<open>
  C1. Round trip: a response that was inserted is what the cache serves for its key. Until its
  TTL has run out \<open>get_fresh\<close> returns the packed response, after that and until the stale deadline
  \<open>get_stale\<close> does, and later neither; eviction at insertion never removes the inserted key.
\<close>

theorem put_then_served:
  assumes "cache_ok c" and "compute_ttl_seconds L (config c) resp = Inr ttl" and "pack L resp = Inr w"
    and "now_e \<le> now + of_int (max 0 ttl) + of_int (serve_stale_max_s (config c))"
    and "put L now now_e key resp c M = (r, c', M')"
  shows "r = Inr () \<and>
    (\<forall>t M1. t \<le> now + of_int (max 0 ttl) \<longrightarrow> fst (get_fresh L t key c' M1) = Some w) \<and>
    (\<forall>t M1. now + of_int (max 0 ttl) < t \<and>
        t \<le> now + of_int (max 0 ttl) + of_int (serve_stale_max_s (config c)) \<longrightarrow>
      fst (get_fresh L t key c' M1) = None \<and> fst (get_stale L t key c' M1) = Some w) \<and>
    (\<forall>t M1. now + of_int (max 0 ttl) + of_int (serve_stale_max_s (config c)) < t \<longrightarrow>
      fst (get_fresh L t key c' M1) = None \<and> fst (get_stale L t key c' M1) = None)"
proof -
  have sm: "0 \<le> serve_stale_max_s (config c)"
    using assms(1) by (auto simp: cache_ok_def cache_config_ok_def)
  then show ?thesis
    by (simp add: put_view(1) [OF assms] get_fresh_result get_stale_result put_view(2) [OF assms])
qed

definition sample_cache :: "int \<Rightarrow> store_dict \<Rightarrow> cache" where
  "sample_cache mx s = \<lparr>config = default_cache_config\<lparr>max_entries := mx\<rparr>, store = s\<rparr>"

definition sample_entry :: "time \<Rightarrow> time \<Rightarrow> cache_entry" where
  "sample_entry ex st =
     \<lparr>response_wire = [1, 0, 0, 9], expires_at = ex, stale_until = st, rcode = 0, hits = 0, last_hit_mono = 0\<rparr>"

abbreviation key1 :: cache_key where "key1 \<equiv> (''example.com'', 1, 1)"
abbreviation key2 :: cache_key where "key2 \<equiv> (''example.net'', 1, 1)"

lemmas sample_defs = sample_cache_def sample_entry_def default_cache_config_def cache_ok_def
  cache_config_ok_def store_ok_def entry_ok_def HIT_CAP_def sample_msg_def sample_rr_def
  sample_pack_def sample_parse_def

lemma put_then_served_witness:
  "cache_ok (sample_cache 1 [(key2, sample_entry 50 60)]) \<and>
   (case put sample_lib 10 11 key1 (sample_msg 5 0 [sample_rr 30, sample_rr 20])
      (sample_cache 1 [(key2, sample_entry 50 60)]) None of
      (r, c', M') \<Rightarrow>
        fst (get_fresh sample_lib 30 key1 c' None) = Some [5, 0, 0, 30, 20] \<and>
        fst (get_stale sample_lib 31 key1 c' None) = Some [5, 0, 0, 30, 20])"
proof -
  let ?c = "sample_cache 1 [(key2, sample_entry 50 60)]"
  let ?m = "sample_msg 5 0 [sample_rr 30, sample_rr 20]"
  have ok: "cache_ok ?c" by (simp add: sample_defs)
  have ttl: "compute_ttl_seconds sample_lib (config ?c) ?m = Inr 20"
    by (simp add: sample_defs compute_ttl_seconds_def ttls_def List.map_filter_simps)
  have pk: "pack sample_lib ?m = Inr [5, 0, 0, 30, 20]"
    by (simp add: sample_defs)
  obtain r c' M' where put: "put sample_lib 10 11 key1 ?m ?c None = (r, c', M')"
    by (metis prod_cases3)
  have e: "(11::time) \<le> 10 + of_int (max 0 20) + of_int (serve_stale_max_s (config ?c))"
    by (simp add: sample_defs)
  have "serve_stale_max_s (config ?c) = 300" by (simp add: sample_defs)
  then have "fst (get_fresh sample_lib 30 key1 c' None) = Some [5, 0, 0, 30, 20] \<and>
      fst (get_stale sample_lib 31 key1 c' None) = Some [5, 0, 0, 30, 20]"
    using put_then_served [OF ok ttl pk e put] by simp
  with ok show ?thesis by (simp add: put)
qed

text \<open>
  The states the cache can reach: reads, insertions, clearing, and increments other components
  make on the shared counters.
\<close>

inductive cache_reach :: "dnslib \<Rightarrow> cache_config \<Rightarrow> cache \<Rightarrow> metrics option \<Rightarrow> bool" for L cfg where
  start: "cache_reach L cfg (cache_init cfg) (Some metrics_init)"
| start_plain: "cache_reach L cfg (cache_init cfg) None"
| fresh: "cache_reach L cfg c M \<Longrightarrow> get_fresh L t k c M = (r, c', M') \<Longrightarrow> cache_reach L cfg c' M'"
| stale: "cache_reach L cfg c M \<Longrightarrow> get_stale L t k c M = (r, c', M') \<Longrightarrow> cache_reach L cfg c' M'"
| inserted: "cache_reach L cfg c M \<Longrightarrow> put L t t' k resp c M = (x, c', M') \<Longrightarrow> cache_reach L cfg c' M'"
| cleared: "cache_reach L cfg c M \<Longrightarrow> clear c M = (c', M') \<Longrightarrow> cache_reach L cfg c' M'"
| elsewhere: "cache_reach L cfg c M \<Longrightarrow> name \<noteq> ''cache_entries'' \<Longrightarrow> cache_reach L cfg c (inc_by name n M)"

definition cache_inv :: "cache_config \<Rightarrow> cache \<Rightarrow> metrics option \<Rightarrow> bool" where
  "cache_inv cfg c M \<longleftrightarrow> cache_ok c \<and> config c = cfg \<and>
     (metered M \<longrightarrow> mval M ''cache_entries'' = int (length (store c)))"

lemma mval_count_negative [metric_simps]:
  "mval (count_negative L e M) k =
     (if rcode e \<noteq> NOERROR L \<and> k = ''negative_cache_hit_total'' \<and> metered M then mval M k + 1 else mval M k)"
  by (simp add: count_negative_def mval_inc)

lemma metered_count_negative [simp]: "metered (count_negative L e M) = metered M"
  by (simp add: count_negative_def)

lemma get_fresh_length: "store_ok (store c) \<Longrightarrow>
    length (store (fst (snd (get_fresh L t k c M)))) = length (store c)"
  by (auto simp: get_fresh_def touch_store length_rewrite split: option.splits)

lemma get_stale_length: "store_ok (store c) \<Longrightarrow>
    length (store (fst (snd (get_stale L t k c M)))) = length (store c)"
  by (auto simp: get_stale_def touch_store length_rewrite split: option.splits)

lemma get_fresh_metric: "n \<noteq> ''negative_cache_hit_total'' \<Longrightarrow>
    mval (snd (snd (get_fresh L t k c M))) n = mval M n"
  by (auto simp: get_fresh_def mval_count_negative split: option.splits)

lemma get_stale_metric: "n \<noteq> ''negative_cache_hit_total'' \<Longrightarrow>
    mval (snd (snd (get_stale L t k c M))) n = mval M n"
  by (auto simp: get_stale_def mval_count_negative split: option.splits)

lemma metered_get_fresh [simp]: "metered (snd (snd (get_fresh L t k c M))) = metered M"
  by (auto simp: get_fresh_def split: option.splits)

lemma metered_get_stale [simp]: "metered (snd (snd (get_stale L t k c M))) = metered M"
  by (auto simp: get_stale_def split: option.splits)

lemma put_inv:
  assumes "cache_inv cfg c M" and "put L t t' k resp c M = (x, c', M')"
  shows "cache_inv cfg c' M'"
proof -
  from assms(1) have ok: "cache_ok c" by (simp add: cache_inv_def)
  from ok show ?thesis
  proof (cases rule: put_cases [where L = L and resp = resp and now = t and now_e = t' and key = k and M = M])
    case (raised y)
    with assms show ?thesis by simp
  next
    case (stored ttl w)
    have "cache_ok c'" "config c' = config c"
      using put_ok [OF ok, of L t t' k resp M] put_config [OF ok, of L t t' k resp M] assms(2) by simp_all
    moreover have "\<exists>n. M' = gauge ''cache_entries'' (int (length (store c'))) (incs n ''evictions_total'' M)"
      using assms(2) unfolding put_eq [OF ok stored] by (auto simp: Let_def)
    ultimately show ?thesis using assms(1) by (auto simp: cache_inv_def mval_gauge)
  qed
qed

lemma get_fresh_inv:
  "cache_inv cfg c M \<Longrightarrow> cache_inv cfg (fst (snd (get_fresh L t k c M))) (snd (snd (get_fresh L t k c M)))"
  using get_fresh_ok [of c L t k M]
  by (auto simp: cache_inv_def cache_ok_def get_fresh_length get_fresh_metric)

lemma get_stale_inv:
  "cache_inv cfg c M \<Longrightarrow> cache_inv cfg (fst (snd (get_stale L t k c M))) (snd (snd (get_stale L t k c M)))"
  using get_stale_ok [of c L t k M]
  by (auto simp: cache_inv_def cache_ok_def get_stale_length get_stale_metric)

lemma clear_inv: "cache_inv cfg c M \<Longrightarrow> cache_inv cfg (fst (clear c M)) (snd (clear c M))"
  using clear_ok [of c M] by (auto simp: cache_inv_def clear_def mval_inc mval_gauge)

lemma inc_inv: "cache_inv cfg c M \<Longrightarrow> name \<noteq> ''cache_entries'' \<Longrightarrow> cache_inv cfg c (inc name M)"
  by (auto simp: cache_inv_def mval_inc)

text \<open>
  C12. Every state the cache can reach through its operations satisfies the invariant (distinct
  keys, capped hit counters, ordered deadlines, bounded size), and the gauge \<open>cache_entries\<close>
  always shows the true number of entries, whatever the other components do to their counters.
\<close>

theorem cache_reach_inv:
  assumes "cache_config_ok cfg" and "cache_reach L cfg c M"
  shows "cache_inv cfg c M"
  using assms(2)
proof (induction rule: cache_reach.induct)
  case (fresh c M t k r c' M')
  then show ?case using get_fresh_inv [of cfg c M L t k] by simp
next
  case (stale c M t k r c' M')
  then show ?case using get_stale_inv [of cfg c M L t k] by simp
next
  case (inserted c M t t' k resp x c' M')
  then show ?case by (blast intro: put_inv)
next
  case (cleared c M c' M')
  then show ?case using clear_inv [of cfg c M] by simp
qed (use cache_init_ok [OF assms(1)] in \<open>auto simp: cache_inv_def cache_init_def mval_inc_by\<close>)

lemma cache_reach_inv_witness:
  "\<exists>c M. cache_reach sample_lib default_cache_config c M \<and> length (store c) = 1 \<and>
     cache_inv default_cache_config c M \<and> mval M ''cache_entries'' = 1"
proof -
  let ?c = "cache_init default_cache_config"
  let ?m = "sample_msg 5 0 [sample_rr 30]"
  have cfg: "cache_config_ok default_cache_config" by (simp add: sample_defs)
  obtain r c' M' where put: "put sample_lib 10 10 key1 ?m ?c (Some metrics_init) = (r, c', M')"
    by (metis prod_cases3)
  have reach: "cache_reach sample_lib default_cache_config c' M'"
    by (rule cache_reach.inserted [OF cache_reach.start put])
  have "length (store c') = 1 \<and> metered M'"
    using put by (simp add: put_def sample_defs cache_init_def compute_ttl_seconds_def ttls_def
        List.map_filter_simps evict_if_needed_def update_cache_entries_def Let_def)
      (auto simp: touch_store move_to_end_def)
  moreover from this have "mval M' ''cache_entries'' = 1"
    using cache_reach_inv [OF cfg reach] by (simp add: cache_inv_def)
  ultimately show ?thesis using cache_reach_inv [OF cfg reach] reach by blast
qed

text \<open>
  C9. The eviction loop is the documented policy: with a limit set, a store over the limit loses
  first its fully expired entries (oldest first, and no more of them than needed), then its least
  recently used ones, down to exactly the limit; a live entry goes only when no fully expired one
  is left; the order of what stays is unchanged, nothing raises, and \<open>evictions_total\<close> grows by the
  number of entries removed.
\<close>

theorem eviction_policy:
  assumes "dict_ok (store c)" and "0 \<le> max_entries (config c)"
    and "evict_if_needed now c M = (r, c', M')"
  shows "r = Inr () \<and> config c' = config c \<and>
    store c' = (if max_entries (config c) = 0 then store c
                else evict_spec (nat (max_entries (config c))) now (store c)) \<and>
    (0 < max_entries (config c) \<longrightarrow>
       length (store c') = min (length (store c)) (nat (max_entries (config c)))) \<and>
    subseq (store c') (store c) \<and>
    (\<forall>it \<in> set (store c) - set (store c'). \<not> dead now it \<longrightarrow> (\<forall>it' \<in> set (store c'). \<not> dead now it')) \<and>
    (metered M \<longrightarrow> mval M' ''evictions_total'' =
       mval M ''evictions_total'' + int (length (store c) - length (store c')))"
  using assms(3) evict_spec_dead_first [of _ "store c" "nat (max_entries (config c))" now]
  unfolding evict_if_needed_eq [OF assms(1,2)]
  by (auto simp: Let_def mval_incs length_evict_spec subseq_evict_spec)

lemma eviction_policy_witness:
  "evict_if_needed 70
     (sample_cache 2 [(key1, sample_entry 90 99), (key2, sample_entry 50 60), ((''c'', 1, 1), sample_entry 80 90)])
     (Some metrics_init) =
   (Inr (), sample_cache 2 [(key1, sample_entry 90 99), ((''c'', 1, 1), sample_entry 80 90)],
     Some [(''evictions_total'', 1)])"
proof -
  let ?c = "sample_cache 2 [(key1, sample_entry 90 99), (key2, sample_entry 50 60), ((''c'', 1, 1), sample_entry 80 90)]"
  obtain r c' M' where ev: "evict_if_needed 70 ?c (Some metrics_init) = (r, c', M')"
    by (metis prod_cases3)
  have "store c' = [(key1, sample_entry 90 99), ((''c'', 1, 1), sample_entry 80 90)] \<and> r = Inr () \<and>
      config c' = config ?c"
    using eviction_policy [OF _ _ ev]
    by (simp add: sample_defs evict_spec_def dead_def eval_nat_numeral)
  moreover have "M' = Some [(''evictions_total'', 1)]"
    using ev by (auto simp: evict_if_needed_def sample_defs inc_def inc_by_def metrics_inc_def
        metrics_init_def dict_get_default_def)
  ultimately show ?thesis using ev by (simp add: sample_cache_def)
qed

text \<open>
  A read that hits returns the stored response, makes its key the most recently used one
  (the order of the other keys is kept), counts the hit up to the cap of 1024 with the time of the
  read, leaves every other entry alone, and counts a negative hit exactly for a response code other
  than NOERROR. This holds for a fresh hit and, in the stale window, for a stale hit.
\<close>

theorem read_hit_effect:
  assumes "dict_ok (store c)" and "dict_get (store c) k = Some e"
    and "(t \<le> expires_at e \<and> get_fresh L t k c M = (r, c', M')) \<or>
         (expires_at e < t \<and> t \<le> stale_until e \<and> get_stale L t k c M = (r, c', M'))"
  shows "r = Some (response_wire e) \<and> config c' = config c \<and>
    keys (store c') = filter (\<lambda>x. x \<noteq> k) (keys (store c)) @ [k] \<and>
    dict_get (store c') k =
      Some (e\<lparr>hits := min 1024 (hits e + 1), last_hit_mono := t\<rparr>) \<and>
    (\<forall>k'. k' \<noteq> k \<longrightarrow> dict_get (store c') k' = dict_get (store c) k') \<and>
    (metered M \<longrightarrow> mval M' ''negative_cache_hit_total'' =
       mval M ''negative_cache_hit_total'' + (if rcode e = NOERROR L then 0 else 1))"
proof -
  let ?s = "dict_set k (record_hit t e) (store c)"
  have c': "r = Some (response_wire e)" "c' = touch k (c\<lparr>store := ?s\<rparr>)" "M' = count_negative L e M"
    using assms(2,3) by (auto simp: get_fresh_def get_stale_def)
  have k: "k \<in> set (keys (store c))" using assms(2) by (rule dict_get_mem_keys)
  have "keys ?s = keys (store c)" using k by (simp add: update_keys)
  with k have "keys (store c') = filter (\<lambda>x. x \<noteq> k) (keys (store c)) @ [k]"
    unfolding c' touch_store by (subst keys_move) simp
  then show ?thesis
    by (auto simp: c' touch_store mval_count_negative record_hit_def HIT_CAP_def)
qed

lemma read_hit_effect_witness:
  "fst (get_stale sample_lib 55 key2 (sample_cache 0 [(key2, sample_entry 50 60), (key1, sample_entry 90 99)]) None)
     = Some [1, 0, 0, 9] \<and>
   keys (store (fst (snd (get_stale sample_lib 55 key2
     (sample_cache 0 [(key2, sample_entry 50 60), (key1, sample_entry 90 99)]) None)))) = [key1, key2]"
proof -
  let ?c = "sample_cache 0 [(key2, sample_entry 50 60), (key1, sample_entry 90 99)]"
  obtain r c' M' where g: "get_stale sample_lib 55 key2 ?c None = (r, c', M')"
    by (metis prod_cases3)
  have ok: "dict_ok (store ?c)" and e: "dict_get (store ?c) key2 = Some (sample_entry 50 60)"
    by (simp_all add: sample_defs)
  show ?thesis
    using read_hit_effect [OF ok e, of 55 sample_lib None r c' M'] g by (simp add: sample_defs)
qed

text \<open>The minimum an SOA record of the authority section states, when it is readable.\<close>

definition soa_value :: "rr \<Rightarrow> int option" where
  "soa_value r =
     (if rr_type r \<noteq> Some 6 then None
      else case rr_minttl r of
        Some v \<Rightarrow> Some v
      | None \<Rightarrow> (case rr_times r of Some ts \<Rightarrow> if 5 \<le> length ts then Some (ts ! 4) else None | None \<Rightarrow> None))"

lemma soa_minimum_first:
  "soa_minimum rs = (case List.map_filter soa_value rs of [] \<Rightarrow> None | v # _ \<Rightarrow> Some v)"
  by (induction rs) (auto simp: soa_value_def List.map_filter_simps split: option.splits)

lemma fold_min_Min: "fold min ts t = Min (set (t # ts))" for t :: int
  by (rule Min.set_eq_fold [symmetric])

text \<open>
  The TTL rule. A NOERROR response with answers lives for the smallest TTL of its answer
  records (and cannot be stored when none of them has a TTL); any other response lives for the
  minimum of the first usable SOA record of its authority section, or for the configured negative
  TTL when there is none.
\<close>

theorem compute_ttl_rule:
  "compute_ttl_seconds L cfg resp =
     (if hdr_rcode resp = NOERROR L \<and> rrs resp \<noteq> [] then
        (let T = {t. \<exists>r \<in> set (rrs resp). rr_ttl r = Some t}
         in if T = {} then Inl (ValueError ''min() arg is an empty sequence'') else Inr (Min T))
      else Inr (case List.map_filter soa_value (auth resp) of [] \<Rightarrow> negative_ttl_s cfg | v # _ \<Rightarrow> v))"
proof -
  have T: "{t. \<exists>r \<in> set (rrs resp). rr_ttl r = Some t} = set (ttls (rrs resp))"
    by (force simp: ttls_def List.map_filter_def)
  show ?thesis
    unfolding T compute_ttl_seconds_def soa_minimum_first
    by (auto simp: fold_min_Min Let_def split: list.splits)
qed

lemma stats_loop_counts:
  "fold (\<lambda>it. stats_entry L now (snd it)) s a =
     \<lparr>st_expired = st_expired a + int (length (filter (\<lambda>it. expires_at (snd it) \<le> now) s)),
      st_stale = st_stale a + int (length (filter (\<lambda>it. expires_at (snd it) < now \<and> now \<le> stale_until (snd it)) s)),
      st_fresh = st_fresh a + int (length (filter (\<lambda>it. now < expires_at (snd it)) s)),
      st_negative = st_negative a + int (length (filter (\<lambda>it. rcode (snd it) \<noteq> NOERROR L) s))\<rparr>"
  by (induction s arbitrary: a) (auto simp: stats_entry_def Let_def)

text \<open>
  C32. The statistics of \<open>/cache/stats\<close>: expired and fresh entries partition the cache, the
  stale-servable ones are exactly those a stale read would serve now, the negative ones those whose
  code is not NOERROR. But an entry whose TTL runs out at this very instant is counted as expired
  (and neither fresh nor stale-servable) although a fresh read still serves it: \<open>fresh_total\<close> is the
  number of entries a fresh read serves minus the entries that expire exactly now.
\<close>

theorem stats_snapshot_counts:
  assumes "dict_ok (store c)"
  shows "\<exists>ev expired stale fresh negative.
    stats_snapshot L now c M =
      [(''entries_total'', int (length (store c))), (''expired_total'', expired),
       (''stale_servable_total'', stale), (''fresh_total'', fresh), (''negative_total'', negative),
       (''evictions_total'', ev)] \<and>
    ev = mval M ''evictions_total'' \<and>
    expired + fresh = int (length (store c)) \<and>
    stale = int (length (filter (\<lambda>k. fst (get_stale L now k c M) \<noteq> None) (keys (store c)))) \<and>
    fresh = int (length (filter (\<lambda>k. fst (get_fresh L now k c M) \<noteq> None) (keys (store c))))
      - int (length (filter (\<lambda>it. expires_at (snd it) = now) (store c))) \<and>
    negative = int (length (filter (\<lambda>it. rcode (snd it) \<noteq> NOERROR L) (store c)))"
proof -
  let ?s = "store c"
  have stale: "length (filter (\<lambda>k. fst (get_stale L now k c M) \<noteq> None) (keys ?s)) =
      length (filter (\<lambda>it. expires_at (snd it) < now \<and> now \<le> stale_until (snd it)) ?s)"
    using assms by (auto simp: filter_map comp_def get_stale_def
        intro!: arg_cong [where f = length] filter_cong split: if_splits)
  have fresh: "length (filter (\<lambda>k. fst (get_fresh L now k c M) \<noteq> None) (keys ?s)) =
      length (filter (\<lambda>it. now \<le> expires_at (snd it)) ?s)"
    using assms by (auto simp: filter_map comp_def get_fresh_def
        intro!: arg_cong [where f = length] filter_cong split: if_splits)
  have split: "length (filter (\<lambda>it. now \<le> expires_at (snd it)) s) =
      length (filter (\<lambda>it. now < expires_at (snd it)) s) + length (filter (\<lambda>it. expires_at (snd it) = now) s)"
    for s :: store_dict by (induction s) (auto split: if_splits)
  have part: "length (filter (\<lambda>it. expires_at (snd it) \<le> now) s) +
      length (filter (\<lambda>it. now < expires_at (snd it)) s) = length s"
    for s :: store_dict by (induction s) auto
  show ?thesis
    using part [of ?s] unfolding stale fresh split
    by (auto simp: stats_snapshot_def stats_loop_def stats_loop_counts Let_def snapshot_def mval_def
        split: option.splits)
qed

lemma stats_snapshot_counts_witness:
  "fst (get_fresh sample_lib 50 key2 (sample_cache 0 [(key2, sample_entry 50 60)]) None) = Some [1, 0, 0, 9] \<and>
   stats_snapshot sample_lib 50 (sample_cache 0 [(key2, sample_entry 50 60)]) None =
     [(''entries_total'', 1), (''expired_total'', 1), (''stale_servable_total'', 0),
      (''fresh_total'', 0), (''negative_total'', 0), (''evictions_total'', 0)]"
proof -
  let ?c = "sample_cache 0 [(key2, sample_entry 50 60)]"
  have g: "fst (get_fresh sample_lib 50 key2 ?c None) = Some [1, 0, 0, 9]"
    and st: "fst (get_stale sample_lib 50 key2 ?c None) = None"
    by (simp_all add: sample_defs get_fresh_def get_stale_def)
  have ok: "dict_ok (store ?c)" by (simp add: sample_defs)
  have s: "store ?c = [(key2, sample_entry 50 60)]" and e: "expires_at (sample_entry 50 60) = 50"
    "rcode (sample_entry 50 60) = 0" by (simp_all add: sample_defs)
  show ?thesis
    using g stats_snapshot_counts [OF ok, of sample_lib 50 None] by (auto simp: s g st e)
qed

end
