(* ===== verification/Single_Flight.thy ===== *)
theory Single_Flight
  imports Metrics
begin

text \<open>
  The request coalescing of \<^verbatim>\<open>dns/singleflight.py\<close>. Tasks are numbered in the order of
  their creation. The lock guards code without a suspension point, so it is never contended and each
  of \<open>get_or_create\<close> and \<open>cleanup\<close> is one atomic step. When a task is done, its callback creates a
  cleanup task that runs some time later: \<open>cleanups\<close> holds the ones that have not run yet, and a
  finished task can still be in the table until then.
\<close>

section \<open>State and operations\<close>

record 'k flights =
  tasks :: "'k \<rightharpoonup> nat"
  running :: "nat \<rightharpoonup> 'k"
  cleanups :: "('k \<times> nat) list"
  next_task :: nat

definition flights_init :: "'k flights" where
  "flights_init = \<lparr>tasks = Map.empty, running = Map.empty, cleanups = [], next_task = 0\<rparr>"

definition is_done :: "nat \<Rightarrow> 'k flights \<Rightarrow> bool" where
  "is_done t sf \<longleftrightarrow> running sf t = None"

definition create_task :: "'k \<Rightarrow> 'k flights \<Rightarrow> 'k flights" where
  "create_task key sf =
     sf\<lparr>tasks := (tasks sf)(key \<mapsto> next_task sf),
        running := (running sf)(next_task sf \<mapsto> key),
        next_task := Suc (next_task sf)\<rparr>"

definition get_or_create ::
  "'k \<Rightarrow> 'k flights \<Rightarrow> metrics option \<Rightarrow> (nat \<times> bool) \<times> 'k flights \<times> metrics option" where
  "get_or_create key sf M =
     (case tasks sf key of
        Some existing \<Rightarrow>
          if \<not> is_done existing sf then
            ((existing, False), sf, inc ''singleflight_dedup_total'' M)
          else ((next_task sf, True), create_task key sf, M)
      | None \<Rightarrow> ((next_task sf, True), create_task key sf, M))"

text \<open>The task ends (with a result, an error or by cancellation) and its callback is scheduled.\<close>

definition task_done :: "nat \<Rightarrow> 'k flights \<Rightarrow> 'k flights" where
  "task_done t sf =
     (case running sf t of
        None \<Rightarrow> sf
      | Some key \<Rightarrow> sf\<lparr>running := (running sf)(t := None), cleanups := cleanups sf @ [(key, t)]\<rparr>)"

definition cleanup :: "'k \<Rightarrow> nat \<Rightarrow> 'k flights \<Rightarrow> 'k flights" where
  "cleanup key t sf =
     (if tasks sf key = Some t then sf\<lparr>tasks := (tasks sf)(key := None)\<rparr> else sf)"

text \<open>A scheduled cleanup task runs.\<close>

definition run_cleanup :: "'k \<Rightarrow> nat \<Rightarrow> 'k flights \<Rightarrow> 'k flights" where
  "run_cleanup key t sf =
     (if (key, t) \<in> set (cleanups sf)
      then cleanup key t (sf\<lparr>cleanups := filter (\<lambda>c. c \<noteq> (key, t)) (cleanups sf)\<rparr>) else sf)"

section \<open>Invariant\<close>

text \<open>
  Every running task is the table's task for its key; every task of the table either runs or has
  its cleanup pending; task numbers are below the next one and finished tasks do not run.
\<close>

definition flights_ok :: "'k flights \<Rightarrow> bool" where
  "flights_ok sf \<longleftrightarrow>
     (\<forall>t k. running sf t = Some k \<longrightarrow> t < next_task sf \<and> tasks sf k = Some t) \<and>
     (\<forall>k t. tasks sf k = Some t \<longrightarrow> t < next_task sf \<and>
        (running sf t = Some k \<or> (k, t) \<in> set (cleanups sf))) \<and>
     (\<forall>k t. (k, t) \<in> set (cleanups sf) \<longrightarrow> t < next_task sf \<and> running sf t = None)"

lemma flights_init_ok: "flights_ok flights_init"
  by (simp add: flights_ok_def flights_init_def)

lemma running_in_table: "flights_ok sf \<Longrightarrow> running sf t = Some k \<Longrightarrow> tasks sf k = Some t \<and> t < next_task sf"
  unfolding flights_ok_def by blast

lemma table_cases: "flights_ok sf \<Longrightarrow> tasks sf k = Some t \<Longrightarrow>
    t < next_task sf \<and> (running sf t = Some k \<or> (k, t) \<in> set (cleanups sf) \<and> running sf t = None)"
  unfolding flights_ok_def by blast

lemma table_running_key: "flights_ok sf \<Longrightarrow> tasks sf k = Some t \<Longrightarrow> running sf t = Some k' \<Longrightarrow> k' = k"
  by (drule (1) table_cases) auto

lemma pending_done: "flights_ok sf \<Longrightarrow> (k, t) \<in> set (cleanups sf) \<Longrightarrow> t < next_task sf \<and> running sf t = None"
  unfolding flights_ok_def by blast

lemma create_task_ok:
  assumes ok: "flights_ok sf" and free: "\<forall>t. tasks sf key = Some t \<longrightarrow> is_done t sf"
  shows "flights_ok (create_task key sf)"
proof -
  have new: "running sf (next_task sf) = None"
    using running_in_table [OF ok, of "next_task sf"] by (cases "running sf (next_task sf)") auto
  have other: "k \<noteq> key" if "running sf t = Some k" for t k
    using running_in_table [OF ok that] free that by (auto simp: is_done_def)
  show ?thesis
    unfolding flights_ok_def create_task_def
    using running_in_table [OF ok] table_cases [OF ok] pending_done [OF ok] other new
    by (auto simp: less_Suc_eq split: if_splits) (metis less_irrefl)+
qed

lemma get_or_create_cases:
  obtains (join) t where "tasks sf key = Some t" and "\<not> is_done t sf"
      and "get_or_create key sf M = ((t, False), sf, inc ''singleflight_dedup_total'' M)"
  | (lead) "\<forall>t. tasks sf key = Some t \<longrightarrow> is_done t sf"
      and "get_or_create key sf M = ((next_task sf, True), create_task key sf, M)"
  by (cases "tasks sf key") (auto simp: get_or_create_def split: if_splits)

lemma get_or_create_ok: "flights_ok sf \<Longrightarrow> flights_ok (fst (snd (get_or_create key sf M)))"
  by (cases key sf M rule: get_or_create_cases) (auto intro: create_task_ok)

lemma task_done_ok: "flights_ok sf \<Longrightarrow> flights_ok (task_done t sf)"
  using running_in_table [of sf] table_cases [of sf] table_running_key [of sf] pending_done [of sf]
  by (subst flights_ok_def) (auto simp: task_done_def split: option.splits)

lemma run_cleanup_ok: "flights_ok sf \<Longrightarrow> flights_ok (run_cleanup key t sf)"
  unfolding flights_ok_def run_cleanup_def cleanup_def by auto

section \<open>The abstract flight table\<close>

text \<open>What callers rely on: at most one running task per key. The concrete table refines it.\<close>

definition flight_of :: "'k flights \<Rightarrow> 'k \<Rightarrow> nat option" where
  "flight_of sf k =
     (case tasks sf k of
        Some t \<Rightarrow> if is_done t sf then None else Some t
      | None \<Rightarrow> None)"

lemma flight_of_iff:
  "flights_ok sf \<Longrightarrow> flight_of sf k = Some t \<longleftrightarrow> running sf t = Some k"
  using running_in_table [of sf t k] table_cases [of sf k t]
  by (auto simp: flight_of_def is_done_def split: option.splits if_splits)

lemma flight_of_None_iff:
  "flight_of sf k = None \<longleftrightarrow> (\<forall>t. tasks sf k = Some t \<longrightarrow> is_done t sf)"
  by (auto simp: flight_of_def split: option.splits)

lemma flight_of_create:
  assumes "flights_ok sf"
  shows "flight_of (create_task key sf) = (flight_of sf)(key \<mapsto> next_task sf)"
proof
  fix k
  have "t \<noteq> next_task sf" if "tasks sf k = Some t" for t
    using assms that by (force simp: flights_ok_def)
  then show "flight_of (create_task key sf) k = ((flight_of sf)(key \<mapsto> next_task sf)) k"
    by (auto simp: flight_of_def create_task_def is_done_def split: option.splits)
qed

lemma flight_of_done:
  assumes "flights_ok sf"
  shows "flight_of (task_done t sf) =
    (case running sf t of None \<Rightarrow> flight_of sf | Some k \<Rightarrow> (flight_of sf)(k := None))"
proof (cases "running sf t")
  case (Some key)
  have "flight_of (task_done t sf) k = ((flight_of sf)(key := None)) k" for k
  proof (cases "tasks sf k = Some t")
    case True
    then show ?thesis
      using table_running_key [OF assms True Some] Some by (simp add: flight_of_def task_done_def is_done_def)
  next
    case False
    then have "k \<noteq> key" using running_in_table [OF assms Some] by auto
    with False Some show ?thesis by (auto simp: flight_of_def task_done_def is_done_def split: option.split)
  qed
  with Some show ?thesis by auto
qed (simp add: task_done_def)

lemma flight_of_cleanup:
  assumes "flights_ok sf"
  shows "flight_of (run_cleanup key t sf) = flight_of sf"
proof
  fix k
  have "(key, t) \<in> set (cleanups sf) \<Longrightarrow> running sf t = None"
    using assms by (auto simp: flights_ok_def)
  then show "flight_of (run_cleanup key t sf) k = flight_of sf k"
    by (auto simp: flight_of_def run_cleanup_def cleanup_def is_done_def split: option.splits)
qed

lemma get_or_create_refines:
  assumes "flights_ok sf"
  shows "case get_or_create key sf M of ((t, leader), sf', M') \<Rightarrow>
    (case flight_of sf key of
       Some t0 \<Rightarrow> t = t0 \<and> \<not> leader \<and> sf' = sf
     | None \<Rightarrow> leader \<and> t = next_task sf \<and> flight_of sf' = (flight_of sf)(key \<mapsto> t))"
proof (cases key sf M rule: get_or_create_cases)
  case (join t)
  then show ?thesis by (simp add: flight_of_def)
next
  case lead
  then have "flight_of sf key = None" by (simp add: flight_of_None_iff)
  with lead assms show ?thesis by (simp add: flight_of_create)
qed

text \<open>
  The contract of request coalescing, as its callers use it. \<open>lookup\<close> is the running task of a key.
  The client lemmas: a second caller before the task ends joins the first one's task, and a caller
  after it ends starts a new one.
\<close>

locale coalescing =
  fixes invar :: "'s \<Rightarrow> bool"
    and lookup :: "'s \<Rightarrow> 'k \<Rightarrow> 't option"
    and enter :: "'k \<Rightarrow> 's \<Rightarrow> ('t \<times> bool) \<times> 's"
    and finish :: "'t \<Rightarrow> 's \<Rightarrow> 's"
    and fresh_task :: "'s \<Rightarrow> 't"
  assumes invar_enter: "invar s \<Longrightarrow> invar (snd (enter k s))"
    and invar_finish: "invar s \<Longrightarrow> invar (finish t s)"
    and enter_join: "invar s \<Longrightarrow> lookup s k = Some t \<Longrightarrow>
      fst (enter k s) = (t, False) \<and> lookup (snd (enter k s)) = lookup s"
    and enter_lead: "invar s \<Longrightarrow> lookup s k = None \<Longrightarrow>
      fst (enter k s) = (fresh_task s, True) \<and> lookup (snd (enter k s)) = (lookup s)(k \<mapsto> fresh_task s)"
    and finish_lookup: "invar s \<Longrightarrow> lookup s k = Some t \<Longrightarrow> lookup (finish t s) = (lookup s)(k := None)"
begin

lemma leader_iff: "invar s \<Longrightarrow> snd (fst (enter k s)) \<longleftrightarrow> lookup s k = None"
  using enter_join [of s k] enter_lead [of s k] by (cases "lookup s k") auto

lemma entered_running: "invar s \<Longrightarrow> lookup (snd (enter k s)) k = Some (fst (fst (enter k s)))"
  using enter_join [of s k] enter_lead [of s k] by (cases "lookup s k") auto

lemma second_joins_first:
  assumes "invar s"
  shows "fst (enter k (snd (enter k s))) = (fst (fst (enter k s)), False)"
  using enter_join [OF invar_enter [OF assms] entered_running [OF assms]] by simp

lemma other_keys_untouched: "invar s \<Longrightarrow> k' \<noteq> k \<Longrightarrow> lookup (snd (enter k s)) k' = lookup s k'"
  using enter_join [of s k] enter_lead [of s k] by (cases "lookup s k") auto

lemma new_flight_after_finish:
  assumes "invar s" and "lookup s k = Some t"
  shows "snd (fst (enter k (finish t s)))"
  using leader_iff [OF invar_finish [OF assms(1)], of k t] finish_lookup [OF assms] by simp

end

abbreviation enter_flight :: "'k \<Rightarrow> 'k flights \<times> metrics option \<Rightarrow> (nat \<times> bool) \<times> 'k flights \<times> metrics option" where
  "enter_flight k s \<equiv> get_or_create k (fst s) (snd s)"

interpretation sfc: coalescing
    "\<lambda>s. flights_ok (fst s)" "\<lambda>s. flight_of (fst s)" enter_flight
    "\<lambda>t s. (task_done t (fst s), snd s)" "\<lambda>s. next_task (fst s)"
proof unfold_locales
  fix s :: "'k flights \<times> metrics option" and k t
  assume ok: "flights_ok (fst s)"
  show "flights_ok (fst (snd (enter_flight k s)))" using ok by (rule get_or_create_ok)
  show "flights_ok (fst (task_done t (fst s), snd s))" using ok by (simp add: task_done_ok)
  show "fst (enter_flight k s) = (t, False) \<and> flight_of (fst (snd (enter_flight k s))) = flight_of (fst s)"
    if "flight_of (fst s) k = Some t"
    using get_or_create_refines [OF ok, of k "snd s"] that by (auto split: prod.splits)
  show "fst (enter_flight k s) = (next_task (fst s), True) \<and>
      flight_of (fst (snd (enter_flight k s))) = (flight_of (fst s))(k \<mapsto> next_task (fst s))"
    if "flight_of (fst s) k = None"
    using get_or_create_refines [OF ok, of k "snd s"] that by (auto split: prod.splits)
  show "flight_of (fst (task_done t (fst s), snd s)) = (flight_of (fst s))(k := None)"
    if "flight_of (fst s) k = Some t"
    using ok that by (simp add: flight_of_done flight_of_iff)
qed

section \<open>Properties\<close>

text \<open>The states reachable by callers entering, tasks ending and cleanup tasks running, in any order.\<close>

inductive flights_reach :: "'k flights \<Rightarrow> bool" where
  start: "flights_reach flights_init"
| enter: "flights_reach sf \<Longrightarrow> get_or_create key sf M = (r, sf', M') \<Longrightarrow> flights_reach sf'"
| finish: "flights_reach sf \<Longrightarrow> flights_reach (task_done t sf)"
| sweep: "flights_reach sf \<Longrightarrow> flights_reach (run_cleanup key t sf)"

lemma flights_reach_ok: "flights_reach sf \<Longrightarrow> flights_ok sf"
proof (induction rule: flights_reach.induct)
  case (enter sf key M r sf' M')
  then show ?case using get_or_create_ok [of sf key M] by simp
qed (simp_all add: flights_init_ok task_done_ok run_cleanup_ok)

text \<open>
  C18. However callers, task completions and the delayed cleanups interleave, two running tasks
  never have the same key, a running task is always found through the table, and once no cleanup is
  pending the table holds running tasks only (no finished task is kept).
\<close>

theorem single_flight_invariant:
  assumes "flights_reach sf"
  shows "(\<forall>t t' k. running sf t = Some k \<and> running sf t' = Some k \<longrightarrow> t = t') \<and>
    (\<forall>t k. running sf t = Some k \<longrightarrow> tasks sf k = Some t) \<and>
    (cleanups sf = [] \<longrightarrow> (\<forall>k t. tasks sf k = Some t \<longrightarrow> running sf t = Some k))"
proof -
  note ok = flights_reach_ok [OF assms]
  have "t = t'" if "running sf t = Some k \<and> running sf t' = Some k" for t t' k
    using that running_in_table [OF ok, of t k] running_in_table [OF ok, of t' k] by auto
  moreover have "running sf t = Some k" if "cleanups sf = []" "tasks sf k = Some t" for t k
    using table_cases [OF ok that(2)] that(1) by simp
  ultimately show ?thesis using running_in_table [OF ok] by blast
qed

lemma single_flight_invariant_witness:
  "\<exists>sf :: nat flights. flights_reach sf \<and> running sf 1 = Some 7 \<and> tasks sf 7 = Some 1"
proof -
  let ?s1 = "create_task (7::nat) flights_init"
  let ?s2 = "task_done 0 ?s1"
  let ?s3 = "create_task 7 ?s2"
  let ?s4 = "run_cleanup 7 0 ?s3"
  have "get_or_create 7 flights_init None = ((0, True), ?s1, None)"
    by (simp add: get_or_create_def flights_init_def)
  then have r2: "flights_reach ?s2"
    by (rule flights_reach.finish [OF flights_reach.enter [OF flights_reach.start]])
  have "get_or_create 7 ?s2 None = ((1, True), ?s3, None)"
    by (simp add: get_or_create_def flights_init_def create_task_def task_done_def is_done_def)
  then have r4: "flights_reach ?s4"
    by (rule flights_reach.sweep [OF flights_reach.enter [OF r2]])
  have "running ?s4 1 = Some 7"
    by (simp add: run_cleanup_def cleanup_def flights_init_def create_task_def task_done_def)
  with single_flight_invariant [OF r4] r4 show ?thesis by blast
qed

text \<open>
  The outcome of entering a flight, in every reachable state. The caller leads exactly when no
  task of its key is running; a leader's task is new, starts running and is the only change to the
  running tasks; a follower gets the running task of its key, changes nothing, and is counted in
  \<open>singleflight_dedup_total\<close>.
\<close>

lemma single_flight_enter:
  assumes "flights_reach sf" and "get_or_create key sf M = ((t, leader), sf', M')"
  shows "(leader \<longleftrightarrow> (\<forall>t'. running sf t' \<noteq> Some key)) \<and>
    (leader \<longrightarrow> running sf t = None \<and> running sf' = (running sf)(t \<mapsto> key) \<and> M' = M) \<and>
    (\<not> leader \<longrightarrow> running sf t = Some key \<and> sf' = sf \<and>
       (metered M \<longrightarrow> mval M' ''singleflight_dedup_total'' = mval M ''singleflight_dedup_total'' + 1))"
proof -
  note ok = flights_reach_ok [OF assms(1)]
  have lead: "leader \<longleftrightarrow> (\<forall>t'. running sf t' \<noteq> Some key)"
    using sfc.leader_iff [of "(sf, M)" key] ok assms(2) flight_of_iff [OF ok, of key]
    by (cases "flight_of sf key") auto
  show ?thesis
  proof (cases key sf M rule: get_or_create_cases)
    case (join u)
    then show ?thesis using lead assms(2) table_cases [OF ok join(1)]
      by (auto simp: is_done_def mval_inc)
  next
    case lead': lead
    then show ?thesis using lead assms(2) running_in_table [OF ok, of "next_task sf"]
      by (cases "running sf (next_task sf)") (auto simp: create_task_def)
  qed
qed

lemma single_flight_enter_witness:
  "get_or_create (7::nat) (create_task 7 flights_init) (Some metrics_init) =
     ((0, False), create_task 7 flights_init, Some [(''singleflight_dedup_total'', 1)]) \<and>
   running (create_task (7::nat) flights_init) 0 = Some 7"
proof -
  let ?s1 = "create_task (7::nat) flights_init"
  have "get_or_create 7 flights_init None = ((0, True), ?s1, None)"
    by (simp add: get_or_create_def flights_init_def)
  then have r1: "flights_reach ?s1" by (rule flights_reach.enter [OF flights_reach.start])
  have g: "get_or_create 7 ?s1 (Some metrics_init) = ((0, False), ?s1, Some [(''singleflight_dedup_total'', 1)])"
    by (simp add: get_or_create_def flights_init_def create_task_def is_done_def inc_def inc_by_def
        metrics_inc_def metrics_init_def dict_get_default_def)
  show ?thesis using g single_flight_enter [OF r1 g] by simp
qed

end
