(* ===== verification/Dns_Handler.thy ===== *)
theory Dns_Handler
  imports Memory_Cache Single_Flight Py_String
begin

text \<open>
  The query handler of \<^verbatim>\<open>dns/handler.py\<close>. A coroutine runs without interruption between two
  suspension points, so each of its segments is one definition: the part of \<open>handle\<close> up to the await
  of a flight and the part after it; the part of a resolve or refresh task up to the upstream query
  and the part after it; the part of a refresh worker up to the await and the part after it. The lock
  of the flight group is never contended, so entering a flight does not suspend. A task's result is
  an object shared by everyone who awaits it: the table \<open>task_state\<close> holds it, and a caller that
  writes to it (the transaction id) writes to the shared object.
\<close>

section \<open>Configuration and state\<close>

record handler_config =
  upstream_timeout_s :: real
  refresh_watch_timeout_s :: real
  refresh_queue_max :: int
  refresh_enabled :: bool
  refresh_ahead_seconds :: int
  refresh_popularity_threshold :: int
  refresh_popularity_decay_seconds :: int
  refresh_tick_ms :: int
  refresh_batch_size :: int
  refresh_concurrency :: int

definition default_handler_config :: handler_config where
  "default_handler_config =
     \<lparr>upstream_timeout_s = 2, refresh_watch_timeout_s = 5, refresh_queue_max = 1024,
      refresh_enabled = False, refresh_ahead_seconds = 30, refresh_popularity_threshold = 5,
      refresh_popularity_decay_seconds = 0, refresh_tick_ms = 500, refresh_batch_size = 50,
      refresh_concurrency = 5\<rparr>"

text \<open>The keys of flights: a cache key for a resolve, the pair \<^verbatim>\<open>("refresh", key)\<close> for a refresh.\<close>

datatype flight_key = Resolve cache_key | Refresh cache_key

text \<open>
  The two coroutines that run as flights, with the arguments their closures capture, and the state
  of such a task: created, awaiting the upstream (with the wire query and the request id it passed),
  or finished with a value or an exception.
\<close>

datatype job =
    ResolveJob (job_request: dns_record) (job_key: cache_key) (job_qname: string) (job_qtype: string)
  | RefreshJob (job_key: cache_key) (job_qname: string) (job_qtype: string)

datatype task_result = Returned "dns_record option" | Raised exn

datatype task_state = Created job | Querying job bytes string | Finished task_result

fun flight_key_of :: "job \<Rightarrow> flight_key" where
  "flight_key_of (ResolveJob _ key _ _) = Resolve key"
| "flight_key_of (RefreshJob key _ _) = Refresh key"

text \<open>The background tasks the handler starts.\<close>

datatype background = ScanLoop | RefreshWorker nat

record handler =
  h_config :: handler_config
  h_cache :: cache
  h_metrics :: "metrics option"
  h_flights :: "flight_key flights"
  h_tasks :: "nat \<rightharpoonup> task_state"
  refresh_queue :: "(cache_key \<times> string) list"
  unfinished_jobs :: nat
  queued_keys :: "cache_key set"
  inflight_keys :: "cache_key set"
  refresh_tasks :: "background list"

definition handler_init :: "handler_config \<Rightarrow> cache \<Rightarrow> metrics option \<Rightarrow> handler" where
  "handler_init cfg c M =
     \<lparr>h_config = cfg, h_cache = c, h_metrics = M, h_flights = flights_init, h_tasks = Map.empty,
      refresh_queue = [], unfinished_jobs = 0, queued_keys = {}, inflight_keys = {}, refresh_tasks = []\<rparr>"

abbreviation count :: "string \<Rightarrow> handler \<Rightarrow> handler" where
  "count name h \<equiv> h\<lparr>h_metrics := inc name (h_metrics h)\<rparr>"

section \<open>Refresh queue\<close>

text \<open>\<^verbatim>\<open>asyncio.Queue.full()\<close>: a size of zero or less means unbounded.\<close>

definition queue_full :: "handler \<Rightarrow> bool" where
  "queue_full h \<longleftrightarrow>
     0 < refresh_queue_max (h_config h) \<and>
     refresh_queue_max (h_config h) \<le> int (length (refresh_queue h))"

definition enqueue_refresh :: "cache_key \<Rightarrow> string \<Rightarrow> handler \<Rightarrow> bool \<times> handler" where
  "enqueue_refresh key reason h =
     (if key \<in> queued_keys h \<or> key \<in> inflight_keys h then
        (False, count ''cache_refresh_dropped_total{reason=duplicate}'' h)
      else if queue_full h then
        (False, count ''cache_refresh_dropped_total{reason=queue_full}'' h)
      else
        (True, count ''cache_refresh_enqueued_total''
           (h\<lparr>refresh_queue := refresh_queue h @ [(key, reason)],
              unfinished_jobs := Suc (unfinished_jobs h),
              queued_keys := insert key (queued_keys h)\<rparr>)))"

section \<open>Flights\<close>

text \<open>Entering a flight; a leader's coroutine becomes a created task.\<close>

definition enter_task :: "job \<Rightarrow> handler \<Rightarrow> (nat \<times> bool) \<times> handler" where
  "enter_task j h =
     (case get_or_create (flight_key_of j) (h_flights h) (h_metrics h) of
        ((t, leader), sf, M) \<Rightarrow>
          ((t, leader),
           h\<lparr>h_flights := sf, h_metrics := M,
             h_tasks := (if leader then (h_tasks h)(t \<mapsto> Created j) else h_tasks h)\<rparr>))"

definition end_task :: "nat \<Rightarrow> task_result \<Rightarrow> handler \<Rightarrow> handler" where
  "end_task t r h =
     h\<lparr>h_flights := task_done t (h_flights h), h_tasks := (h_tasks h)(t \<mapsto> Finished r)\<rparr>"

definition qtype_mapping :: "dnslib \<Rightarrow> int \<Rightarrow> int \<times> string" where
  "qtype_mapping L qtype =
     (qtype, case qtype_name L qtype of Inr n \<Rightarrow> n | Inl _ \<Rightarrow> str_int qtype)"

definition class_text :: "dnslib \<Rightarrow> int \<Rightarrow> string" where
  "class_text L qclass = (case class_name L qclass of Inr n \<Rightarrow> n | Inl _ \<Rightarrow> str_int qclass)"

definition with_txid :: "dns_record \<Rightarrow> dns_record \<Rightarrow> dns_record" where
  "with_txid request response = response\<lparr>hdr_id := hdr_id request\<rparr>"

definition schedule_refresh :: "cache_key \<Rightarrow> string \<Rightarrow> string \<Rightarrow> handler \<Rightarrow> handler" where
  "schedule_refresh key qname qtype h =
     (case enter_task (RefreshJob key qname qtype) h of
        ((t, leader), h1) \<Rightarrow> if leader then count ''swr_refresh_triggered_total'' h1 else h1)"

text \<open>
  The task that watches a started refresh only logs: the result it saw within the timeout, or none.
\<close>

datatype watch_log = RefreshOk | RefreshFail | RefreshTimeout | RefreshError exn

definition watch_refresh :: "task_result option \<Rightarrow> watch_log result" where
  "watch_refresh seen =
     (case seen of
        None \<Rightarrow> Inr RefreshTimeout
      | Some (Returned None) \<Rightarrow> Inr RefreshFail
      | Some (Returned (Some _)) \<Rightarrow> Inr RefreshOk
      | Some (Raised x) \<Rightarrow>
          if x = TimeoutError then Inr RefreshTimeout
          else if is_Exception x then Inr (RefreshError x) else Inl x)"

section \<open>handle\<close>

text \<open>
  The outcome of a segment of \<open>handle\<close>: a reply (and, when it is the shared result of a task, the
  number of that task), an exception, or suspension until a task ends.
\<close>

datatype handle_result = Reply dns_record "nat option" | Fail exn | Await nat

definition cache_reads ::
  "(dnslib \<Rightarrow> time \<Rightarrow> cache_key \<Rightarrow> cache \<Rightarrow> metrics option \<Rightarrow> bytes option \<times> cache \<times> metrics option)
     \<Rightarrow> dnslib \<Rightarrow> time \<Rightarrow> cache_key \<Rightarrow> handler \<Rightarrow> bytes option \<times> handler" where
  "cache_reads get L now key h =
     (case get L now key (h_cache h) (h_metrics h) of
        (r, c, M) \<Rightarrow> (r, h\<lparr>h_cache := c, h_metrics := M\<rparr>))"

text \<open>An absent value and an empty byte string are both false.\<close>

definition truthy :: "bytes option \<Rightarrow> bool" where
  "truthy r \<longleftrightarrow> (case r of None \<Rightarrow> False | Some w \<Rightarrow> w \<noteq> [])"

definition reply_from_wire :: "dnslib \<Rightarrow> dns_record \<Rightarrow> bytes \<Rightarrow> handle_result" where
  "reply_from_wire L request w =
     (case parse L w of Inl x \<Rightarrow> Fail x | Inr resp \<Rightarrow> Reply (with_txid request resp) None)"

text \<open>Serving a stale answer: count it, queue a refresh, start one in the background, reply.\<close>

definition serve_stale ::
  "dnslib \<Rightarrow> dns_record \<Rightarrow> cache_key \<Rightarrow> string \<Rightarrow> string \<Rightarrow> bytes \<Rightarrow> handler \<Rightarrow> handle_result \<times> handler" where
  "serve_stale L request key qname qtype w h =
     (let h1 = count ''cache_hit_stale_total'' h;
          h2 = snd (enqueue_refresh key ''stale_served'' h1);
          h3 = schedule_refresh key qname qtype h2
      in (reply_from_wire L request w, h3))"

definition query_name :: "question \<Rightarrow> string" where
  "query_name q = lower (rstrip_char CHR ''.'' (q_name q))"

definition query_key :: "question \<Rightarrow> cache_key" where
  "query_key q = (query_name q, q_type q, q_class q)"

text \<open>\<open>handle\<close> up to the await of the flight.\<close>

definition handle_start ::
  "dnslib \<Rightarrow> time \<Rightarrow> time \<Rightarrow> dns_record \<Rightarrow> handler \<Rightarrow> handle_result \<times> handler" where
  "handle_start L now1 now2 request h =
     (case questions request of
        [] \<Rightarrow> (Reply ((reply L request)\<lparr>hdr_rcode := FORMERR L\<rparr>) None, h)
      | q # _ \<Rightarrow>
          (let qname = query_name q;
               h0 = count ''queries_total'' h;
               (qtype_id, qtype_name) = qtype_mapping L (q_type q);
               key = (qname, qtype_id, q_class q);
               (fresh, h1) = cache_reads get_fresh L now1 key h0
           in
           if truthy fresh then
             (reply_from_wire L request (the fresh), count ''cache_hit_fresh_total'' h1)
           else
             (let (stale, h2) = cache_reads get_stale L now2 key h1 in
              if truthy stale then serve_stale L request key qname qtype_name (the stale) h2
              else
                (let ((t, leader), h3) =
                       enter_task (ResolveJob request key qname qtype_name)
                         (count ''cache_miss_total'' h2)
                 in (Await t, h3)))))"

text \<open>
  \<open>handle\<close> after the await. The shared result object gets this request's id; any exception but a
  cancellation counts as no answer, and then a stale entry that appeared meanwhile is served.
\<close>

definition handle_resume ::
  "dnslib \<Rightarrow> time \<Rightarrow> dns_record \<Rightarrow> nat \<Rightarrow> task_result \<Rightarrow> handler \<Rightarrow> handle_result \<times> handler" where
  "handle_resume L now request t res h =
     (case res of
        Returned (Some resp) \<Rightarrow>
          (let resp' = with_txid request resp in
           (Reply resp' (Some t), h\<lparr>h_tasks := (h_tasks h)(t \<mapsto> Finished (Returned (Some resp')))\<rparr>))
      | Raised CancelledError \<Rightarrow> (Fail CancelledError, h)
      | _ \<Rightarrow>
          (case questions request of
             [] \<Rightarrow> (Fail OtherError, h)
           | q # _ \<Rightarrow>
               (let (stale, h1) = cache_reads get_stale L now (query_key q) h in
                if truthy stale then
                  serve_stale L request (query_key q) (query_name q)
                    (snd (qtype_mapping L (q_type q))) (the stale) h1
                else
                  (Reply (with_txid request ((reply L request)\<lparr>hdr_rcode := SERVFAIL L\<rparr>)) None, h1))))"

section \<open>Upstream queries\<close>

text \<open>
  \<open>_query_upstream\<close>. \<open>with_id\<close> is the outcome of calling the upstream with a request id,
  \<open>plain\<close> of calling it without; the second call is made when there is no id or the first one raised
  TypeError. A cancellation is the only exception that leaves.
\<close>

definition query_upstream ::
  "string option \<Rightarrow> bytes option result \<Rightarrow> bytes option result \<Rightarrow> metrics option
     \<Rightarrow> bytes option result \<times> metrics option" where
  "query_upstream request_id with_id plain M =
     (let resp = (case request_id of
                    None \<Rightarrow> plain
                  | Some _ \<Rightarrow> (case with_id of Inl TypeError \<Rightarrow> plain | _ \<Rightarrow> with_id))
      in case resp of
           Inl x \<Rightarrow> if is_Exception x then (Inr None, inc ''upstream_fail_total'' M) else (Inl x, M)
         | Inr None \<Rightarrow> (Inr None, inc ''upstream_fail_total'' M)
         | Inr (Some data) \<Rightarrow> (Inr (Some data), M))"

text \<open>The first segment of \<open>_resolve_upstream\<close> and of \<open>_refresh_once_tracked\<close>.\<close>

definition refresh_request :: "dnslib \<Rightarrow> cache_key \<Rightarrow> string \<Rightarrow> string \<Rightarrow> dns_record result" where
  "refresh_request L key qname qtype =
     (case key of (_, _, qclass_id) \<Rightarrow> mk_question L qname qtype (class_text L qclass_id))"

definition untrack :: "cache_key \<Rightarrow> handler \<Rightarrow> handler" where
  "untrack key h = h\<lparr>inflight_keys := inflight_keys h - {key}\<rparr>"

definition track :: "cache_key \<Rightarrow> handler \<Rightarrow> handler" where
  "track key h = h\<lparr>queued_keys := queued_keys h - {key}, inflight_keys := insert key (inflight_keys h)\<rparr>"

definition start_task :: "dnslib \<Rightarrow> nat \<Rightarrow> job \<Rightarrow> handler \<Rightarrow> handler" where
  "start_task L t j h =
     (case j of
        ResolveJob request key qname qtype \<Rightarrow>
          (case pack L request of
             Inl x \<Rightarrow> end_task t (Raised x) h
           | Inr wire \<Rightarrow>
               h\<lparr>h_tasks := (h_tasks h)(t \<mapsto> Querying j wire (str_int (hdr_id request)))\<rparr>)
      | RefreshJob key qname qtype \<Rightarrow>
          (let h1 = track key h in
           case refresh_request L key qname qtype of
             Inl _ \<Rightarrow> end_task t (Returned None) (untrack key h1)
           | Inr request \<Rightarrow>
               (case pack L request of
                  Inl x \<Rightarrow> end_task t (Raised x) (untrack key h1)
                | Inr wire \<Rightarrow>
                    h1\<lparr>h_tasks := (h_tasks h1)(t \<mapsto>
                       Querying j wire (''refresh-'' @ qname @ ''-'' @ qtype))\<rparr>)))"

text \<open>
  What both tasks do with the upstream's answer: parse it and store it in the cache. An answer that
  does not parse counts as none; an exception of the insertion leaves the task.
\<close>

definition absorb_answer ::
  "dnslib \<Rightarrow> time \<Rightarrow> time \<Rightarrow> cache_key \<Rightarrow> bytes option result \<Rightarrow> handler \<Rightarrow> task_result \<times> handler" where
  "absorb_answer L now now_e key ans h =
     (case ans of
        Inl x \<Rightarrow> (Raised x, h)
      | Inr None \<Rightarrow> (Returned None, h)
      | Inr (Some data) \<Rightarrow>
          (case parse L data of
             Inl x \<Rightarrow> (if is_Exception x then Returned None else Raised x, h)
           | Inr resp \<Rightarrow>
               (case put L now now_e key resp (h_cache h) (h_metrics h) of
                  (Inl x, c, M) \<Rightarrow> (Raised x, h\<lparr>h_cache := c, h_metrics := M\<rparr>)
                | (Inr _, c, M) \<Rightarrow> (Returned (Some resp), h\<lparr>h_cache := c, h_metrics := M\<rparr>))))"

definition finish_task ::
  "dnslib \<Rightarrow> time \<Rightarrow> time \<Rightarrow> nat \<Rightarrow> job \<Rightarrow> string \<Rightarrow> bytes option result \<Rightarrow> bytes option result \<Rightarrow> handler \<Rightarrow> handler" where
  "finish_task L now now_e t j request_id with_id plain h =
     (let (ans, M) = query_upstream (Some request_id) with_id plain (h_metrics h);
          (res, h1) = absorb_answer L now now_e (job_key j) ans (h\<lparr>h_metrics := M\<rparr>);
          h2 = (case j of ResolveJob _ _ _ _ \<Rightarrow> h1 | RefreshJob key _ _ \<Rightarrow> untrack key h1)
      in end_task t res h2)"

text \<open>Cancelling a task: one that has not started never runs, one that awaits the upstream unwinds.\<close>

definition cancel_task :: "nat \<Rightarrow> task_state \<Rightarrow> handler \<Rightarrow> handler" where
  "cancel_task t st h =
     (case st of
        Created j \<Rightarrow> end_task t (Raised CancelledError) h
      | Querying j _ _ \<Rightarrow>
          end_task t (Raised CancelledError)
            (case j of ResolveJob _ _ _ _ \<Rightarrow> h | RefreshJob key _ _ \<Rightarrow> untrack key h)
      | Finished _ \<Rightarrow> h)"

section \<open>Background refresh\<close>

text \<open>
  The eligibility test, written twice in the source (in the scan and in the worker): not expired,
  within the refresh-ahead window, popular enough, and, with a decay window, hit recently enough.
\<close>

definition refresh_eligible :: "handler_config \<Rightarrow> time \<Rightarrow> cache_entry \<Rightarrow> bool" where
  "refresh_eligible cfg now e =
     (let remaining = expires_at e - now in
      if remaining < 0 then False
      else if remaining > of_int (refresh_ahead_seconds cfg) then False
      else if hits e < refresh_popularity_threshold cfg then False
      else if 0 < refresh_popularity_decay_seconds cfg then
        (if last_hit_mono e \<le> 0 then False
         else if now - last_hit_mono e > of_int (refresh_popularity_decay_seconds cfg) then False
         else True)
      else True)"

fun scan_loop :: "time \<Rightarrow> (cache_key \<times> cache_entry) list \<Rightarrow> int \<Rightarrow> handler \<Rightarrow> handler" where
  "scan_loop now [] enqueued h = h"
| "scan_loop now ((key, e) # entries) enqueued h =
     (if \<not> refresh_eligible (h_config h) now e then scan_loop now entries enqueued h
      else
        (case enqueue_refresh key ''tick'' h of
           (True, h1) \<Rightarrow>
             if refresh_batch_size (h_config h1) \<le> enqueued + 1 then h1
             else if queue_full h1 then h1
             else scan_loop now entries (enqueued + 1) h1
         | (False, h1) \<Rightarrow> if queue_full h1 then h1 else scan_loop now entries enqueued h1))"

definition refresh_scan_tick :: "time \<Rightarrow> handler \<Rightarrow> handler" where
  "refresh_scan_tick now h = scan_loop now (entries_snapshot (h_cache h)) 0 h"

text \<open>The pause between two scans, in seconds.\<close>

definition scan_interval :: "handler_config \<Rightarrow> real" where
  "scan_interval cfg = max 0 (of_int (refresh_tick_ms cfg) / 1000)"

text \<open>The first segment of \<open>_refresh_via_worker\<close>: done with a result, or awaiting a flight.\<close>

datatype worker_result = WorkerDone bool string | WorkerAwait nat

definition refresh_via_worker :: "dnslib \<Rightarrow> time \<Rightarrow> cache_key \<Rightarrow> handler \<Rightarrow> worker_result \<times> handler" where
  "refresh_via_worker L now key h =
     (if \<not> refresh_enabled (h_config h) then (WorkerDone False ''skipped'', h)
      else
        (case peek key (h_cache h) of
           None \<Rightarrow> (WorkerDone False ''skipped'', h)
         | Some e \<Rightarrow>
             if \<not> refresh_eligible (h_config h) now e then (WorkerDone False ''skipped'', h)
             else
               (case key of (qname, qtype_id, qclass_id) \<Rightarrow>
                  (let qtype_name = snd (qtype_mapping L qtype_id) in
                   case refresh_request L key qname qtype_name of
                     Inl _ \<Rightarrow> (WorkerDone True ''fail'', h)
                   | Inr request \<Rightarrow>
                       (let ((t, leader), h1) = enter_task (ResolveJob request key qname qtype_name) h
                        in (WorkerAwait t, h1))))))"

text \<open>The \<^verbatim>\<open>finally\<close> block of the worker loop.\<close>

definition worker_finally :: "cache_key \<Rightarrow> bool \<Rightarrow> string \<Rightarrow> bool \<Rightarrow> handler \<Rightarrow> handler" where
  "worker_finally key attempted outcome cancelled h =
     (let h1 = (if attempted then count ''cache_refresh_started_total'' h else h);
          h2 = (if \<not> cancelled then count (''cache_refresh_completed_total{result='' @ outcome @ ''}'') h1 else h1)
      in (untrack key h2)\<lparr>unfinished_jobs := unfinished_jobs h2 - 1\<rparr>)"

text \<open>A worker takes the head of the queue and runs up to its suspension or its end.\<close>

definition worker_take :: "dnslib \<Rightarrow> time \<Rightarrow> handler \<Rightarrow> ((cache_key \<times> nat) option \<times> handler) option" where
  "worker_take L now h =
     (case refresh_queue h of
        [] \<Rightarrow> None
      | (key, reason) # rest \<Rightarrow>
          (case refresh_via_worker L now key (track key (h\<lparr>refresh_queue := rest\<rparr>)) of
             (WorkerDone attempted outcome, h1) \<Rightarrow>
               Some (None, worker_finally key attempted outcome False h1)
           | (WorkerAwait t, h1) \<Rightarrow> Some (Some (key, t), h1)))"

definition worker_resume :: "cache_key \<Rightarrow> task_result \<Rightarrow> handler \<Rightarrow> handler" where
  "worker_resume key res h =
     (case res of
        Returned None \<Rightarrow> worker_finally key True ''fail'' False h
      | Returned (Some _) \<Rightarrow> worker_finally key True ''success'' False h
      | Raised x \<Rightarrow>
          if is_Exception x then worker_finally key True ''fail'' False h
          else worker_finally key False ''skipped'' True h)"

definition start_refresh_tasks :: "handler \<Rightarrow> background list \<times> handler" where
  "start_refresh_tasks h =
     (if \<not> refresh_enabled (h_config h) then ([], h)
      else if refresh_tasks h \<noteq> [] then (refresh_tasks h, h)
      else
        (let ts = ScanLoop # map RefreshWorker [0..<nat (refresh_concurrency (h_config h))]
         in (ts, h\<lparr>refresh_tasks := ts\<rparr>)))"

section \<open>Lemmas on the segments\<close>

lemma truthy_simps [simp]: "\<not> truthy None" "truthy (Some w) \<longleftrightarrow> w \<noteq> []"
  by (simp_all add: truthy_def)

lemma truthyE: assumes "truthy r" obtains w where "r = Some w" and "w \<noteq> []"
  using assms by (cases r) auto

text \<open>
  The two cache reads change the cache and the metrics only, and keep what readers can observe.
\<close>

lemma cache_reads_eq:
  "cache_reads get L now key h =
     (fst (get L now key (h_cache h) (h_metrics h)),
      h\<lparr>h_cache := fst (snd (get L now key (h_cache h) (h_metrics h))),
        h_metrics := snd (snd (get L now key (h_cache h) (h_metrics h)))\<rparr>)"
  by (simp add: cache_reads_def split: prod.split)

lemma enqueue_refresh_same [handler_simps]:
  "h_config (snd (enqueue_refresh key r h)) = h_config h"
  "h_cache (snd (enqueue_refresh key r h)) = h_cache h"
  "h_flights (snd (enqueue_refresh key r h)) = h_flights h"
  "h_tasks (snd (enqueue_refresh key r h)) = h_tasks h"
  "inflight_keys (snd (enqueue_refresh key r h)) = inflight_keys h"
  "refresh_tasks (snd (enqueue_refresh key r h)) = refresh_tasks h"
  by (simp_all add: enqueue_refresh_def)

lemma enter_task_same [handler_simps]:
  "h_config (snd (enter_task j h)) = h_config h"
  "h_cache (snd (enter_task j h)) = h_cache h"
  "refresh_queue (snd (enter_task j h)) = refresh_queue h"
  "unfinished_jobs (snd (enter_task j h)) = unfinished_jobs h"
  "queued_keys (snd (enter_task j h)) = queued_keys h"
  "inflight_keys (snd (enter_task j h)) = inflight_keys h"
  "refresh_tasks (snd (enter_task j h)) = refresh_tasks h"
  by (simp_all add: enter_task_def split: prod.split)

lemma enter_task_flights:
  "h_flights (snd (enter_task j h)) = fst (snd (get_or_create (flight_key_of j) (h_flights h) (h_metrics h)))"
  "fst (enter_task j h) = fst (get_or_create (flight_key_of j) (h_flights h) (h_metrics h))"
  "h_metrics (snd (enter_task j h)) = snd (snd (get_or_create (flight_key_of j) (h_flights h) (h_metrics h)))"
  by (simp_all add: enter_task_def split: prod.split)

text \<open>After entering, the caller's task is the running flight of its key; other flights are as before.\<close>

lemma enter_task_flight_of:
  assumes "flights_ok (h_flights h)"
  shows "flight_of (h_flights (snd (enter_task j h))) =
    (flight_of (h_flights h))(flight_key_of j \<mapsto> fst (fst (enter_task j h)))"
proof -
  let ?s = "(h_flights h, h_metrics h)"
  from assms have ok: "flights_ok (fst ?s)" by simp
  show ?thesis
    using sfc.entered_running [OF ok, of "flight_key_of j"] sfc.other_keys_untouched [OF ok, of _ "flight_key_of j"]
    by (auto simp: enter_task_flights)
qed

lemma enter_task_ok: "flights_ok (h_flights h) \<Longrightarrow> flights_ok (h_flights (snd (enter_task j h)))"
  by (simp add: enter_task_flights get_or_create_ok)

lemma schedule_refresh_eq:
  "schedule_refresh key qname qtype h =
     (let r = enter_task (RefreshJob key qname qtype) h in
      if snd (fst r) then count ''swr_refresh_triggered_total'' (snd r) else snd r)"
  by (simp add: schedule_refresh_def Let_def split: prod.split)

lemma schedule_refresh_same [handler_simps]:
  "h_config (schedule_refresh key n ty h) = h_config h"
  "h_cache (schedule_refresh key n ty h) = h_cache h"
  "refresh_queue (schedule_refresh key n ty h) = refresh_queue h"
  "unfinished_jobs (schedule_refresh key n ty h) = unfinished_jobs h"
  "queued_keys (schedule_refresh key n ty h) = queued_keys h"
  "inflight_keys (schedule_refresh key n ty h) = inflight_keys h"
  "h_tasks (schedule_refresh key n ty h) = h_tasks (snd (enter_task (RefreshJob key n ty) h))"
  "h_flights (schedule_refresh key n ty h) = h_flights (snd (enter_task (RefreshJob key n ty) h))"
  by (simp_all add: schedule_refresh_eq Let_def handler_simps)

text \<open>\<open>handle_start\<close> with its case analysis on the cache made explicit.\<close>

datatype tier = FreshHit bytes | StaleHit bytes | Miss

definition lookup_tier :: "cache \<Rightarrow> time \<Rightarrow> time \<Rightarrow> cache_key \<Rightarrow> tier" where
  "lookup_tier c t1 t2 key =
     (case cache_view c key of
        None \<Rightarrow> Miss
      | Some (w, ex, st) \<Rightarrow>
          if w = [] then Miss
          else if t1 \<le> ex then FreshHit w
          else if ex < t2 \<and> t2 \<le> st then StaleHit w else Miss)"

definition after_fresh :: "dnslib \<Rightarrow> time \<Rightarrow> question \<Rightarrow> handler \<Rightarrow> handler" where
  "after_fresh L t1 q h = snd (cache_reads get_fresh L t1 (query_key q) (count ''queries_total'' h))"

definition after_stale :: "dnslib \<Rightarrow> time \<Rightarrow> time \<Rightarrow> question \<Rightarrow> handler \<Rightarrow> handler" where
  "after_stale L t1 t2 q h = snd (cache_reads get_stale L t2 (query_key q) (after_fresh L t1 q h))"

lemma after_reads_same [handler_simps]:
  "h_flights (after_fresh L t1 q h) = h_flights h" "h_tasks (after_fresh L t1 q h) = h_tasks h"
  "refresh_queue (after_fresh L t1 q h) = refresh_queue h"
  "h_flights (after_stale L t1 t2 q h) = h_flights h" "h_tasks (after_stale L t1 t2 q h) = h_tasks h"
  "refresh_queue (after_stale L t1 t2 q h) = refresh_queue h"
  "cache_view (h_cache (after_fresh L t1 q h)) = cache_view (h_cache h)"
  "cache_view (h_cache (after_stale L t1 t2 q h)) = cache_view (h_cache h)"
  by (simp_all add: after_fresh_def after_stale_def cache_reads_eq get_fresh_view get_stale_view)

lemma handle_start_eq:
  assumes "questions request = q # qs"
  shows "handle_start L t1 t2 request h =
    (case lookup_tier (h_cache h) t1 t2 (query_key q) of
       FreshHit w \<Rightarrow> (reply_from_wire L request w, count ''cache_hit_fresh_total'' (after_fresh L t1 q h))
     | StaleHit w \<Rightarrow>
         serve_stale L request (query_key q) (query_name q) (snd (qtype_mapping L (q_type q))) w
           (after_stale L t1 t2 q h)
     | Miss \<Rightarrow>
         (let r = enter_task (ResolveJob request (query_key q) (query_name q) (snd (qtype_mapping L (q_type q))))
                    (count ''cache_miss_total'' (after_stale L t1 t2 q h))
          in (Await (fst (fst r)), snd r)))"
proof -
  have k: "(query_name q, q_type q, q_class q) = query_key q" by (simp add: query_key_def)
  show ?thesis
    using assms
    by (auto simp: handle_start_def lookup_tier_def after_fresh_def after_stale_def k qtype_mapping_def
        cache_reads_eq get_fresh_result get_stale_result get_fresh_view Let_def
        split: option.split prod.split)
qed

section \<open>Properties of a query\<close>

text \<open>
  C3. What a query with a question does, decided by the cache alone. A fresh answer is replied at
  once and nothing is started or queued. A stale answer is replied at once too, and afterwards a
  refresh flight of that key is running, with every other flight as before. Otherwise the client
  awaits the running resolve flight of its key, with every other flight and the refresh queue as
  before. In no case do the answers the cache can give change.
\<close>

theorem handle_start_tiers:
  assumes "questions request = q # qs" and "flights_ok (h_flights h)"
  shows "case handle_start L t1 t2 request h of (r, h') \<Rightarrow>
    cache_view (h_cache h') = cache_view (h_cache h) \<and>
    (case lookup_tier (h_cache h) t1 t2 (query_key q) of
       FreshHit w \<Rightarrow>
         r = reply_from_wire L request w \<and> h_flights h' = h_flights h \<and> h_tasks h' = h_tasks h \<and>
         refresh_queue h' = refresh_queue h
     | StaleHit w \<Rightarrow>
         r = reply_from_wire L request w \<and>
         (\<exists>t. flight_of (h_flights h') = (flight_of (h_flights h))(Refresh (query_key q) \<mapsto> t))
     | Miss \<Rightarrow>
         (\<exists>t. r = Await t \<and>
            flight_of (h_flights h') = (flight_of (h_flights h))(Resolve (query_key q) \<mapsto> t) \<and>
            refresh_queue h' = refresh_queue h))"
  using assms(2)
  by (auto simp: handle_start_eq [OF assms(1)] serve_stale_def Let_def handler_simps enter_task_flight_of
      split: tier.split)

definition sample_handler :: "store_dict \<Rightarrow> handler" where
  "sample_handler s = handler_init default_handler_config (sample_cache 2 s) (Some metrics_init)"

lemmas sample_handler_simps = sample_handler_def handler_init_def sample_cache_def sample_entry_def

lemma sample_query_key:
  "query_key (hd (questions (sample_msg i rc as))) = (''example.com'', 1, 1)"
  by (simp add: sample_msg_def query_key_def query_name_def) code_simp

lemma handle_start_tiers_witness:
  "\<exists>t h'. handle_start sample_lib 1 1 (sample_msg 5 0 []) (sample_handler []) = (Await t, h') \<and>
     flight_of (h_flights h') (Resolve (''example.com'', 1, 1)) = Some t"
proof -
  let ?m = "sample_msg 5 0 []"
  have q: "questions ?m = hd (questions ?m) # []" by (simp add: sample_msg_def)
  have ok: "flights_ok (h_flights (sample_handler []))"
    by (simp add: sample_handler_simps flights_init_ok)
  have "lookup_tier (h_cache (sample_handler [])) 1 1 (query_key (hd (questions ?m))) = Miss"
    by (simp add: lookup_tier_def cache_view_def sample_handler_simps)
  then show ?thesis
    using handle_start_tiers [OF q ok, of sample_lib 1 1]
    by (auto simp: sample_query_key split: prod.splits)
qed

text \<open>
  The case analysis of the resumed client: a shared answer, a cancellation, or no answer.
\<close>

definition no_answer :: "task_result \<Rightarrow> bool" where
  "no_answer res \<longleftrightarrow> res = Returned None \<or> (\<exists>x. res = Raised x \<and> x \<noteq> CancelledError)"

lemma handle_resume_no_answer:
  assumes "questions request = q # qs" and "no_answer res"
  shows "handle_resume L now request t res h =
    (let h1 = snd (cache_reads get_stale L now (query_key q) h);
         stale = fst (cache_reads get_stale L now (query_key q) h)
     in if truthy stale then
          serve_stale L request (query_key q) (query_name q) (snd (qtype_mapping L (q_type q))) (the stale) h1
        else (Reply (with_txid request ((reply L request)\<lparr>hdr_rcode := SERVFAIL L\<rparr>)) None, h1))"
  using assms
  by (auto simp: handle_resume_def no_answer_def cache_reads_eq Let_def split: task_result.splits exn.splits)

text \<open>
  C13. What a client that awaited a resolve flight gets. An answer is replied under the client's own
  transaction id. Without an answer (the upstream failed, or the flight raised anything but a
  cancellation) the reply is SERVFAIL, under the client's id and with no flight started, exactly when
  the cache has no usable stale answer; otherwise the stale answer is replied and a refresh flight
  runs. A cancelled flight cancels the client.
\<close>

theorem handle_resume_outcome:
  assumes "questions request = q # qs" and "flights_ok (h_flights h)"
  shows "case handle_resume L now request t res h of (r, h') \<Rightarrow>
    cache_view (h_cache h') = cache_view (h_cache h) \<and>
    (if res = Raised CancelledError then r = Fail CancelledError
     else case res of
       Returned (Some resp) \<Rightarrow> r = Reply (resp\<lparr>hdr_id := hdr_id request\<rparr>) (Some t)
     | _ \<Rightarrow>
         (case fst (get_stale L now (query_key q) (h_cache h) (h_metrics h)) of
            Some (b # w) \<Rightarrow>
              r = reply_from_wire L request (b # w) \<and>
              (\<exists>u. flight_of (h_flights h') = (flight_of (h_flights h))(Refresh (query_key q) \<mapsto> u))
          | _ \<Rightarrow>
              (\<exists>m. r = Reply m None \<and> hdr_rcode m = SERVFAIL L \<and> hdr_id m = hdr_id request) \<and>
              h_flights h' = h_flights h))"
proof (cases "no_answer res")
  case True
  let ?stale = "get_stale L now (query_key q) (h_cache h) (h_metrics h)"
  have c: "res \<noteq> Raised CancelledError"
    "(case res of Returned (Some resp) \<Rightarrow> P resp | _ \<Rightarrow> Q) = Q" for P Q
    using True by (auto simp: no_answer_def split: task_result.splits)
  note simps = handle_resume_no_answer [OF assms(1) True] cache_reads_eq Let_def c if_False
  show ?thesis
  proof (cases "truthy (fst ?stale)")
    case True
    then obtain b w where w: "fst ?stale = Some (b # w)" by (auto elim!: truthyE simp: neq_Nil_conv)
    have "cache_view (fst (snd ?stale)) = cache_view (h_cache h)" by (rule get_stale_view)
    then show ?thesis
      using assms(2) by (simp add: simps w serve_stale_def handler_simps enter_task_flight_of) blast
  next
    case False
    then have "fst ?stale = None \<or> fst ?stale = Some []" by (cases "fst ?stale") auto
    then show ?thesis by (auto simp: simps get_stale_view with_txid_def)
  qed
next
  case False
  then consider "res = Raised CancelledError" | resp where "res = Returned (Some resp)"
    by (cases res) (auto simp: no_answer_def)
  then show ?thesis by cases (simp_all add: handle_resume_def with_txid_def Let_def)
qed

lemma handle_resume_outcome_witness:
  "\<exists>m h'. handle_resume sample_lib 1 (sample_msg 5 0 []) 0 (Returned None) (sample_handler []) = (Reply m None, h') \<and>
     hdr_rcode m = 2 \<and> hdr_id m = 5"
proof -
  let ?m = "sample_msg 5 0 []"
  have q: "questions ?m = hd (questions ?m) # []" by (simp add: sample_msg_def)
  have ok: "flights_ok (h_flights (sample_handler []))"
    by (simp add: sample_handler_simps flights_init_ok)
  have "fst (get_stale sample_lib 1 (query_key (hd (questions ?m))) (h_cache (sample_handler []))
      (h_metrics (sample_handler []))) = None"
    by (simp add: get_stale_def sample_handler_simps)
  then show ?thesis
    using handle_resume_outcome [OF q ok, of "Returned None" sample_lib 1 0]
    by (auto simp: sample_msg_def split: prod.splits)
qed

text \<open>
  C33. Every reply of the handler carries the transaction id of the request it answers, on every
  path: malformed request, fresh or stale answer, shared upstream answer, SERVFAIL. The one thing
  assumed of the DNS library is that a reply skeleton keeps the id of its request.
\<close>

theorem replies_carry_request_id:
  assumes "\<And>m. hdr_id (reply L m) = hdr_id m"
    and "handle_start L t1 t2 request h = (Reply m x, h') \<or>
         questions request \<noteq> [] \<and> handle_resume L now request t res h = (Reply m x, h')"
  shows "hdr_id m = hdr_id request"
proof (cases "questions request")
  case Nil
  with assms show ?thesis by (auto simp: handle_start_def)
next
  case (Cons q qs)
  have wire: "hdr_id m = hdr_id request" if "reply_from_wire L request w = Reply m x" for w
    using that by (auto simp: reply_from_wire_def with_txid_def split: sum.splits)
  from assms(2) show ?thesis
  proof
    assume "handle_start L t1 t2 request h = (Reply m x, h')"
    then show ?thesis
      by (auto simp: handle_start_eq [OF Cons] serve_stale_def Let_def split: tier.splits intro: wire)
  next
    assume "questions request \<noteq> [] \<and> handle_resume L now request t res h = (Reply m x, h')"
    then show ?thesis using Cons
      by (auto simp: handle_resume_def cache_reads_eq serve_stale_def with_txid_def Let_def intro: wire
          split: task_result.splits option.splits exn.splits if_splits)
  qed
qed

lemma replies_carry_request_id_witness:
  "\<exists>m h'. handle_start sample_lib 1 1 (sample_msg 9 0 [])
       (sample_handler [(key1, sample_entry 50 60)]) = (Reply m None, h') \<and> hdr_id m = 9"
proof -
  let ?m = "sample_msg 9 0 []" and ?h = "sample_handler [(key1, sample_entry 50 60)]"
  have q: "questions ?m = hd (questions ?m) # []" by (simp add: sample_msg_def)
  have lib: "hdr_id (reply sample_lib m) = hdr_id m" for m by (simp add: sample_lib_def sample_msg_def)
  have "lookup_tier (h_cache ?h) 1 1 (query_key (hd (questions ?m))) = FreshHit [1, 0, 0, 9]"
    by (simp add: sample_query_key lookup_tier_def cache_view_def view_entry_def sample_handler_simps)
  then have "\<exists>m h'. handle_start sample_lib 1 1 ?m ?h = (Reply m None, h')"
    by (simp add: handle_start_eq [OF q] reply_from_wire_def sample_parse_def)
  then obtain m h' where "handle_start sample_lib 1 1 ?m ?h = (Reply m None, h')" by blast
  with replies_carry_request_id [OF lib disjI1 [OF this]] show ?thesis by (auto simp: sample_msg_def)
qed

section \<open>Accounting\<close>

text \<open>The counters a lookup is classified under.\<close>

definition lookups :: "metrics option \<Rightarrow> int" where
  "lookups M = mval M ''cache_hit_fresh_total'' + mval M ''cache_hit_stale_total'' + mval M ''cache_miss_total''"

lemma mval_enter_task [metric_simps]:
  "n \<noteq> ''singleflight_dedup_total'' \<Longrightarrow> mval (h_metrics (snd (enter_task j h))) n = mval (h_metrics h) n"
  unfolding enter_task_flights
  by (cases "flight_key_of j" "h_flights h" "h_metrics h" rule: get_or_create_cases)
    (simp_all add: mval_inc)

lemma metered_enter_task [simp]: "metered (h_metrics (snd (enter_task j h))) = metered (h_metrics h)"
  unfolding enter_task_flights
  by (cases "flight_key_of j" "h_flights h" "h_metrics h" rule: get_or_create_cases) simp_all

lemma metered_enqueue [simp]: "metered (h_metrics (snd (enqueue_refresh k r h))) = metered (h_metrics h)"
  by (simp add: enqueue_refresh_def)

lemma mval_enqueue [metric_simps]:
  "n \<notin> {''cache_refresh_dropped_total{reason=duplicate}'', ''cache_refresh_dropped_total{reason=queue_full}'',
     ''cache_refresh_enqueued_total''} \<Longrightarrow>
   mval (h_metrics (snd (enqueue_refresh k r h))) n = mval (h_metrics h) n"
  by (simp add: enqueue_refresh_def mval_inc)

lemma mval_schedule_refresh [metric_simps]:
  "n \<noteq> ''singleflight_dedup_total'' \<Longrightarrow> n \<noteq> ''swr_refresh_triggered_total'' \<Longrightarrow>
   mval (h_metrics (schedule_refresh key qn ty h)) n = mval (h_metrics h) n"
  by (simp add: schedule_refresh_eq Let_def metric_simps)

lemma metered_schedule_refresh [simp]:
  "metered (h_metrics (schedule_refresh key qn ty h)) = metered (h_metrics h)"
  by (simp add: schedule_refresh_eq Let_def)

lemma after_reads_metrics [metric_simps]:
  "n \<noteq> ''negative_cache_hit_total'' \<Longrightarrow>
     mval (h_metrics (after_fresh L t1 q h)) n = mval (inc ''queries_total'' (h_metrics h)) n"
  "n \<noteq> ''negative_cache_hit_total'' \<Longrightarrow>
     mval (h_metrics (after_stale L t1 t2 q h)) n = mval (inc ''queries_total'' (h_metrics h)) n"
  by (simp_all add: after_fresh_def after_stale_def cache_reads_eq get_fresh_metric get_stale_metric)

lemma metered_after_reads [simp]:
  "metered (h_metrics (after_fresh L t1 q h)) = metered (h_metrics h)"
  "metered (h_metrics (after_stale L t1 t2 q h)) = metered (h_metrics h)"
  by (simp_all add: after_fresh_def after_stale_def cache_reads_eq)

lemma serve_stale_metrics [metric_simps]:
  "n \<in> {''queries_total'', ''cache_hit_fresh_total'', ''cache_hit_stale_total'', ''cache_miss_total''} \<Longrightarrow>
   mval (h_metrics (snd (serve_stale L request key qn ty w h))) n =
     mval (inc ''cache_hit_stale_total'' (h_metrics h)) n"
  by (auto simp: serve_stale_def Let_def metric_simps)

text \<open>
  The query counters. A request with a question adds one to \<open>queries_total\<close> and is classified
  exactly once, as a fresh hit, a stale hit or a miss. A client
  that resumes after its flight is not counted again as a query, but one served a stale answer then
  is classified a second time, as a stale hit on top of its miss.
\<close>

theorem query_accounting:
  assumes "metered (h_metrics h)" and "questions request = q # qs"
  shows "(let h' = snd (handle_start L t1 t2 request h) in
      mval (h_metrics h') ''queries_total'' = mval (h_metrics h) ''queries_total'' + 1 \<and>
      lookups (h_metrics h') = lookups (h_metrics h) + 1) \<and>
    (let h' = snd (handle_resume L now request t res h) in
      mval (h_metrics h') ''queries_total'' = mval (h_metrics h) ''queries_total'' \<and>
      lookups (h_metrics h') = lookups (h_metrics h) +
        of_bool (no_answer res \<and> truthy (fst (get_stale L now (query_key q) (h_cache h) (h_metrics h)))))"
proof -
  have start: "let h' = snd (handle_start L t1 t2 request h) in
      mval (h_metrics h') ''queries_total'' = mval (h_metrics h) ''queries_total'' + 1 \<and>
      lookups (h_metrics h') = lookups (h_metrics h) + 1"
    using assms(1)
    by (simp add: handle_start_eq [OF assms(2)] lookups_def Let_def metric_simps split: tier.split)
  have resume: "let h' = snd (handle_resume L now request t res h) in
      mval (h_metrics h') ''queries_total'' = mval (h_metrics h) ''queries_total'' \<and>
      lookups (h_metrics h') = lookups (h_metrics h) +
        of_bool (no_answer res \<and> truthy (fst (get_stale L now (query_key q) (h_cache h) (h_metrics h))))"
  proof (cases "no_answer res")
    case True
    then show ?thesis
      using assms(1)
      by (simp add: handle_resume_no_answer [OF assms(2)] no_answer_def cache_reads_eq lookups_def
          Let_def metric_simps get_stale_metric)
  next
    case False
    then consider "res = Raised CancelledError" | resp where "res = Returned (Some resp)"
      by (cases res) (auto simp: no_answer_def)
    then show ?thesis using False by cases (simp_all add: handle_resume_def Let_def)
  qed
  from start resume show ?thesis by blast
qed

lemma query_accounting_witness:
  "mval (h_metrics (snd (handle_start sample_lib 1 1 (sample_msg 5 0 []) (sample_handler [])))) ''queries_total'' = 1"
  using query_accounting [of "sample_handler []" "sample_msg 5 0 []" "hd (questions (sample_msg 5 0 []))" "[]"
      sample_lib 1 1]
  by (simp add: sample_msg_def sample_handler_simps Let_def)

section \<open>The refresh queue as a bounded queue without duplicates\<close>

text \<open>
  What the producers of refresh jobs (the stale path, the scan, the warmup loader) rely on. An offer
  is accepted exactly when the key is neither pending nor the queue at its capacity; an accepted job
  goes to the end and makes its key pending; a refused one changes neither. The client lemmas are
  about a whole series of offers.
\<close>

locale offering =
  fixes items :: "'s \<Rightarrow> ('k \<times> 'r) list"
    and pending :: "'s \<Rightarrow> 'k set"
    and capacity :: "'s \<Rightarrow> nat option"
    and offer :: "'k \<Rightarrow> 'r \<Rightarrow> 's \<Rightarrow> bool \<times> 's"
  assumes accept_iff: "fst (offer k r s) \<longleftrightarrow>
      k \<notin> pending s \<and> (\<forall>c. capacity s = Some c \<longrightarrow> length (items s) < c)"
    and offer_items: "items (snd (offer k r s)) = items s @ (if fst (offer k r s) then [(k, r)] else [])"
    and offer_pending: "pending (snd (offer k r s)) = pending s \<union> (if fst (offer k r s) then {k} else {})"
    and offer_capacity: "capacity (snd (offer k r s)) = capacity s"
begin

abbreviation offers :: "('k \<times> 'r) list \<Rightarrow> 's \<Rightarrow> 's" where
  "offers jobs s \<equiv> fold (\<lambda>(k, r) s. snd (offer k r s)) jobs s"

lemma offers_capacity: "capacity (offers jobs s) = capacity s"
  by (induction jobs arbitrary: s) (auto simp: offer_capacity)

lemma offers_items:
  "\<exists>new. items (offers jobs s) = items s @ new \<and> distinct (map fst new) \<and> set new \<subseteq> set jobs \<and>
     fst ` set new \<inter> pending s = {} \<and> pending (offers jobs s) = pending s \<union> fst ` set new"
proof (induction jobs arbitrary: s)
  case (Cons job jobs)
  obtain k r where job: "job = (k, r)" by (cases job)
  let ?s = "snd (offer k r s)"
  obtain new where new: "items (offers jobs ?s) = items ?s @ new" "distinct (map fst new)"
      "set new \<subseteq> set jobs" "fst ` set new \<inter> pending ?s = {}"
      "pending (offers jobs ?s) = pending ?s \<union> fst ` set new"
    using Cons.IH [of ?s] by blast
  show ?case
  proof (cases "fst (offer k r s)")
    case True
    then have k: "k \<notin> pending s" using accept_iff by simp
    have "k \<in> pending ?s" using True by (simp add: offer_pending)
    then have "k \<notin> fst ` set new" using new(4) by blast
    with True new k show ?thesis
      by (intro exI [of _ "(k, r) # new"]) (auto simp: job offer_items offer_pending)
  next
    case False
    then have "items ?s = items s" "pending ?s = pending s" by (simp_all add: offer_items offer_pending)
    with new show ?thesis by (intro exI [of _ new]) (auto simp: job)
  qed
qed auto

lemma offers_bounded:
  assumes "capacity s = Some c" and "length (items s) \<le> c"
  shows "length (items (offers jobs s)) \<le> c"
  using assms
proof (induction jobs arbitrary: s)
  case (Cons job jobs)
  obtain k r where job: "job = (k, r)" by (cases job)
  have "length (items (snd (offer k r s))) \<le> c"
    using Cons.prems accept_iff [of k r s] by (auto simp: offer_items Suc_le_eq)
  with Cons show ?case by (simp add: job offer_capacity)
qed simp

lemma offers_complete:
  assumes "capacity s = None"
  shows "fst ` set jobs \<subseteq> pending (offers jobs s)"
  using assms
proof (induction jobs arbitrary: s)
  case (Cons job jobs)
  obtain k r where job: "job = (k, r)" by (cases job)
  let ?s = "snd (offer k r s)"
  have "k \<in> pending ?s" using Cons.prems accept_iff [of k r s] by (auto simp: offer_pending)
  then have "k \<in> pending (offers jobs ?s)" using offers_items [of jobs ?s] by blast
  with Cons show ?case by (simp add: job offer_capacity)
qed simp

end

definition pending_keys :: "handler \<Rightarrow> cache_key set" where
  "pending_keys h = queued_keys h \<union> inflight_keys h"

definition queue_capacity :: "handler \<Rightarrow> nat option" where
  "queue_capacity h =
     (if 0 < refresh_queue_max (h_config h) then Some (nat (refresh_queue_max (h_config h))) else None)"

lemma queue_full_iff: "queue_full h \<longleftrightarrow> (\<exists>c. queue_capacity h = Some c \<and> c \<le> length (refresh_queue h))"
  by (auto simp: queue_full_def queue_capacity_def)

interpretation rq: offering refresh_queue pending_keys queue_capacity enqueue_refresh
proof unfold_locales
  fix k r h
  show "fst (enqueue_refresh k r h) \<longleftrightarrow>
      k \<notin> pending_keys h \<and> (\<forall>c. queue_capacity h = Some c \<longrightarrow> length (refresh_queue h) < c)"
    by (auto simp: enqueue_refresh_def pending_keys_def queue_full_iff)
qed (auto simp: enqueue_refresh_def pending_keys_def queue_capacity_def)

text \<open>
  Offering a refresh job. It is accepted exactly when its key is neither queued nor being
  refreshed and the queue is not full; then it is the last job of the queue and its key is queued.
  Whatever the outcome, exactly one of the three outcome counters goes up, by one, the cache, the
  flights and the tasks are untouched, and a queue within its limit stays within it.
\<close>

theorem enqueue_refresh_outcome:
  assumes "metered (h_metrics h)"
    and "enqueue_refresh key reason h = (ok, h')"
  shows "(ok \<longleftrightarrow> key \<notin> queued_keys h \<and> key \<notin> inflight_keys h \<and> \<not> queue_full h) \<and>
    refresh_queue h' = refresh_queue h @ (if ok then [(key, reason)] else []) \<and>
    queued_keys h' = queued_keys h \<union> (if ok then {key} else {}) \<and>
    h_cache h' = h_cache h \<and> h_flights h' = h_flights h \<and> h_tasks h' = h_tasks h \<and>
    (let d = (\<lambda>n. mval (h_metrics h') n - mval (h_metrics h) n) in
       d ''cache_refresh_enqueued_total'' = of_bool ok \<and>
       d ''cache_refresh_dropped_total{reason=duplicate}'' = of_bool (key \<in> pending_keys h) \<and>
       d ''cache_refresh_dropped_total{reason=queue_full}'' = of_bool (key \<notin> pending_keys h \<and> queue_full h)) \<and>
    (\<forall>c. queue_capacity h = Some c \<longrightarrow> length (refresh_queue h) \<le> c \<longrightarrow> length (refresh_queue h') \<le> c)"
proof -
  have "length (refresh_queue h') \<le> c"
    if "queue_capacity h = Some c" "length (refresh_queue h) \<le> c" for c
    using rq.offers_bounded [OF that, of "[(key, reason)]"] assms(2) by simp
  with assms show ?thesis
    by (auto simp: enqueue_refresh_def pending_keys_def metric_simps split: if_splits)
qed

lemma enqueue_refresh_outcome_witness:
  "fst (enqueue_refresh key1 ''tick'' (sample_handler [])) \<and>
   \<not> fst (enqueue_refresh key1 ''tick'' (snd (enqueue_refresh key1 ''tick'' (sample_handler []))))"
proof -
  let ?h = "sample_handler []"
  have m: "metered (h_metrics ?h)" by (simp add: sample_handler_simps)
  have "fst (enqueue_refresh key1 ''tick'' ?h)" and "key1 \<in> queued_keys (snd (enqueue_refresh key1 ''tick'' ?h))"
    using enqueue_refresh_outcome [OF m prod.collapse [symmetric], of key1 "''tick''"]
    by (simp_all add: sample_handler_simps queue_full_def default_handler_config_def)
  then show ?thesis by (simp add: enqueue_refresh_def)
qed

section \<open>Proactive refresh\<close>

text \<open>What a scan from a given position adds to the queue.\<close>

definition scan_adds :: "time \<Rightarrow> (cache_key \<times> cache_entry) list \<Rightarrow> int \<Rightarrow> handler \<Rightarrow> handler \<Rightarrow> cache_key list \<Rightarrow> bool" where
  "scan_adds now entries room h h' new \<longleftrightarrow>
     refresh_queue h' = refresh_queue h @ map (\<lambda>k. (k, ''tick'')) new \<and>
     pending_keys h' = pending_keys h \<union> set new \<and>
     distinct new \<and> set new \<inter> pending_keys h = {} \<and>
     (\<forall>k \<in> set new. \<exists>e. (k, e) \<in> set entries \<and> refresh_eligible (h_config h) now e) \<and>
     int (length new) \<le> max 1 room \<and>
     (\<forall>c. queue_capacity h = Some c \<longrightarrow> length (refresh_queue h) \<le> c \<longrightarrow> length (refresh_queue h') \<le> c) \<and>
     (int (length new) < max 1 room \<longrightarrow> \<not> queue_full h' \<longrightarrow>
        (\<forall>(k, e) \<in> set entries. refresh_eligible (h_config h) now e \<longrightarrow> k \<in> pending_keys h'))"

lemma scan_adds_skip:
  "scan_adds now entries room h h' new \<Longrightarrow> \<not> refresh_eligible (h_config h) now e \<Longrightarrow>
   scan_adds now ((k, e) # entries) room h h' new"
  unfolding scan_adds_def by auto

lemma enqueue_accept:
  assumes "enqueue_refresh k r h = (True, h')"
  shows "k \<notin> pending_keys h" "refresh_queue h' = refresh_queue h @ [(k, r)]"
    "pending_keys h' = insert k (pending_keys h)" "h_config h' = h_config h" "\<not> queue_full h"
  using assms by (auto simp: enqueue_refresh_def pending_keys_def split: if_splits)

lemma enqueue_refuse:
  assumes "enqueue_refresh k r h = (False, h')"
  shows "k \<in> pending_keys h \<or> queue_full h" "refresh_queue h' = refresh_queue h"
    "pending_keys h' = pending_keys h" "h_config h' = h_config h"
  using assms by (auto simp: enqueue_refresh_def pending_keys_def split: if_splits)

lemma queue_full_cong:
  "h_config h' = h_config h \<Longrightarrow> refresh_queue h' = refresh_queue h \<Longrightarrow> queue_full h' = queue_full h"
  by (simp add: queue_full_def)

lemma capacity_cong: "h_config h' = h_config h \<Longrightarrow> queue_capacity h' = queue_capacity h"
  by (simp add: queue_capacity_def)

lemma scan_adds_accept:
  assumes enq: "enqueue_refresh k ''tick'' h = (True, h1)" and el: "refresh_eligible (h_config h) now e"
    and more: "scan_adds now entries (room - 1) h1 h' new" and "1 < room"
  shows "scan_adds now ((k, e) # entries) room h h' (k # new)"
proof -
  note e = enqueue_accept [OF enq]
  have "\<not> queue_full h" by (rule e(5))
  then have bound: "length (refresh_queue h1) \<le> c"
    if "queue_capacity h = Some c" "length (refresh_queue h) \<le> c" for c
    using that e(2) by (auto simp: queue_full_iff)
  show ?thesis
    using e(1-4) more el \<open>1 < room\<close> bound capacity_cong [OF e(4)]
    unfolding scan_adds_def by auto
qed

lemma scan_adds_last:
  assumes enq: "enqueue_refresh k ''tick'' h = (True, h1)" and el: "refresh_eligible (h_config h) now e"
    and stop: "room \<le> 1 \<or> queue_full h1"
  shows "scan_adds now ((k, e) # entries) room h h1 [k]"
  using enqueue_accept [OF enq] el stop unfolding scan_adds_def by (auto simp: queue_full_iff)

lemma scan_adds_refuse:
  assumes enq: "enqueue_refresh k ''tick'' h = (False, h1)"
    and more: "scan_adds now entries room h1 h' new" and "\<not> queue_full h1"
  shows "scan_adds now ((k, e) # entries) room h h' new"
proof -
  note e = enqueue_refuse [OF enq]
  have "k \<in> pending_keys h" using e(1) \<open>\<not> queue_full h1\<close> queue_full_cong [OF e(4,2)] by blast
  then show ?thesis
    using e(2-4) more capacity_cong [OF e(4)] unfolding scan_adds_def by auto
qed

lemma scan_adds_full:
  assumes "enqueue_refresh k ''tick'' h = (False, h1)" and "queue_full h1"
  shows "scan_adds now entries room h h1 []"
  using enqueue_refuse [OF assms(1)] assms(2) unfolding scan_adds_def by auto

lemma scan_loop_adds:
  "\<exists>new. scan_adds now entries (refresh_batch_size (h_config h) - n) h (scan_loop now entries n h) new"
proof (induction now entries n h rule: scan_loop.induct)
  case (1 now n h)
  show ?case by (rule exI [of _ "[]"]) (simp add: scan_adds_def)
next
  case (2 now k e entries n h)
  let ?room = "refresh_batch_size (h_config h) - n"
  consider (skip) "\<not> refresh_eligible (h_config h) now e"
    | (accept) h1 where "refresh_eligible (h_config h) now e" "enqueue_refresh k ''tick'' h = (True, h1)"
    | (refuse) h1 where "refresh_eligible (h_config h) now e" "enqueue_refresh k ''tick'' h = (False, h1)"
    by (metis (full_types) prod.exhaust)
  then show ?case
  proof cases
    case skip
    then show ?thesis using 2(1) [OF skip] by (auto intro: scan_adds_skip)
  next
    case accept
    have cfg: "h_config h1 = h_config h" by (rule enqueue_accept(4) [OF accept(2)])
    show ?thesis
    proof (cases "?room \<le> 1 \<or> queue_full h1")
      case True
      with accept cfg have "scan_loop now ((k, e) # entries) n h = h1" by auto
      with scan_adds_last [OF accept(2,1) True] show ?thesis by auto
    next
      case False
      with 2(2) [OF _ accept(2) [symmetric]] accept cfg obtain new where
        "scan_adds now entries (?room - 1) h1 (scan_loop now entries (n + 1) h1) new"
        by (auto simp: algebra_simps)
      with scan_adds_accept [OF accept(2,1) this] accept cfg False show ?thesis by auto
    qed
  next
    case refuse
    have cfg: "h_config h1 = h_config h" by (rule enqueue_refuse(4) [OF refuse(2)])
    show ?thesis
    proof (cases "queue_full h1")
      case True
      with scan_adds_full [OF refuse(2) True] refuse show ?thesis by auto
    next
      case False
      with 2(3) [OF _ refuse(2) [symmetric]] refuse cfg obtain new where
        "scan_adds now entries ?room h1 (scan_loop now entries n h1) new" by auto
      with scan_adds_refuse [OF refuse(2) this False] refuse False show ?thesis by auto
    qed
  qed
qed

lemma scan_loop_same:
  "h_cache (scan_loop now entries n h) = h_cache h \<and> h_flights (scan_loop now entries n h) = h_flights h \<and>
   h_tasks (scan_loop now entries n h) = h_tasks h \<and> h_config (scan_loop now entries n h) = h_config h \<and>
   inflight_keys (scan_loop now entries n h) = inflight_keys h"
proof (induction now entries n h rule: scan_loop.induct)
  case (2 now k e entries n h)
  then show ?case using enqueue_refresh_same [of k "''tick''" h] by (auto split: prod.split bool.split)
qed simp

text \<open>
  C20. One scan of the refresh loop. It appends to the queue a list of distinct keys, none of them
  queued or being refreshed before, each of an entry of the cache that is eligible (not expired, inside
  the refresh-ahead window, popular, recently hit), at most a batch of them and never beyond the queue's
  limit. When neither the batch nor the queue is exhausted, every eligible entry is queued or being
  refreshed afterwards. The cache, the flights and the tasks are untouched.
\<close>

theorem refresh_scan_tick_spec:
  "\<exists>new. scan_adds now (store (h_cache h)) (refresh_batch_size (h_config h)) h (refresh_scan_tick now h) new \<and>
     h_cache (refresh_scan_tick now h) = h_cache h \<and> h_flights (refresh_scan_tick now h) = h_flights h \<and>
     h_tasks (refresh_scan_tick now h) = h_tasks h"
  using scan_loop_adds [of now "store (h_cache h)" h 0] scan_loop_same [of now "store (h_cache h)" 0 h]
  by (simp add: refresh_scan_tick_def entries_snapshot_def)

lemma worker_finally_same [handler_simps]:
  "h_cache (worker_finally key a out c h) = h_cache h"
  "h_flights (worker_finally key a out c h) = h_flights h"
  "h_tasks (worker_finally key a out c h) = h_tasks h"
  "h_config (worker_finally key a out c h) = h_config h"
  "refresh_queue (worker_finally key a out c h) = refresh_queue h"
  "queued_keys (worker_finally key a out c h) = queued_keys h"
  "inflight_keys (worker_finally key a out c h) = inflight_keys h - {key}"
  "unfinished_jobs (worker_finally key a out c h) = unfinished_jobs h - 1"
  by (simp_all add: worker_finally_def Let_def untrack_def)

lemma track_same [handler_simps]:
  "h_cache (track key h) = h_cache h" "h_flights (track key h) = h_flights h" "h_tasks (track key h) = h_tasks h"
  "h_config (track key h) = h_config h" "h_metrics (track key h) = h_metrics h"
  "refresh_queue (track key h) = refresh_queue h" "unfinished_jobs (track key h) = unfinished_jobs h"
  "queued_keys (track key h) = queued_keys h - {key}" "inflight_keys (track key h) = insert key (inflight_keys h)"
  by (simp_all add: track_def)

lemma untrack_same [handler_simps]:
  "h_cache (untrack key h) = h_cache h" "h_flights (untrack key h) = h_flights h" "h_tasks (untrack key h) = h_tasks h"
  "h_config (untrack key h) = h_config h" "h_metrics (untrack key h) = h_metrics h"
  "refresh_queue (untrack key h) = refresh_queue h" "unfinished_jobs (untrack key h) = unfinished_jobs h"
  "queued_keys (untrack key h) = queued_keys h" "inflight_keys (untrack key h) = inflight_keys h - {key}"
  by (simp_all add: untrack_def)

definition worth_refreshing :: "time \<Rightarrow> cache_key \<Rightarrow> handler \<Rightarrow> bool" where
  "worth_refreshing now key h \<longleftrightarrow>
     refresh_enabled (h_config h) \<and>
     (\<exists>e. dict_get (store (h_cache h)) key = Some e \<and> refresh_eligible (h_config h) now e)"

definition worker_request :: "dnslib \<Rightarrow> cache_key \<Rightarrow> dns_record result" where
  "worker_request L key = refresh_request L key (fst key) (snd (qtype_mapping L (fst (snd key))))"

lemma refresh_via_worker_eq:
  "refresh_via_worker L now key h =
     (if worth_refreshing now key h then
        (case worker_request L key of
           Inl _ \<Rightarrow> (WorkerDone True ''fail'', h)
         | Inr request \<Rightarrow>
             (let r = enter_task (ResolveJob request key (fst key) (snd (qtype_mapping L (fst (snd key))))) h
              in (WorkerAwait (fst (fst r)), snd r)))
      else (WorkerDone False ''skipped'', h))"
  by (auto simp: refresh_via_worker_def worth_refreshing_def worker_request_def peek_def Let_def
      split: option.split sum.split prod.split)

lemma worth_refreshing_cong:
  "h_config h' = h_config h \<Longrightarrow> h_cache h' = h_cache h \<Longrightarrow> worth_refreshing now key h' = worth_refreshing now key h"
  by (simp add: worth_refreshing_def)

lemma worker_take_eq:
  assumes "refresh_queue h = (key, reason) # rest"
  shows "worker_take L now h =
    (let h0 = track key (h\<lparr>refresh_queue := rest\<rparr>) in
     if worth_refreshing now key h then
       (case worker_request L key of
          Inl _ \<Rightarrow> Some (None, worker_finally key True ''fail'' False h0)
        | Inr request \<Rightarrow>
            (let r = enter_task (ResolveJob request key (fst key) (snd (qtype_mapping L (fst (snd key))))) h0
             in Some (Some (key, fst (fst r)), snd r)))
     else Some (None, worker_finally key False ''skipped'' False h0))"
proof -
  have "worth_refreshing now key (track key (h\<lparr>refresh_queue := rest\<rparr>)) = worth_refreshing now key h"
    by (rule worth_refreshing_cong) (simp_all add: handler_simps)
  then show ?thesis
    by (simp add: worker_take_def assms refresh_via_worker_eq Let_def split: sum.split prod.split)
qed

text \<open>
  C21. What a refresh worker does with a job. Only when refreshing is enabled, the key has a cache
  entry that is still eligible, and a request for the key can be built does it start (or join) the
  resolve flight of that key, and no other.
  A key that is not in the cache, or whose entry has expired, is dropped and counted as skipped: no
  flight is started for it, so neither a warmup job for an uncached name nor the job queued when an
  expired answer was served ever queries the upstream.
\<close>

theorem worker_job_rule:
  assumes "refresh_queue h = (key, reason) # rest" and "flights_ok (h_flights h)" and "metered (h_metrics h)"
    and "worker_take L now h = Some (b, h')"
  shows "refresh_queue h' = rest \<and> key \<notin> queued_keys h' \<and> h_cache h' = h_cache h \<and>
    (if worth_refreshing now key h then
       (case worker_request L key of
          Inr _ \<Rightarrow> (\<exists>t. b = Some (key, t) \<and> key \<in> inflight_keys h' \<and>
            flight_of (h_flights h') = (flight_of (h_flights h))(Resolve key \<mapsto> t))
        | Inl _ \<Rightarrow> b = None \<and> h_flights h' = h_flights h)
     else b = None \<and> key \<notin> inflight_keys h' \<and> h_flights h' = h_flights h \<and>
       mval (h_metrics h') ''cache_refresh_completed_total{result=skipped}'' =
         mval (h_metrics h) ''cache_refresh_completed_total{result=skipped}'' + 1) \<and>
    (\<forall>e. worth_refreshing now key h \<longrightarrow> dict_get (store (h_cache h)) key = Some e \<longrightarrow> now \<le> expires_at e)"
proof -
  have "now \<le> expires_at e" if "worth_refreshing now key h" "dict_get (store (h_cache h)) key = Some e" for e
    using that by (auto simp: worth_refreshing_def refresh_eligible_def Let_def split: if_splits)
  moreover have "mval (h_metrics (worker_finally key False ''skipped'' False (track key (h\<lparr>refresh_queue := rest\<rparr>))))
      ''cache_refresh_completed_total{result=skipped}'' =
      mval (h_metrics h) ''cache_refresh_completed_total{result=skipped}'' + 1"
    using assms(3) by (simp add: worker_finally_def Let_def handler_simps metric_simps)
  ultimately show ?thesis
    using assms(2,4)
    by (auto simp: worker_take_eq [OF assms(1)] Let_def handler_simps enter_task_flight_of
        split: sum.splits if_splits)
qed

lemma worker_job_rule_witness:
  "\<exists>h'. worker_take sample_lib 1 ((sample_handler [])\<lparr>refresh_queue := [(key1, ''warmup'')]\<rparr>) = Some (None, h') \<and>
     h_flights h' = flights_init"
proof -
  let ?h = "(sample_handler [])\<lparr>refresh_queue := [(key1, ''warmup'')]\<rparr>"
  have q: "refresh_queue ?h = (key1, ''warmup'') # []" by simp
  have ok: "flights_ok (h_flights ?h)" "metered (h_metrics ?h)"
    by (simp_all add: sample_handler_simps flights_init_ok)
  have w: "\<not> worth_refreshing 1 key1 ?h" by (simp add: worth_refreshing_def sample_handler_simps)
  obtain b h' where t: "worker_take sample_lib 1 ?h = Some (b, h')"
    using w by (simp add: worker_take_eq [OF q] Let_def)
  show ?thesis using worker_job_rule [OF q ok t] w t by (auto simp: sample_handler_simps)
qed

text \<open>
  C34. An upstream answer that parses, whose TTL can be computed and that can be packed again is cached
  under the key of the query, whatever its response code and whatever the cache held before: the flight returns it and readers see its packed form,
  fresh for its TTL. In particular a SERVFAIL of the upstream is cached like any negative answer and
  replaces a good answer that could still have been served stale.
\<close>

theorem upstream_answer_cached:
  assumes "cache_ok (h_cache h)" and "parse L data = Inr resp"
    and "compute_ttl_seconds L (config (h_cache h)) resp = Inr ttl" and "pack L resp = Inr w"
    and "now_e \<le> now + of_int (max 0 ttl) + of_int (serve_stale_max_s (config (h_cache h)))"
  shows "case absorb_answer L now now_e key (Inr (Some data)) h of (res, h') \<Rightarrow>
    res = Returned (Some resp) \<and>
    cache_view (h_cache h') key = Some (w, now + of_int (max 0 ttl),
      now + of_int (max 0 ttl) + of_int (serve_stale_max_s (config (h_cache h))))"
proof -
  obtain r c' M' where put: "put L now now_e key resp (h_cache h) (h_metrics h) = (r, c', M')"
    by (cases "put L now now_e key resp (h_cache h) (h_metrics h)") auto
  note view = put_view [OF assms(1,3,4,5) put]
  show ?thesis using view by (simp add: absorb_answer_def assms(2) put)
qed

definition sample_question :: question where
  "sample_question = \<lparr>q_name = ''Example.com.'', q_type = 1, q_class = 1\<rparr>"

lemma sample_questions: "questions (sample_msg i rc as) = [sample_question]"
  by (simp add: sample_msg_def sample_question_def)

lemma sample_question_simps:
  "query_key sample_question = key1" "query_name sample_question = ''example.com''"
  "qtype_mapping sample_lib (q_type sample_question) = (1, ''A'')"
  using sample_query_key [of 0 0 "[]"]
  by (simp_all add: sample_questions query_key_def sample_question_def qtype_mapping_def sample_lib_def)

lemma sample_msg_simps:
  "hdr_rcode (sample_msg i rc as) = rc" "hdr_id (sample_msg i rc as) = i" "rrs (sample_msg i rc as) = as"
  "hdr_tc (sample_msg i rc as) = 0" "auth (sample_msg i rc as) = []"
  by (simp_all add: sample_msg_def)

lemma sample_lib_more:
  "class_name sample_lib 1 = Inr ''IN''"
  "mk_question sample_lib n t c =
     Inr ((sample_msg 7 0 [])\<lparr>questions := [\<lparr>q_name = n, q_type = 1, q_class = 1\<rparr>]\<rparr>)"
  "reply sample_lib q = (sample_msg (hdr_id q) 0 [])\<lparr>questions := questions q\<rparr>"
  by (simp_all add: sample_lib_def)

text \<open>At time 55 the cached answer is stale; a SERVFAIL (code 2) of the upstream takes its place.\<close>

lemma upstream_answer_cached_witness:
  "lookup_tier (sample_cache 2 [(key1, sample_entry 50 360)]) 55 55 key1 = StaleHit [1, 0, 0, 9] \<and>
   (case absorb_answer sample_lib 55 55 key1 (Inr (Some [1, 0, 2])) (sample_handler [(key1, sample_entry 50 360)]) of
      (res, h') \<Rightarrow> lookup_tier (h_cache h') 56 56 key1 = FreshHit [1, 0, 2])"
proof -
  let ?h = "sample_handler [(key1, sample_entry 50 360)]"
  have ok: "cache_ok (h_cache ?h)" by (simp add: sample_handler_def handler_init_def sample_defs)
  have p: "parse sample_lib [1, 0, 2] = Inr (sample_msg 1 2 [])"
    by (simp add: sample_parse_def sample_msg_def)
  have ttl: "compute_ttl_seconds sample_lib (config (h_cache ?h)) (sample_msg 1 2 []) = Inr 60"
    by (simp add: compute_ttl_seconds_def sample_msg_simps sample_handler_simps default_cache_config_def)
  have w: "pack sample_lib (sample_msg 1 2 []) = Inr [1, 0, 2]"
    by (simp add: sample_pack_def sample_msg_def)
  have t: "(55::real) \<le> 55 + of_int (max 0 60) + of_int (serve_stale_max_s (config (h_cache ?h)))"
    by (simp add: sample_handler_simps default_cache_config_def)
  show ?thesis
    using upstream_answer_cached [OF ok p ttl w t, of key1]
    by (simp add: lookup_tier_def split: prod.splits)
      (simp add: cache_view_def view_entry_def sample_cache_def sample_entry_def)
qed

end
