(* ===== verification/Resolver.thy ===== *)
theory Resolver
  imports Dns_Handler
begin

text \<open>
  The handler of \<^verbatim>\<open>dns/handler.py\<close> in operation: clients, flights, refresh workers, the periodic
  scan and the cleanups interleave, one segment at a time, in any order the event loop may choose. The
  theory gives the step function, the invariant of all reachable states and what clients can rely on.
\<close>

section \<open>The running handler\<close>

text \<open>
  The handler together with the coroutines suspended in it: the clients awaiting a flight (by a
  number of their own, with their request), the busy workers (with their job and the flight they
  await), the workers that a cancellation has ended, and the results handed to clients so far. An
  event is one segment of one coroutine; it carries the clock readings the segment makes and, for an
  upstream answer, the outcome of the two possible calls. \<open>step\<close> is \<open>None\<close> for an event that cannot
  happen in a state. The scan and the workers run only once \<open>start_refresh_tasks\<close> has created them.

  Cancelling a coroutine that awaits a flight cancels the flight: from then on the flight is doomed, its
  next event is the delivery of the cancellation, and everyone who awaits it, joined before or after,
  wakes up with it. If the flight has ended already, the coroutine itself gets the cancellation.
  \<open>stop_refresh_tasks\<close> cancels the scan and all workers, and returns when the last one has ended.
\<close>

record resolver =
  core :: handler
  awaiting :: "nat \<rightharpoonup> dns_record \<times> nat"
  busy :: "nat \<rightharpoonup> cache_key \<times> nat"
  ended :: "nat set"
  doomed :: "nat set"
  stopping :: bool
  replies :: "(nat \<times> handle_result) list"

definition resolver_init :: "handler_config \<Rightarrow> cache \<Rightarrow> metrics option \<Rightarrow> resolver" where
  "resolver_init cfg c M =
     \<lparr>core = handler_init cfg c M, awaiting = Map.empty, busy = Map.empty, ended = {}, doomed = {}, stopping = False,
      replies = []\<rparr>"

datatype event =
    Query nat dns_record time time
  | Wake nat time
  | Start nat
  | Answer nat "bytes option result" "bytes option result" time time
  | CancelClient nat
  | Cancel nat
  | Sweep flight_key nat
  | Tick time
  | Take nat time
  | WorkerWake nat
  | Enqueue cache_key string
  | Clear
  | StartRefresh
  | StopRefresh
  | StopDone

definition finished_result :: "handler \<Rightarrow> nat \<Rightarrow> task_result option" where
  "finished_result h t = (case h_tasks h t of Some (Finished r) \<Rightarrow> Some r | _ \<Rightarrow> None)"

definition settle :: "nat \<Rightarrow> dns_record \<Rightarrow> handle_result \<times> handler \<Rightarrow> resolver \<Rightarrow> resolver" where
  "settle i request out s =
     (case out of
        (Await t, h) \<Rightarrow> s\<lparr>core := h, awaiting := (awaiting s)(i \<mapsto> (request, t))\<rparr>
      | (r, h) \<Rightarrow> s\<lparr>core := h, awaiting := (awaiting s)(i := None), replies := replies s @ [(i, r)]\<rparr>)"

text \<open>Cancelling a client; one whose flight has ended fails when it wakes up.\<close>

definition cancel_client :: "nat \<Rightarrow> resolver \<Rightarrow> resolver" where
  "cancel_client i s =
     (case awaiting s i of
        None \<Rightarrow> s
      | Some (_, t) \<Rightarrow>
          if finished_result (core s) t = None then s\<lparr>doomed := insert t (doomed s)\<rparr>
          else s\<lparr>awaiting := (awaiting s)(i := None), replies := replies s @ [(i, Fail CancelledError)]\<rparr>)"

text \<open>
  \<open>stop_refresh_tasks\<close>: its cancellations, and what it does after all tasks have ended. A worker that
  waits for a job ends at once, a busy one when its flight does. The scan loop sleeps, so it ends at
  once, too.
\<close>

definition cancel_background :: "background \<Rightarrow> resolver \<Rightarrow> resolver" where
  "cancel_background b s =
     (case b of
        ScanLoop \<Rightarrow> s
      | RefreshWorker w \<Rightarrow>
          (case busy s w of
             None \<Rightarrow> s\<lparr>ended := insert w (ended s)\<rparr>
           | Some (_, t) \<Rightarrow>
               if finished_result (core s) t = None then s\<lparr>doomed := insert t (doomed s)\<rparr>
               else s\<lparr>ended := insert w (ended s)\<rparr>))"

definition stop_refresh_tasks :: "resolver \<Rightarrow> resolver" where
  "stop_refresh_tasks s =
     (if refresh_tasks (core s) = [] then s
      else (fold cancel_background (refresh_tasks (core s)) s)\<lparr>stopping := True\<rparr>)"

definition stop_refresh_done :: "resolver \<Rightarrow> resolver" where
  "stop_refresh_done s = s\<lparr>core := (core s)\<lparr>refresh_tasks := []\<rparr>, ended := {}, stopping := False\<rparr>"

text \<open>Whether a background task has ended: the scan loop and idle workers once they are cancelled.\<close>

definition has_ended :: "resolver \<Rightarrow> background \<Rightarrow> bool" where
  "has_ended s b = (case b of ScanLoop \<Rightarrow> stopping s | RefreshWorker w \<Rightarrow> w \<in> ended s \<and> busy s w = None)"

fun step :: "dnslib \<Rightarrow> event \<Rightarrow> resolver \<Rightarrow> resolver option" where
  "step L (Query i request t1 t2) s =
     (if awaiting s i \<noteq> None then None
      else Some (settle i request (handle_start L t1 t2 request (core s)) s))"
| "step L (Wake i now) s =
     (case awaiting s i of
        None \<Rightarrow> None
      | Some (request, t) \<Rightarrow>
          map_option (\<lambda>r. settle i request (handle_resume L now request t r (core s)) s)
            (finished_result (core s) t))"
| "step L (Start t) s =
     (case h_tasks (core s) t of
        Some (Created j) \<Rightarrow> if t \<in> doomed s then None else Some (s\<lparr>core := start_task L t j (core s)\<rparr>)
      | _ \<Rightarrow> None)"
| "step L (Answer t with_id plain t1 t2) s =
     (case h_tasks (core s) t of
        Some (Querying j wire rid) \<Rightarrow>
          if t \<in> doomed s then None else Some (s\<lparr>core := finish_task L t1 t2 t j rid with_id plain (core s)\<rparr>)
      | _ \<Rightarrow> None)"
| "step L (CancelClient i) s = Some (cancel_client i s)"
| "step L (Cancel t) s =
     map_option (\<lambda>st. s\<lparr>core := cancel_task t st (core s)\<rparr>) (h_tasks (core s) t)"
| "step L (Sweep k t) s =
     Some (s\<lparr>core := (core s)\<lparr>h_flights := run_cleanup k t (h_flights (core s))\<rparr>\<rparr>)"
| "step L (Tick now) s =
     (if ScanLoop \<in> set (refresh_tasks (core s)) \<and> \<not> stopping s then Some (s\<lparr>core := refresh_scan_tick now (core s)\<rparr>) else None)"
| "step L (Take w now) s =
     (if busy s w \<noteq> None \<or> w \<in> ended s \<or> RefreshWorker w \<notin> set (refresh_tasks (core s)) then None
      else map_option (\<lambda>(b, h). s\<lparr>core := h, busy := (busy s)(w := b)\<rparr>) (worker_take L now (core s)))"
| "step L (WorkerWake w) s =
     (case busy s w of
        None \<Rightarrow> None
      | Some (key, t) \<Rightarrow>
          map_option (\<lambda>res. let r = (if w \<in> ended s then Raised CancelledError else res) in
              s\<lparr>core := worker_resume key r (core s), busy := (busy s)(w := None),
               ended := (if r = Raised CancelledError then insert w (ended s) else ended s)\<rparr>)
            (finished_result (core s) t))"
| "step L (Enqueue key reason) s = Some (s\<lparr>core := snd (enqueue_refresh key reason (core s))\<rparr>)"
| "step L Clear s =
     (case clear (h_cache (core s)) (h_metrics (core s)) of
        (c, M) \<Rightarrow> Some (s\<lparr>core := (core s)\<lparr>h_cache := c, h_metrics := M\<rparr>\<rparr>))"
| "step L StartRefresh s = Some (s\<lparr>core := snd (start_refresh_tasks (core s))\<rparr>)"
| "step L StopRefresh s = Some (stop_refresh_tasks s)"
| "step L StopDone s =
     (if stopping s \<and> list_all (has_ended s) (refresh_tasks (core s)) then Some (stop_refresh_done s) else None)"

fun run :: "dnslib \<Rightarrow> event list \<Rightarrow> resolver \<Rightarrow> resolver option" where
  "run L [] s = Some s"
| "run L (e # es) s = (case step L e s of None \<Rightarrow> None | Some s' \<Rightarrow> run L es s')"

section \<open>Invariant\<close>

text \<open>
  The tasks table and the flight group agree: a flight runs exactly while its coroutine is created or
  awaits the upstream, under the key of that coroutine.
\<close>

fun live_job :: "task_state \<Rightarrow> job option" where
  "live_job (Created j) = Some j"
| "live_job (Querying j _ _) = Some j"
| "live_job (Finished _) = None"

definition live_key :: "handler \<Rightarrow> nat \<Rightarrow> flight_key option" where
  "live_key h t = Option.bind (h_tasks h t) (\<lambda>st. map_option flight_key_of (live_job st))"

definition tasks_ok :: "handler \<Rightarrow> bool" where
  "tasks_ok h \<longleftrightarrow> flights_ok (h_flights h) \<and> running (h_flights h) = live_key h \<and>
     (\<forall>t. next_task (h_flights h) \<le> t \<longrightarrow> h_tasks h t = None)"

definition queue_ok :: "handler \<Rightarrow> bool" where
  "queue_ok h \<longleftrightarrow> (\<forall>c. queue_capacity h = Some c \<longrightarrow> length (refresh_queue h) \<le> c) \<and>
     queued_keys h \<subseteq> fst ` set (refresh_queue h)"

definition core_ok :: "cache_config \<Rightarrow> handler \<Rightarrow> bool" where
  "core_ok cc h \<longleftrightarrow> tasks_ok h \<and> queue_ok h \<and> cache_inv cc (h_cache h) (h_metrics h)"

text \<open>The keys whose refresh task awaits the upstream.\<close>

fun refresh_key :: "task_state \<Rightarrow> cache_key option" where
  "refresh_key (Querying (RefreshJob key _ _) _ _) = Some key"
| "refresh_key _ = None"

definition refreshing :: "handler \<Rightarrow> cache_key set" where
  "refreshing h = {key. \<exists>t. Option.bind (h_tasks h t) refresh_key = Some key}"

lemma refreshing_same:
  "(\<And>t. Option.bind (h_tasks h' t) refresh_key = Option.bind (h_tasks h t) refresh_key) \<Longrightarrow>
   refreshing h' = refreshing h"
  by (simp add: refreshing_def)

text \<open>How many segments a task still has before it at most.\<close>

fun rank :: "task_state \<Rightarrow> nat" where
  "rank (Created _) = 2"
| "rank (Querying _ _ _) = 1"
| "rank (Finished _) = 0"

text \<open>No task is forgotten, and no task changes its key, goes back a segment or comes back to life.\<close>

definition grows :: "handler \<Rightarrow> handler \<Rightarrow> bool" where
  "grows h h' \<longleftrightarrow> (\<forall>t st. h_tasks h t = Some st \<longrightarrow> (\<exists>st'. h_tasks h' t = Some st' \<and> rank st' \<le> rank st) \<and>
     (\<forall>k. live_key h' t = Some k \<longrightarrow> live_key h t = Some k))"

lemma grows_refl [simp]: "grows h h"
  by (simp add: grows_def)

lemma grows_trans: "grows h h1 \<Longrightarrow> grows h1 h2 \<Longrightarrow> grows h h2"
  unfolding grows_def by (meson le_trans)

text \<open>
  Segments that keep the invariant of the handler and change neither the keys being refreshed nor
  the balance of unfinished jobs: all but those that start or end a task or a job.
\<close>

definition quiet :: "cache_config \<Rightarrow> handler \<Rightarrow> handler \<Rightarrow> bool" where
  "quiet cc h h' \<longleftrightarrow> (core_ok cc h \<longrightarrow> core_ok cc h' \<and> grows h h' \<and> refreshing h' = refreshing h \<and>
     inflight_keys h' = inflight_keys h \<and>
     int (unfinished_jobs h') - int (length (refresh_queue h')) =
       int (unfinished_jobs h) - int (length (refresh_queue h)))"

lemma quiet_refl [simp]: "quiet cc h h"
  by (simp add: quiet_def)

lemma quiet_trans [trans]: "quiet cc h h1 \<Longrightarrow> quiet cc h1 h2 \<Longrightarrow> quiet cc h h2"
  unfolding quiet_def by (auto intro: grows_trans)

lemma core_cong:
  "h_flights h' = h_flights h \<Longrightarrow> h_tasks h' = h_tasks h \<Longrightarrow> tasks_ok h' = tasks_ok h"
  "h_config h' = h_config h \<Longrightarrow> refresh_queue h' = refresh_queue h \<Longrightarrow> queued_keys h' = queued_keys h \<Longrightarrow>
     queue_ok h' = queue_ok h"
  "h_tasks h' = h_tasks h \<Longrightarrow> refreshing h' = refreshing h"
  "h_tasks h' = h_tasks h \<Longrightarrow> grows h h'"
  by (simp_all add: tasks_ok_def live_key_def [abs_def] queue_ok_def queue_capacity_def refreshing_def grows_def)

lemma quiet_count: "name \<noteq> ''cache_entries'' \<Longrightarrow> quiet cc h (count name h)"
  by (simp add: quiet_def core_ok_def inc_inv core_cong [of "count name h" h])

lemma quiet_reads:
  "quiet cc h (snd (cache_reads get_fresh L t k h))" "quiet cc h (snd (cache_reads get_stale L t k h))"
  using core_cong [of "snd (cache_reads get_fresh L t k h)" h] core_cong [of "snd (cache_reads get_stale L t k h)" h]
  by (simp_all add: quiet_def core_ok_def cache_reads_eq get_fresh_inv get_stale_inv)

lemma enqueue_sets:
  "queued_keys (snd (enqueue_refresh k r h)) = queued_keys h \<union> (if fst (enqueue_refresh k r h) then {k} else {})"
  "unfinished_jobs (snd (enqueue_refresh k r h)) =
     (if fst (enqueue_refresh k r h) then Suc (unfinished_jobs h) else unfinished_jobs h)"
  by (simp_all add: enqueue_refresh_def)

lemma enqueue_ok: "queue_ok h \<Longrightarrow> queue_ok (snd (enqueue_refresh k r h))"
  using rq.offers_bounded [of h _ "[(k, r)]"]
  by (auto simp: queue_ok_def rq.offer_capacity rq.offer_items enqueue_sets)

lemma quiet_enqueue: "quiet cc h (snd (enqueue_refresh k r h))"
proof -
  have "cache_inv cc (h_cache h) (h_metrics (snd (enqueue_refresh k r h)))"
    if "cache_inv cc (h_cache h) (h_metrics h)"
    using that by (simp add: enqueue_refresh_def inc_inv)
  then show ?thesis
    using core_cong [of "snd (enqueue_refresh k r h)" h] enqueue_ok [of h k r]
    by (simp add: quiet_def core_ok_def handler_simps rq.offer_items enqueue_sets)
qed

text \<open>Entering a flight, alone and inside the segments of \<open>handle\<close>.\<close>

lemma enter_task_cases:
  obtains (join) t where "flight_of (h_flights h) (flight_key_of j) = Some t"
      and "enter_task j h = ((t, False), count ''singleflight_dedup_total'' h)"
  | (lead) "\<forall>t. tasks (h_flights h) (flight_key_of j) = Some t \<longrightarrow> is_done t (h_flights h)"
      and "enter_task j h = ((next_task (h_flights h), True),
        h\<lparr>h_flights := create_task (flight_key_of j) (h_flights h),
          h_tasks := (h_tasks h)(next_task (h_flights h) \<mapsto> Created j)\<rparr>)"
  by (cases "flight_key_of j" "h_flights h" "h_metrics h" rule: get_or_create_cases)
    (auto simp: enter_task_def flight_of_def)

lemma quiet_enter: "quiet cc h (snd (enter_task j h))"
proof (cases rule: enter_task_cases [of h j])
  case (join t)
  then show ?thesis by (simp add: quiet_count)
next
  case lead
  let ?t = "next_task (h_flights h)" and ?h = "snd (enter_task j h)"
  have "tasks_ok ?h \<and> grows h ?h \<and> refreshing ?h = refreshing h" if "tasks_ok h"
  proof -
    from that have new: "h_tasks h ?t = None" and ok: "flights_ok (h_flights h)"
      and run: "running (h_flights h) = live_key h"
      and above: "\<forall>t. ?t \<le> t \<longrightarrow> h_tasks h t = None" by (auto simp: tasks_ok_def)
    have live: "live_key ?h = (live_key h)(?t \<mapsto> flight_key_of j)"
      by (rule ext) (simp add: live_key_def lead)
    have "flights_ok (h_flights ?h)" by (rule enter_task_ok [OF ok])
    moreover have "running (h_flights ?h) = live_key ?h"
      by (simp add: live run [symmetric]) (simp add: lead create_task_def)
    ultimately have "tasks_ok ?h" using above by (simp add: tasks_ok_def) (simp add: lead create_task_def)
    moreover have "grows h ?h" unfolding grows_def live using new by (auto simp: lead)
    moreover have "refreshing ?h = refreshing h"
      by (rule refreshing_same) (simp add: new lead)
    ultimately show ?thesis by blast
  qed
  moreover have "queue_ok ?h = queue_ok h" by (rule core_cong) (simp_all add: handler_simps)
  moreover have "cache_inv cc (h_cache ?h) (h_metrics ?h) = cache_inv cc (h_cache h) (h_metrics h)"
    by (simp add: lead)
  ultimately show ?thesis by (simp add: quiet_def core_ok_def handler_simps)
qed

lemma quiet_schedule: "quiet cc h (schedule_refresh key qn ty h)"
proof -
  let ?r = "enter_task (RefreshJob key qn ty) h"
  have "quiet cc (snd ?r) (count ''swr_refresh_triggered_total'' (snd ?r))" by (rule quiet_count) simp
  then have "quiet cc h (count ''swr_refresh_triggered_total'' (snd ?r))" by (rule quiet_trans [OF quiet_enter])
  then show ?thesis by (simp add: schedule_refresh_eq Let_def quiet_enter)
qed

lemma quiet_serve_stale: "quiet cc h (snd (serve_stale L request key qn ty w h))"
proof -
  have "quiet cc h (count ''cache_hit_stale_total'' h)" by (rule quiet_count) simp
  then show ?thesis
    unfolding serve_stale_def Let_def snd_conv
    by (rule quiet_trans [OF quiet_trans [OF _ quiet_enqueue] quiet_schedule])
qed

lemma quiet_handle_start: "quiet cc h (snd (handle_start L t1 t2 request h))"
proof (cases "questions request")
  case Nil
  then show ?thesis by (simp add: handle_start_def)
next
  case (Cons q qs)
  have fresh: "quiet cc h (after_fresh L t1 q h)"
    unfolding after_fresh_def by (rule quiet_trans [OF quiet_count quiet_reads(1)]) simp
  have stale: "quiet cc h (after_stale L t1 t2 q h)"
    unfolding after_stale_def by (rule quiet_trans [OF fresh quiet_reads(2)])
  have counted: "quiet cc h (count ''cache_hit_fresh_total'' (after_fresh L t1 q h))"
    "quiet cc h (count ''cache_miss_total'' (after_stale L t1 t2 q h))"
    by (rule quiet_trans [OF fresh quiet_count] quiet_trans [OF stale quiet_count], simp)+
  show ?thesis
    by (auto simp: handle_start_eq [OF Cons] Let_def counted split: tier.split
        intro: quiet_trans [OF stale quiet_serve_stale] quiet_trans [OF counted(2) quiet_enter])
qed

lemma quiet_handle_resume:
  assumes "finished_result h t = Some res"
  shows "quiet cc h (snd (handle_resume L now request t res h))"
proof (cases "\<exists>resp. res = Returned (Some resp)")
  case True
  then obtain resp where r: "res = Returned (Some resp)" ..
  from assms r have ft: "h_tasks h t = Some (Finished (Returned (Some resp)))"
    by (auto simp: finished_result_def split: option.splits task_state.splits)
  let ?h = "snd (handle_resume L now request t res h)"
  have live: "live_key ?h = live_key h"
    by (rule ext) (simp add: live_key_def handle_resume_def r ft Let_def)
  have "tasks_ok ?h = tasks_ok h"
    unfolding tasks_ok_def live by (auto simp: handle_resume_def r ft Let_def)
  moreover have "grows h ?h" unfolding grows_def live by (auto simp: handle_resume_def r ft Let_def)
  moreover have "refreshing ?h = refreshing h"
    by (rule refreshing_same) (simp add: ft handle_resume_def r Let_def)
  moreover have "queue_ok ?h = queue_ok h" by (rule core_cong) (simp_all add: handle_resume_def r Let_def)
  ultimately show ?thesis by (simp add: quiet_def core_ok_def) (simp add: handle_resume_def r Let_def)
next
  case False
  show ?thesis
  proof (cases "no_answer res \<and> questions request \<noteq> []")
    case True
    then obtain q qs where q: "questions request = q # qs" by (auto simp: neq_Nil_conv)
    show ?thesis
      using True by (auto simp: handle_resume_no_answer [OF q] Let_def quiet_reads
          intro: quiet_trans [OF quiet_reads(2) quiet_serve_stale])
  next
    case c: False
    with False have "handle_resume L now request t res h = (Fail CancelledError, h) \<or>
        handle_resume L now request t res h = (Fail OtherError, h)"
      by (cases res) (auto simp: handle_resume_def no_answer_def split: option.splits exn.splits list.splits)
    then show ?thesis by auto
  qed
qed

text \<open>
  Segments that start or end a task. \<open>B\<close> are the keys of the busy workers: a key marked as being
  refreshed belongs to a refresh task that awaits the upstream or to a busy worker.
\<close>

definition sound :: "cache_config \<Rightarrow> cache_key set \<Rightarrow> handler \<Rightarrow> handler \<Rightarrow> bool" where
  "sound cc B h h' \<longleftrightarrow> (core_ok cc h \<and> inflight_keys h \<subseteq> refreshing h \<union> B \<longrightarrow>
     core_ok cc h' \<and> grows h h' \<and> inflight_keys h' \<subseteq> refreshing h' \<union> B \<and>
     int (unfinished_jobs h') - int (length (refresh_queue h')) =
       int (unfinished_jobs h) - int (length (refresh_queue h)))"

lemma quiet_sound: "quiet cc h h' \<Longrightarrow> sound cc B h h'"
  by (simp add: quiet_def sound_def)

lemma sound_trans: "sound cc B h h1 \<Longrightarrow> sound cc B h1 h2 \<Longrightarrow> sound cc B h h2"
  unfolding sound_def by (auto intro: grows_trans)

lemma running_done: "running (task_done t sf) = (running sf)(t := None)"
  by (auto simp: task_done_def split: option.split)

lemma next_done: "next_task (task_done t sf) = next_task sf"
  by (simp add: task_done_def split: option.split)

lemma live_key_end: "live_key (end_task t r h) = (live_key h)(t := None)"
  by (rule ext) (simp add: live_key_def end_task_def)

lemma end_task_tasks:
  assumes "tasks_ok h" and "h_tasks h t \<noteq> None"
  shows "tasks_ok (end_task t r h)" and "grows h (end_task t r h)"
proof -
  have "t < next_task (h_flights h)" using assms by (auto simp: tasks_ok_def not_le [symmetric])
  then show "tasks_ok (end_task t r h)"
    using assms(1) unfolding tasks_ok_def live_key_end
    by (auto simp: end_task_def task_done_ok running_done next_done)
  show "grows h (end_task t r h)"
    unfolding grows_def live_key_end using assms(2) by (auto simp: end_task_def)
qed

lemma refreshing_end:
  "refreshing h - set_option (Option.bind (h_tasks h t) refresh_key) \<subseteq> refreshing (end_task t r h)"
proof
  fix key assume k: "key \<in> refreshing h - set_option (Option.bind (h_tasks h t) refresh_key)"
  then obtain u where u: "Option.bind (h_tasks h u) refresh_key = Some key"
    by (auto simp: refreshing_def)
  moreover have "Option.bind (h_tasks h t) refresh_key \<noteq> Some key"
    using k by (auto simp: bind_eq_Some_conv)
  ultimately have "u \<noteq> t" by auto
  with u have "Option.bind (h_tasks (end_task t r h) u) refresh_key = Some key" by (simp add: end_task_def)
  then show "key \<in> refreshing (end_task t r h)" unfolding refreshing_def by blast
qed

lemma end_task_sound:
  assumes "h_tasks h t = Some st"
    and "h' = end_task t r (case refresh_key st of None \<Rightarrow> h | Some key \<Rightarrow> untrack key h)"
  shows "sound cc B h h'"
proof -
  let ?h = "case refresh_key st of None \<Rightarrow> h | Some key \<Rightarrow> untrack key h"
  have same: "h_tasks ?h = h_tasks h" "h_flights ?h = h_flights h" "h_config ?h = h_config h"
    "h_cache ?h = h_cache h" "h_metrics ?h = h_metrics h" "refresh_queue ?h = refresh_queue h"
    "queued_keys ?h = queued_keys h" "unfinished_jobs ?h = unfinished_jobs h"
    "inflight_keys ?h = inflight_keys h - set_option (refresh_key st)"
    by (auto simp: handler_simps split: option.split)
  have tasks: "tasks_ok h' \<and> grows h h'" if "tasks_ok h"
    using that end_task_tasks [of ?h t r] assms core_cong(1) [OF same(2,1)] core_cong(4) [OF same(1)]
      grows_trans [of h ?h h'] by (simp add: same)
  have "refreshing h - set_option (refresh_key st) \<subseteq> refreshing h'"
    using refreshing_end [of ?h t r] core_cong(3) [OF same(1)] assms by (simp add: same)
  then have "inflight_keys h' \<subseteq> refreshing h' \<union> B" if "inflight_keys h \<subseteq> refreshing h \<union> B"
    using that same(9) assms(2) by (auto simp: end_task_def)
  moreover have "queue_ok h' = queue_ok h" by (rule core_cong) (simp_all add: assms(2) end_task_def same)
  moreover have "h_cache h' = h_cache h" "h_metrics h' = h_metrics h" "refresh_queue h' = refresh_queue h"
    "unfinished_jobs h' = unfinished_jobs h" by (simp_all add: assms(2) end_task_def same)
  ultimately show ?thesis using tasks by (simp add: sound_def core_ok_def)
qed

lemma quiet_absorb: "quiet cc h (snd (absorb_answer L now now_e key ans h))"
proof -
  let ?h = "snd (absorb_answer L now now_e key ans h)"
  have frame: "h_flights ?h = h_flights h" "h_tasks ?h = h_tasks h" "h_config ?h = h_config h"
    "refresh_queue ?h = refresh_queue h" "queued_keys ?h = queued_keys h"
    "inflight_keys ?h = inflight_keys h" "unfinished_jobs ?h = unfinished_jobs h"
    by (simp_all add: absorb_answer_def split: sum.split option.split prod.split)
  have "cache_inv cc (h_cache ?h) (h_metrics ?h)" if "cache_inv cc (h_cache h) (h_metrics h)"
    using that by (auto simp: absorb_answer_def split: sum.splits option.splits prod.splits intro: put_inv)
  with frame show ?thesis by (simp add: quiet_def core_ok_def core_cong [of ?h h])
qed

lemma quiet_query_upstream: "quiet cc h (h\<lparr>h_metrics := snd (query_upstream rid a b (h_metrics h))\<rparr>)"
proof -
  have "snd (query_upstream rid a b (h_metrics h)) \<in> {h_metrics h, inc ''upstream_fail_total'' (h_metrics h)}"
    by (simp add: query_upstream_def Let_def split: sum.split option.split exn.split)
  then show ?thesis using quiet_count [of "''upstream_fail_total''" cc h] by auto
qed

lemma finish_task_sound:
  assumes "h_tasks h t = Some (Querying j w r)"
  shows "sound cc B h (finish_task L now now_e t j rid a b h)"
proof -
  let ?q = "query_upstream (Some rid) a b (h_metrics h)"
  let ?h1 = "h\<lparr>h_metrics := snd ?q\<rparr>"
  let ?r = "absorb_answer L now now_e (job_key j) (fst ?q) ?h1"
  have "quiet cc h (snd ?r)" by (rule quiet_trans [OF quiet_query_upstream quiet_absorb])
  moreover have "h_tasks (snd ?r) t = Some (Querying j w r)"
    using assms by (simp add: absorb_answer_def split: sum.split option.split prod.split)
  then have "sound cc B (snd ?r) (finish_task L now now_e t j rid a b h)"
    by (rule end_task_sound [where r = "fst ?r"]) (cases j; simp add: finish_task_def Let_def split: prod.split)
  ultimately show ?thesis by (blast intro: sound_trans quiet_sound)
qed

lemma set_querying_tasks:
  assumes "tasks_ok h" and "h_tasks h t = Some (Created j)"
    and "h_flights h' = h_flights h" and "h_tasks h' = (h_tasks h)(t \<mapsto> Querying j w r)"
  shows "tasks_ok h'" and "grows h h'" and "refreshing h' = refreshing h \<union> set_option (refresh_key (Querying j w r))"
proof -
  have live: "live_key h' = live_key h" by (rule ext) (simp add: live_key_def assms)
  have "t < next_task (h_flights h)" using assms(1,2) by (auto simp: tasks_ok_def not_le [symmetric])
  then show "tasks_ok h'" using assms(1) unfolding tasks_ok_def live by (simp add: assms(3,4))
  show "grows h h'" unfolding grows_def live using assms by auto
  have at: "Option.bind (h_tasks h' u) refresh_key =
      (if u = t then refresh_key (Querying j w r) else Option.bind (h_tasks h u) refresh_key)" for u
    by (simp add: assms(4))
  have "Option.bind (h_tasks h t) refresh_key = None" by (simp add: assms(2))
  then show "refreshing h' = refreshing h \<union> set_option (refresh_key (Querying j w r))"
    unfolding refreshing_def at by (auto simp: elem_set) (metis option.distinct(1))+
qed

lemma track_queue_ok: "queue_ok h \<Longrightarrow> queue_ok (track key h)"
  by (auto simp: queue_ok_def queue_capacity_def handler_simps)

lemma untrack_track_sound: "sound cc B h (untrack key (track key h))"
proof -
  let ?h = "untrack key (track key h)"
  have "queue_ok ?h = queue_ok (track key h)" by (rule core_cong) (simp_all add: handler_simps)
  with track_queue_ok show ?thesis
    using core_cong(1,3,4) [of ?h h] by (auto simp: sound_def core_ok_def handler_simps)
qed

lemma start_refresh_failed:
  assumes "h_tasks h t = Some (Created j)"
  shows "sound cc B h (end_task t r (untrack key (track key h)))"
proof -
  let ?h = "untrack key (track key h)"
  have "h_tasks ?h t = Some (Created j)" using assms by (simp add: handler_simps)
  then have "sound cc B ?h (end_task t r ?h)" by (rule end_task_sound) simp
  then show ?thesis by (rule sound_trans [OF untrack_track_sound])
qed

lemma start_task_sound:
  assumes t: "h_tasks h t = Some (Created j)"
  shows "sound cc B h (start_task L t j h)"
proof (cases j)
  case (ResolveJob request key qn ty)
  show ?thesis
  proof (cases "pack L request")
    case (Inl x)
    then show ?thesis by (intro end_task_sound [OF t, of _ "Raised x"]) (simp add: start_task_def ResolveJob)
  next
    case (Inr wire)
    let ?h = "start_task L t j h"
    have h: "?h = h\<lparr>h_tasks := (h_tasks h)(t \<mapsto> Querying j wire (str_int (hdr_id request)))\<rparr>"
      by (simp add: start_task_def ResolveJob Inr)
    have "queue_ok ?h = queue_ok h" by (rule core_cong) (simp_all add: h)
    moreover have frame: "h_flights ?h = h_flights h" "h_cache ?h = h_cache h" "h_metrics ?h = h_metrics h"
      "h_tasks ?h = (h_tasks h)(t \<mapsto> Querying j wire (str_int (hdr_id request)))"
      "refresh_queue ?h = refresh_queue h" "unfinished_jobs ?h = unfinished_jobs h"
      "inflight_keys ?h = inflight_keys h" by (simp_all add: h)
    ultimately show ?thesis
      using set_querying_tasks [OF _ t frame(1,4)] by (auto simp: sound_def core_ok_def ResolveJob)
  qed
next
  case (RefreshJob key qn ty)
  let ?h = "start_task L t j h" and ?id = "''refresh-'' @ qn @ ''-'' @ ty"
  consider r where "?h = end_task t r (untrack key (track key h))"
    | wire where "?h = (track key h)\<lparr>h_tasks := (h_tasks h)(t \<mapsto> Querying j wire ?id)\<rparr>"
    by (cases "refresh_request L key qn ty"; cases "pack L (projr (refresh_request L key qn ty))")
      (auto simp: start_task_def RefreshJob Let_def handler_simps)
  then show ?thesis
  proof cases
    case 1
    then show ?thesis using start_refresh_failed [OF t] by simp
  next
    case (2 wire)
    have "queue_ok ?h = queue_ok (track key h)" by (rule core_cong) (simp_all add: 2)
    moreover have frame: "h_flights ?h = h_flights h" "h_cache ?h = h_cache h" "h_metrics ?h = h_metrics h"
      "h_tasks ?h = (h_tasks h)(t \<mapsto> Querying j wire ?id)"
      "refresh_queue ?h = refresh_queue h" "unfinished_jobs ?h = unfinished_jobs h"
      "inflight_keys ?h = insert key (inflight_keys h)" by (simp_all add: 2 handler_simps)
    ultimately show ?thesis
      using set_querying_tasks [OF _ t frame(1,4)] track_queue_ok [of h key]
      by (auto simp: sound_def core_ok_def RefreshJob)
  qed
qed

lemma cancel_task_sound:
  assumes "h_tasks h t = Some st"
  shows "sound cc B h (cancel_task t st h)"
proof (cases st)
  case (Finished r)
  then show ?thesis by (simp add: cancel_task_def sound_def)
next
  case (Created j)
  then show ?thesis by (intro end_task_sound [OF assms]) (simp add: cancel_task_def)
next
  case (Querying j w r)
  then show ?thesis by (intro end_task_sound [OF assms]) (cases j; simp add: cancel_task_def)
qed

lemma quiet_scan: "quiet cc h (scan_loop now entries n h)"
proof (induction now entries n h rule: scan_loop.induct)
  case (2 now k e entries n h)
  obtain b h1 where e: "enqueue_refresh k ''tick'' h = (b, h1)" by (cases "enqueue_refresh k ''tick'' h")
  then have q: "quiet cc h h1" using quiet_enqueue [of cc h k "''tick''"] by simp
  show ?case using 2 e by (cases b) (auto intro: quiet_trans [OF q] q)
qed simp

lemma quiet_sweep: "quiet cc h (h\<lparr>h_flights := run_cleanup k t (h_flights h)\<rparr>)"
proof -
  let ?h = "h\<lparr>h_flights := run_cleanup k t (h_flights h)\<rparr>"
  have live: "live_key ?h = live_key h" by (rule ext) (simp add: live_key_def)
  have "running (h_flights ?h) = running (h_flights h)" "next_task (h_flights ?h) = next_task (h_flights h)"
    by (simp_all add: run_cleanup_def cleanup_def)
  then have "tasks_ok ?h" if "tasks_ok h"
    using that unfolding tasks_ok_def live by (simp add: run_cleanup_ok)
  moreover have "queue_ok ?h = queue_ok h" by (rule core_cong) simp_all
  ultimately show ?thesis using core_cong(3,4) [of ?h h] by (simp add: quiet_def core_ok_def)
qed

lemma quiet_clear:
  "quiet cc h (h\<lparr>h_cache := fst (clear (h_cache h) (h_metrics h)), h_metrics := snd (clear (h_cache h) (h_metrics h))\<rparr>)"
  (is "quiet cc h ?h")
proof -
  have "tasks_ok ?h = tasks_ok h" "queue_ok ?h = queue_ok h" "refreshing ?h = refreshing h" "grows h ?h"
    by (rule core_cong; simp)+
  then show ?thesis by (simp add: quiet_def core_ok_def clear_inv)
qed

lemma quiet_refresh_tasks: "quiet cc h (h\<lparr>refresh_tasks := ts\<rparr>)" (is "quiet cc h ?h")
proof -
  have "tasks_ok ?h = tasks_ok h" "queue_ok ?h = queue_ok h" "refreshing ?h = refreshing h" "grows h ?h"
    by (rule core_cong; simp)+
  then show ?thesis by (simp add: quiet_def core_ok_def)
qed

text \<open>A worker takes a job: its key joins those of the busy workers, or the job ends at once.\<close>

definition take_queue :: "cache_key \<Rightarrow> (cache_key \<times> string) list \<Rightarrow> handler \<Rightarrow> handler" where
  "take_queue key rest h = track key (h\<lparr>refresh_queue := rest\<rparr>)"

lemma take_queue_core:
  assumes "core_ok cc h" and "refresh_queue h = (key, r) # rest"
  shows "core_ok cc (take_queue key rest h)" "grows h (take_queue key rest h)"
    "refreshing (take_queue key rest h) = refreshing h"
proof -
  let ?h = "take_queue key rest h"
  have "queue_ok ?h"
    using assms by (force simp: core_ok_def queue_ok_def queue_capacity_def take_queue_def handler_simps)
  then show "core_ok cc ?h"
    using assms(1) core_cong(1) [of ?h h] by (simp add: core_ok_def take_queue_def handler_simps)
  show "grows h ?h" "refreshing ?h = refreshing h"
    by (rule core_cong; simp add: take_queue_def handler_simps)+
qed

lemma finally_metrics: "cache_inv cc c (h_metrics h) \<Longrightarrow> cache_inv cc c (h_metrics (worker_finally key a out cn h))"
  by (auto simp: worker_finally_def Let_def handler_simps inc_inv)

lemma finally_core:
  "core_ok cc h \<Longrightarrow> core_ok cc (worker_finally key a out cn h)"
  "grows h (worker_finally key a out cn h)" "refreshing (worker_finally key a out cn h) = refreshing h"
proof -
  let ?h = "worker_finally key a out cn h"
  have "tasks_ok ?h = tasks_ok h" "queue_ok ?h = queue_ok h" by (rule core_cong; simp add: handler_simps)+
  then show "core_ok cc h \<Longrightarrow> core_ok cc ?h" by (simp add: core_ok_def finally_metrics handler_simps)
  show "grows h ?h" "refreshing ?h = refreshing h" by (rule core_cong; simp add: handler_simps)+
qed

lemma worker_resume_finally:
  "\<exists>a out cn. worker_resume key res h = worker_finally key a out cn h"
  by (auto simp: worker_resume_def split: task_result.split option.split)

lemma worker_take_cases:
  assumes "worker_take L now h = Some (b, h')"
  obtains key r rest where "refresh_queue h = (key, r) # rest"
    and "(b = None \<and> (\<exists>a out. h' = worker_finally key a out False (take_queue key rest h))) \<or>
      (\<exists>j. flight_key_of j = Resolve key \<and> b = Some (key, fst (fst (enter_task j (take_queue key rest h)))) \<and>
         h' = snd (enter_task j (take_queue key rest h)))"
proof -
  obtain key r rest where q: "refresh_queue h = (key, r) # rest"
    using assms by (auto simp: worker_take_def split: list.splits)
  show thesis
  proof (cases "worth_refreshing now key h \<and> (\<exists>request. worker_request L key = Inr request)")
    case True
    then obtain request where w: "worth_refreshing now key h" "worker_request L key = Inr request" by blast
    let ?j = "ResolveJob request key (fst key) (snd (qtype_mapping L (fst (snd key))))"
    have "flight_key_of ?j = Resolve key" by simp
    with assms w show thesis
      by (intro that [OF q] disjI2 exI [of _ ?j]) (simp add: worker_take_eq [OF q] take_queue_def Let_def)
  next
    case False
    with assms show thesis
      by (intro that [OF q] disjI1)
        (auto simp: worker_take_eq [OF q] take_queue_def Let_def split: if_splits sum.splits)
  qed
qed

section \<open>The invariant of all runs\<close>

text \<open>The flight \<open>t\<close> serves the key: it exists, and if it still runs it resolves that key.\<close>

definition serves :: "handler \<Rightarrow> cache_key \<Rightarrow> nat \<Rightarrow> bool" where
  "serves h key t \<longleftrightarrow> h_tasks h t \<noteq> None \<and> (\<forall>k. live_key h t = Some k \<longrightarrow> k = Resolve key)"

lemma serves_grows: "serves h key t \<Longrightarrow> grows h h' \<Longrightarrow> serves h' key t"
  unfolding serves_def grows_def by (metis not_None_eq option.discI)

definition resolver_ok :: "cache_config \<Rightarrow> resolver \<Rightarrow> bool" where
  "resolver_ok cc s \<longleftrightarrow> core_ok cc (core s) \<and>
     inflight_keys (core s) \<subseteq> refreshing (core s) \<union> fst ` ran (busy s) \<and>
     finite (dom (busy s)) \<and>
     unfinished_jobs (core s) = length (refresh_queue (core s)) + card (dom (busy s)) \<and>
     (\<forall>i request t. awaiting s i = Some (request, t) \<longrightarrow>
        questions request \<noteq> [] \<and> serves (core s) (query_key (hd (questions request))) t) \<and>
     (\<forall>w key t. busy s w = Some (key, t) \<longrightarrow> serves (core s) key t)"

lemma resolver_ok_busy: "resolver_ok cc s \<Longrightarrow> busy s w = Some (key, t) \<Longrightarrow> serves (core s) key t"
  unfolding resolver_ok_def by blast

lemma resolver_ok_awaiting: "resolver_ok cc s \<Longrightarrow> awaiting s i = Some (request, t) \<Longrightarrow>
    questions request \<noteq> [] \<and> serves (core s) (query_key (hd (questions request))) t"
  unfolding resolver_ok_def by blast

lemma resolver_ok_move:
  assumes "resolver_ok cc s" and "core_ok cc h'" and gr: "grows (core s) h'"
    and "inflight_keys h' \<subseteq> refreshing h' \<union> fst ` ran B" and "finite (dom B)"
    and "unfinished_jobs h' = length (refresh_queue h') + card (dom B)"
    and "\<And>w key t. B w = Some (key, t) \<Longrightarrow> serves h' key t"
  shows "resolver_ok cc (s\<lparr>core := h', busy := B\<rparr>)"
proof -
  have "questions request \<noteq> [] \<and> serves h' (query_key (hd (questions request))) t"
    if "awaiting s i = Some (request, t)" for i request t
    using resolver_ok_awaiting [OF assms(1) that] serves_grows [OF _ gr] by blast
  with assms(2-) show ?thesis unfolding resolver_ok_def by simp
qed

lemma resolver_init_ok:
  assumes "cache_inv cc c M"
  shows "resolver_ok cc (resolver_init cfg c M)"
  using assms
  by (simp add: resolver_ok_def resolver_init_def core_ok_def tasks_ok_def queue_ok_def handler_init_def
      live_key_def [abs_def] flights_init_ok) (simp add: flights_init_def)

lemma resolver_ok_core:
  assumes ok: "resolver_ok cc s" and sd: "sound cc (fst ` ran (busy s)) (core s) h'"
  shows "resolver_ok cc (s\<lparr>core := h'\<rparr>)"
proof -
  from ok sd have "core_ok cc h'" "grows (core s) h'" "inflight_keys h' \<subseteq> refreshing h' \<union> fst ` ran (busy s)"
    "int (unfinished_jobs h') - int (length (refresh_queue h')) =
       int (unfinished_jobs (core s)) - int (length (refresh_queue (core s)))"
    unfolding resolver_ok_def sound_def by blast+
  moreover have "serves h' key t" if "serves (core s) key t" for key t
    using that \<open>grows (core s) h'\<close> by (rule serves_grows)
  ultimately show ?thesis using ok unfolding resolver_ok_def by simp
qed

lemmas resolver_ok_quiet = resolver_ok_core [OF _ quiet_sound]

lemma resolver_ok_cong:
  "core s' = core s \<Longrightarrow> awaiting s' = awaiting s \<Longrightarrow> busy s' = busy s \<Longrightarrow> resolver_ok cc s' = resolver_ok cc s"
  by (simp add: resolver_ok_def)

lemma settle_ok:
  assumes ok: "resolver_ok cc s" and q: "quiet cc (core s) (snd out)"
    and waits: "\<And>t. fst out = Await t \<Longrightarrow>
      questions request \<noteq> [] \<and> serves (snd out) (query_key (hd (questions request))) t"
  shows "resolver_ok cc (settle i request out s)"
proof -
  let ?s = "s\<lparr>core := snd out\<rparr>"
  have ok': "resolver_ok cc ?s" by (rule resolver_ok_quiet [OF ok q])
  obtain r h where out: "out = (r, h)" by (cases out)
  show ?thesis
  proof (cases "\<exists>t. r = Await t")
    case True
    then show ?thesis using ok' waits by (auto simp: settle_def out resolver_ok_def split: if_splits)
  next
    case False
    then have "settle i request out s = ?s\<lparr>awaiting := (awaiting s)(i := None), replies := replies s @ [(i, r)]\<rparr>"
      by (cases r) (auto simp: settle_def out)
    then show ?thesis using ok' by (auto simp: resolver_ok_def split: if_splits)
  qed
qed

lemma enter_task_serves:
  assumes "core_ok cc h" and "flight_key_of j = Resolve key"
  shows "serves (snd (enter_task j h)) key (fst (fst (enter_task j h)))"
proof -
  let ?h = "snd (enter_task j h)" and ?t = "fst (fst (enter_task j h))"
  from assms(1) have ok: "flights_ok (h_flights h)" by (simp add: core_ok_def tasks_ok_def)
  have tasks: "tasks_ok ?h" using quiet_enter [of cc h j] assms(1) by (simp add: quiet_def core_ok_def)
  have "flight_of (h_flights ?h) (Resolve key) = Some ?t"
    using enter_task_flight_of [OF ok, of j] assms(2) by simp
  then have "live_key ?h ?t = Some (Resolve key)"
    using tasks flight_of_iff [of "h_flights ?h"] by (auto simp: tasks_ok_def)
  then show ?thesis by (auto simp: serves_def live_key_def bind_eq_Some_conv)
qed

lemma handle_start_awaits:
  assumes "core_ok cc h" and "fst (handle_start L t1 t2 request h) = Await t"
  shows "questions request \<noteq> [] \<and>
    serves (snd (handle_start L t1 t2 request h)) (query_key (hd (questions request))) t"
proof (cases "questions request")
  case Nil
  with assms show ?thesis by (simp add: handle_start_def)
next
  case (Cons q qs)
  let ?h = "count ''cache_miss_total'' (after_stale L t1 t2 q h)"
  have "quiet cc h ?h"
    unfolding after_stale_def after_fresh_def
    by (rule quiet_trans [OF quiet_trans [OF quiet_trans [OF quiet_count quiet_reads(1)] quiet_reads(2)] quiet_count])
      simp_all
  with assms(1) have "core_ok cc ?h" by (simp add: quiet_def)
  then show ?thesis
    using assms(2)
      enter_task_serves [of cc ?h "ResolveJob request (query_key q) (query_name q) (snd (qtype_mapping L (q_type q)))"
        "query_key q"]
    by (auto simp: handle_start_eq [OF Cons] Cons serve_stale_def reply_from_wire_def Let_def
        split: tier.splits sum.splits)
qed

lemma handle_resume_no_await: "fst (handle_resume L now request t res h) \<noteq> Await u"
proof (cases "no_answer res \<and> questions request \<noteq> []")
  case True
  then obtain q qs where q: "questions request = q # qs" by (auto simp: neq_Nil_conv)
  show ?thesis using True
    by (simp add: handle_resume_no_answer [OF q] serve_stale_def reply_from_wire_def Let_def split: sum.split)
next
  case False
  then show ?thesis
    by (cases res) (auto simp: handle_resume_def no_answer_def Let_def split: option.split exn.split list.split)
qed

lemma take_ok:
  assumes ok: "resolver_ok cc s" and free: "busy s w = None"
    and took: "worker_take L now (core s) = Some (b, h')"
  shows "resolver_ok cc (s\<lparr>core := h', busy := (busy s)(w := b)\<rparr>)"
proof -
  obtain key r rest where q: "refresh_queue (core s) = (key, r) # rest"
    and out: "(b = None \<and> (\<exists>a o'. h' = worker_finally key a o' False (take_queue key rest (core s)))) \<or>
      (\<exists>j. flight_key_of j = Resolve key \<and> b = Some (key, fst (fst (enter_task j (take_queue key rest (core s))))) \<and>
         h' = snd (enter_task j (take_queue key rest (core s))))"
    using took by (rule worker_take_cases)
  let ?h0 = "take_queue key rest (core s)"
  from ok have cok: "core_ok cc (core s)" by (simp add: resolver_ok_def)
  note h0 = take_queue_core [OF cok q]
  have h0_sets: "inflight_keys ?h0 = insert key (inflight_keys (core s))" "refresh_queue ?h0 = rest"
    "unfinished_jobs ?h0 = unfinished_jobs (core s)" by (simp_all add: take_queue_def handler_simps)
  from out show ?thesis
  proof
    assume "b = None \<and> (\<exists>a o'. h' = worker_finally key a o' False ?h0)"
    then obtain a o' where b: "b = None" and h': "h' = worker_finally key a o' False ?h0" by blast
    have "core_ok cc h'" "grows (core s) h'" "refreshing h' = refreshing (core s)"
      using finally_core h0 grows_trans by (auto simp: h')
    moreover have "inflight_keys h' = inflight_keys (core s) - {key}" "refresh_queue h' = rest"
      "unfinished_jobs h' = unfinished_jobs (core s) - 1"
      by (simp_all add: h' handler_simps h0_sets)
    moreover have "(busy s)(w := b) = busy s" using free b by auto
    moreover have "serves h' k t" if "busy s v = Some (k, t)" for v k t
      using resolver_ok_busy [OF ok that] \<open>grows (core s) h'\<close> by (rule serves_grows)
    moreover have "inflight_keys (core s) \<subseteq> refreshing (core s) \<union> fst ` ran (busy s)" "finite (dom (busy s))"
      "unfinished_jobs (core s) = Suc (length rest) + card (dom (busy s))"
      using ok q by (simp_all add: resolver_ok_def)
    ultimately show ?thesis by (intro resolver_ok_move [OF ok]) (simp_all, blast)
  next
    assume "\<exists>j. flight_key_of j = Resolve key \<and> b = Some (key, fst (fst (enter_task j ?h0))) \<and> h' = snd (enter_task j ?h0)"
    then obtain j where j: "flight_key_of j = Resolve key" and h': "h' = snd (enter_task j ?h0)"
      and b: "b = Some (key, fst (fst (enter_task j ?h0)))" by blast
    have h'_ok: "core_ok cc h'" "grows (core s) h'" "refreshing h' = refreshing (core s)"
      "inflight_keys h' = insert key (inflight_keys (core s))" "refresh_queue h' = rest"
      "unfinished_jobs h' = unfinished_jobs (core s)"
      using quiet_enter [of cc ?h0 j] h0 grows_trans [of "core s" ?h0 h']
      by (simp_all add: quiet_def h' handler_simps h0_sets)
    have new: "serves h' key (fst (fst (enter_task j ?h0)))"
      unfolding h' by (rule enter_task_serves [OF h0(1) j])
    have fin: "finite (dom (busy s))" and w: "w \<notin> dom (busy s)" using ok free by (auto simp: resolver_ok_def)
    have B: "ran ((busy s)(w := b)) = insert (key, fst (fst (enter_task j ?h0))) (ran (busy s))"
      using free by (simp add: b)
    have card: "card (dom ((busy s)(w := b))) = Suc (card (dom (busy s)))" using fin w by (simp add: b)
    have sv: "serves h' k t" if "((busy s)(w := b)) v = Some (k, t)" for v k t
      using that new serves_grows [OF resolver_ok_busy [OF ok] h'_ok(2), of v k t]
      by (auto simp: b split: if_splits)
    have "inflight_keys (core s) \<subseteq> refreshing (core s) \<union> fst ` ran (busy s)"
      "unfinished_jobs (core s) = Suc (length rest) + card (dom (busy s))"
      using ok q by (simp_all add: resolver_ok_def)
    then have "inflight_keys h' \<subseteq> refreshing h' \<union> fst ` ran ((busy s)(w := b))"
      "unfinished_jobs h' = length (refresh_queue h') + card (dom ((busy s)(w := b)))"
      unfolding B card h'_ok(3-6) by auto
    moreover have "finite (dom ((busy s)(w := b)))" using fin by (simp add: b)
    ultimately show ?thesis using resolver_ok_move [OF ok h'_ok(1,2), of "(busy s)(w := b)"] sv by simp
  qed
qed

lemma worker_wake_ok:
  assumes ok: "resolver_ok cc s" and w: "busy s w = Some (key, t)"
    and h': "h' = worker_finally key a out cn (core s)"
  shows "resolver_ok cc (s\<lparr>core := h', busy := (busy s)(w := None)\<rparr>)"
proof -
  from ok have cok: "core_ok cc (core s)" and fin: "finite (dom (busy s))" by (simp_all add: resolver_ok_def)
  have h'_ok: "core_ok cc h'" "grows (core s) h'" "refreshing h' = refreshing (core s)"
    "inflight_keys h' = inflight_keys (core s) - {key}" "refresh_queue h' = refresh_queue (core s)"
    "unfinished_jobs h' = unfinished_jobs (core s) - 1"
    using finally_core(1) [OF cok] finally_core(2,3) by (simp_all add: h' handler_simps)
  have "w \<in> dom (busy s)" using w by auto
  then have card: "card (dom (busy s)) = Suc (card (dom ((busy s)(w := None))))"
    using card_Suc_Diff1 [OF fin] by simp
  have "inflight_keys h' \<subseteq> refreshing h' \<union> fst ` ran ((busy s)(w := None))"
  proof
    fix k assume "k \<in> inflight_keys h'"
    then have k: "k \<noteq> key" "k \<in> refreshing (core s) \<union> fst ` ran (busy s)"
      using ok h'_ok(4) by (auto simp: resolver_ok_def)
    show "k \<in> refreshing h' \<union> fst ` ran ((busy s)(w := None))"
    proof (cases "k \<in> refreshing (core s)")
      case False
      with k obtain v u where "busy s v = Some (k, u)" by (auto simp: ran_def)
      with k(1) w have "((busy s)(w := None)) v = Some (k, u)" by auto
      then have "(k, u) \<in> ran ((busy s)(w := None))" by (rule ranI)
      then show ?thesis by force
    qed (simp add: h'_ok(3))
  qed
  moreover have "finite (dom ((busy s)(w := None)))" using fin by simp
  moreover have "unfinished_jobs h' = length (refresh_queue h') + card (dom ((busy s)(w := None)))"
    using ok card by (simp add: h'_ok resolver_ok_def)
  moreover have "serves h' k u" if "((busy s)(w := None)) v = Some (k, u)" for v k u
    using that serves_grows [OF resolver_ok_busy [OF ok] h'_ok(2), of v k u] by (simp split: if_splits)
  ultimately show ?thesis by (rule resolver_ok_move [OF ok h'_ok(1,2)])
qed

lemma finished_resultD: "finished_result h t = Some r \<Longrightarrow> h_tasks h t = Some (Finished r)"
  by (auto simp: finished_result_def split: option.splits task_state.splits)

lemma cancel_client_ok: "resolver_ok cc s \<Longrightarrow> resolver_ok cc (cancel_client i s)"
  by (auto simp: cancel_client_def resolver_ok_def split: option.split)

lemma cancel_background_frame:
  "core (cancel_background b s) = core s" "awaiting (cancel_background b s) = awaiting s" "busy (cancel_background b s) = busy s"
  by (simp_all add: cancel_background_def split: background.split option.split)

lemma cancel_backgrounds_frame:
  "core (fold cancel_background bs s) = core s" "awaiting (fold cancel_background bs s) = awaiting s"
  "busy (fold cancel_background bs s) = busy s"
  by (induction bs arbitrary: s) (simp_all add: cancel_background_frame)

lemma stop_refresh_ok: "resolver_ok cc s \<Longrightarrow> resolver_ok cc (stop_refresh_tasks s)"
  by (subst resolver_ok_cong [of _ s]) (simp_all add: stop_refresh_tasks_def cancel_backgrounds_frame)

lemma step_ok:
  assumes ok: "resolver_ok cc s" and "step L e s = Some s'"
  shows "resolver_ok cc s'"
proof (cases e)
  case (Query i request t1 t2)
  from ok have "core_ok cc (core s)" by (simp add: resolver_ok_def)
  from settle_ok [OF ok quiet_handle_start handle_start_awaits [OF this]] assms(2) Query
  show ?thesis by (auto split: if_splits)
next
  case (Wake i now)
  with assms(2) obtain request t r where w: "finished_result (core s) t = Some r"
    and s': "s' = settle i request (handle_resume L now request t r (core s)) s"
    by (auto split: option.splits)
  show ?thesis unfolding s'
    by (rule settle_ok [OF ok quiet_handle_resume [OF w]]) (simp add: handle_resume_no_await)
next
  case (Start t)
  with assms(2) obtain j where "h_tasks (core s) t = Some (Created j)" "s' = s\<lparr>core := start_task L t j (core s)\<rparr>"
    by (auto split: option.splits task_state.splits if_splits)
  with ok show ?thesis by (simp add: resolver_ok_core start_task_sound)
next
  case (Answer t a b t1 t2)
  with assms(2) obtain j w rid where "h_tasks (core s) t = Some (Querying j w rid)"
    "s' = s\<lparr>core := finish_task L t1 t2 t j rid a b (core s)\<rparr>"
    by (auto split: option.splits task_state.splits if_splits)
  with ok show ?thesis by (simp add: resolver_ok_core finish_task_sound)
next
  case (CancelClient i)
  with assms(2) ok show ?thesis by (auto simp: cancel_client_ok)
next
  case (Cancel t)
  with assms(2) ok show ?thesis by (auto intro!: resolver_ok_core cancel_task_sound)
next
  case (Sweep k t)
  with assms(2) ok show ?thesis by (auto intro!: resolver_ok_quiet quiet_sweep)
next
  case (Tick now)
  with assms(2) ok show ?thesis
    by (auto simp: refresh_scan_tick_def split: if_splits intro!: resolver_ok_quiet quiet_scan)
next
  case (Take w now)
  with assms(2) obtain b h' where "busy s w = None" "worker_take L now (core s) = Some (b, h')"
    "s' = s\<lparr>core := h', busy := (busy s)(w := b)\<rparr>" by (auto simp del: not_None_eq split: if_splits)
  with ok show ?thesis by (simp add: take_ok)
next
  case (WorkerWake w)
  with assms(2) obtain key t r where w: "busy s w = Some (key, t)"
    and s': "s' = s\<lparr>core := worker_resume key r (core s), busy := (busy s)(w := None),
      ended := (if r = Raised CancelledError then insert w (ended s) else ended s)\<rparr>"
    by (auto simp: Let_def split: option.splits)
  obtain a out cn where "worker_resume key r (core s) = worker_finally key a out cn (core s)"
    using worker_resume_finally by blast
  then have "resolver_ok cc (s\<lparr>core := worker_resume key r (core s), busy := (busy s)(w := None)\<rparr>)"
    by (rule worker_wake_ok [OF ok w])
  then show ?thesis by (rule iffD1 [OF resolver_ok_cong, rotated 3]) (simp_all add: s')
next
  case (Enqueue key reason)
  with assms(2) ok show ?thesis by (auto intro!: resolver_ok_quiet quiet_enqueue)
next
  case Clear
  with assms(2) ok show ?thesis
    using resolver_ok_quiet [OF ok quiet_clear] by (auto split: prod.splits)
next
  case StartRefresh
  with assms(2) ok show ?thesis
    by (auto simp: start_refresh_tasks_def Let_def intro!: resolver_ok_quiet quiet_refresh_tasks)
next
  case StopRefresh
  with assms(2) ok show ?thesis by (auto simp: stop_refresh_ok)
next
  case StopDone
  with assms(2) have s': "s' = stop_refresh_done s" by (auto split: if_splits)
  have "resolver_ok cc (s\<lparr>core := (core s)\<lparr>refresh_tasks := []\<rparr>\<rparr>)"
    by (rule resolver_ok_quiet [OF ok quiet_refresh_tasks])
  then show ?thesis by (rule iffD1 [OF resolver_ok_cong, rotated 3]) (simp_all add: s' stop_refresh_done_def)
qed

lemma run_ok: "resolver_ok cc s \<Longrightarrow> run L es s = Some s' \<Longrightarrow> resolver_ok cc s'"
  by (induction es arbitrary: s) (auto split: option.splits dest: step_ok)

section \<open>Properties of all runs\<close>

text \<open>The states of a handler with an empty cache, after any sequence of events.\<close>

definition reachable :: "dnslib \<Rightarrow> handler_config \<Rightarrow> cache_config \<Rightarrow> resolver \<Rightarrow> bool" where
  "reachable L cfg cc s \<longleftrightarrow>
     (\<exists>es M. (M = None \<or> M = Some metrics_init) \<and> run L es (resolver_init cfg (cache_init cc) M) = Some s)"

lemma reachable_ok: "cache_config_ok cc \<Longrightarrow> reachable L cfg cc s \<Longrightarrow> resolver_ok cc s"
proof -
  assume cc: "cache_config_ok cc" and "reachable L cfg cc s"
  then obtain es M where M: "M = None \<or> M = Some metrics_init"
    and run: "run L es (resolver_init cfg (cache_init cc) M) = Some s" by (auto simp: reachable_def)
  have "cache_inv cc (cache_init cc) M"
    using M cache_init_ok [OF cc] by (auto simp: cache_inv_def cache_init_def)
  then show ?thesis using run_ok [OF resolver_init_ok run] by blast
qed

text \<open>
  C2. Whatever the interleaving of clients, flights, upstream answers, cancellations, cleanups, scans
  and workers: the flight group and the tasks agree, the refresh queue respects its limit and every
  queued key is in it, the cache keeps its invariant and its gauge, a key is marked as being refreshed
  only while a refresh task awaits the upstream for it or a worker is busy with it, the unfinished jobs
  are exactly the queued ones and those of the busy workers, and every waiting client or busy worker
  waits for a flight that exists and, while it runs, resolves the key it asked for.
\<close>

theorem resolver_invariant:
  assumes "cache_config_ok cc" and "reachable L cfg cc s"
  shows "resolver_ok cc s"
  by (rule reachable_ok [OF assms])

text \<open>
  C11. At most one upstream query is outstanding per flight key: two tasks that both await the upstream
  (or are about to) with the same key are the same task. So concurrent misses of one name share one
  query, and so do concurrent refreshes.
\<close>

theorem one_query_per_flight:
  assumes "cache_config_ok cc" and "reachable L cfg cc s"
    and "h_tasks (core s) t = Some st" and "live_job st = Some j"
    and "h_tasks (core s) t' = Some st'" and "live_job st' = Some j'"
    and "flight_key_of j = flight_key_of j'"
  shows "t = t'"
proof -
  from reachable_ok [OF assms(1,2)] have ok: "flights_ok (h_flights (core s))"
    and run: "running (h_flights (core s)) = live_key (core s)"
    by (simp_all add: resolver_ok_def core_ok_def tasks_ok_def)
  have "live_key (core s) t = Some (flight_key_of j)" "live_key (core s) t' = Some (flight_key_of j)"
    using assms by (simp_all add: live_key_def)
  with running_in_table [OF ok, of t] running_in_table [OF ok, of t'] show ?thesis by (simp add: run)
qed

section \<open>Waiting clients\<close>

lemma settle_core: "core (settle i request out s) = snd out"
  by (simp add: settle_def split: prod.split handle_result.split)

lemma worker_take_grows:
  assumes "core_ok cc h" and "worker_take L now h = Some (b, h')"
  shows "grows h h'"
proof -
  obtain key r rest where q: "refresh_queue h = (key, r) # rest"
    and out: "(\<exists>a out. h' = worker_finally key a out False (take_queue key rest h)) \<or>
      (\<exists>j. h' = snd (enter_task j (take_queue key rest h)))"
    using worker_take_cases [OF assms(2)] by metis
  note h0 = take_queue_core [OF assms(1) q]
  have "grows (take_queue key rest h) (snd (enter_task j (take_queue key rest h)))" for j
    using quiet_enter [of cc _ j] h0(1) by (simp add: quiet_def)
  with out show ?thesis by (auto intro: grows_trans [OF h0(2)] finally_core(2))
qed

lemma step_grows:
  assumes ok: "resolver_ok cc s" and st: "step L e s = Some s'"
  shows "grows (core s) (core s')"
proof -
  have cok: "core_ok cc (core s)" and keys: "inflight_keys (core s) \<subseteq> refreshing (core s) \<union> fst ` ran (busy s)"
    using ok by (simp_all add: resolver_ok_def)
  have q: "grows (core s) h" if "quiet cc (core s) h" for h using that cok by (simp add: quiet_def)
  have sd: "grows (core s) h" if "sound cc (fst ` ran (busy s)) (core s) h" for h using that cok keys by (simp add: sound_def)
  show ?thesis
  proof (cases e)
    case (Query i request t1 t2)
    with st show ?thesis by (auto simp: settle_core split: if_splits intro!: q quiet_handle_start)
  next
    case (Wake i now)
    with st show ?thesis by (auto simp: settle_core split: option.splits intro!: q quiet_handle_resume)
  next
    case (Start t)
    with st show ?thesis by (auto split: option.splits task_state.splits if_splits intro!: sd start_task_sound)
  next
    case (Answer t a b t1 t2)
    with st show ?thesis by (auto split: option.splits task_state.splits if_splits intro!: sd finish_task_sound)
  next
    case (Cancel t)
    with st show ?thesis by (auto intro!: sd cancel_task_sound)
  next
    case (Sweep k t)
    with st show ?thesis by (auto intro!: q quiet_sweep)
  next
    case (Tick now)
    with st show ?thesis by (auto simp: refresh_scan_tick_def split: if_splits intro!: q quiet_scan)
  next
    case (Take w now)
    with st obtain b h where "worker_take L now (core s) = Some (b, h)" "core s' = h" by (auto split: if_splits)
    with worker_take_grows [OF cok] show ?thesis by blast
  next
    case (WorkerWake w)
    with st show ?thesis
      using worker_resume_finally finally_core(2) by (auto simp: Let_def split: option.splits) metis+
  next
    case (Enqueue key reason)
    with st show ?thesis by (auto intro!: q quiet_enqueue)
  next
    case Clear
    with st show ?thesis using q [OF quiet_clear] by (auto split: prod.splits)
  next
    case StartRefresh
    with st show ?thesis by (auto simp: start_refresh_tasks_def Let_def intro!: q quiet_refresh_tasks)
  next
    case StopDone
    with st show ?thesis by (auto simp: stop_refresh_done_def split: if_splits intro!: q quiet_refresh_tasks)
  qed (use st in \<open>auto simp: cancel_client_def stop_refresh_tasks_def cancel_backgrounds_frame split: option.split\<close>)
qed

text \<open>The events of flight \<open>t\<close>: it starts, its upstream call ends, or a cancellation reaches it.\<close>

fun flight_event :: "nat \<Rightarrow> event \<Rightarrow> bool" where
  "flight_event t (Start u) \<longleftrightarrow> u = t"
| "flight_event t (Answer u _ _ _ _) \<longleftrightarrow> u = t"
| "flight_event t (Cancel u) \<longleftrightarrow> u = t"
| "flight_event t _ \<longleftrightarrow> False"

fun wake_event :: "nat \<Rightarrow> event \<Rightarrow> bool" where
  "wake_event i (Wake j _) \<longleftrightarrow> j = i"
| "wake_event i _ \<longleftrightarrow> False"

lemma start_task_state:
  "\<exists>st. h_tasks (start_task L t j h) t = Some st \<and> rank st < 2"
  by (cases j) (auto simp: start_task_def end_task_def Let_def split: sum.split)

lemma finish_task_state: "\<exists>r. h_tasks (finish_task L t1 t2 t j rid a b h) t = Some (Finished r)"
  by (simp add: finish_task_def end_task_def Let_def split: prod.split)

lemma flight_event_rank:
  assumes "flight_event t e" and st: "step L e s = Some s'" and "h_tasks (core s) t = Some p" and "0 < rank p"
  shows "\<exists>p'. h_tasks (core s') t = Some p' \<and> rank p' < rank p"
proof -
  from assms(1) consider "e = Start t" | a b t1 t2 where "e = Answer t a b t1 t2" | "e = Cancel t"
    by (cases e) auto
  then show ?thesis
  proof cases
    case 1
    then show ?thesis using st assms(3) start_task_state [of L t _ "core s"] by (cases p) (auto split: if_splits)
  next
    case 2
    then show ?thesis using st assms(3) finish_task_state [of L _ _ t _ _ _ _ "core s"]
      by (cases p) (fastforce split: if_splits)+
  next
    case 3
    then show ?thesis using st assms(3,4) by (cases p) (auto simp: cancel_task_def end_task_def)
  qed
qed

text \<open>
  What one event means to a waiting client: it goes on waiting for the same flight; or it wakes up and
  gets what \<open>handle\<close> makes of the result of the flight; or it is cancelled after its flight has ended.
\<close>

definition wait_ends :: "dnslib \<Rightarrow> nat \<Rightarrow> dns_record \<Rightarrow> nat \<Rightarrow> event \<Rightarrow> resolver \<Rightarrow> resolver \<Rightarrow> bool" where
  "wait_ends L i request t e s s' \<longleftrightarrow> awaiting s' i = None \<and>
     (\<exists>res m. finished_result (core s) t = Some res \<and> replies s' = replies s @ [(i, m)] \<and> (\<forall>u. m \<noteq> Await u) \<and>
        ((\<exists>now. e = Wake i now \<and> m = fst (handle_resume L now request t res (core s))) \<or>
         e = CancelClient i \<and> m = Fail CancelledError))"

lemma settle_others: "j \<noteq> i \<Longrightarrow> awaiting (settle j request out s) i = awaiting s i"
  by (simp add: settle_def split: prod.split handle_result.split)

lemma wake_ends:
  assumes "awaiting s i = Some (request, t)" and "step L (Wake i now) s = Some s'"
  shows "wait_ends L i request t (Wake i now) s s'"
proof -
  obtain res where res: "finished_result (core s) t = Some res"
    and s': "s' = settle i request (handle_resume L now request t res (core s)) s" using assms by auto
  obtain m h where out: "handle_resume L now request t res (core s) = (m, h)" by fastforce
  with handle_resume_no_await [of L now request t res "core s"] have "\<forall>u. m \<noteq> Await u" by simp
  then show ?thesis by (auto simp: wait_ends_def res s' out settle_def split: handle_result.split)
qed

lemma step_waiting:
  assumes aw: "awaiting s i = Some (request, t)" and st: "step L e s = Some s'"
  shows "awaiting s' i = Some (request, t) \<or> wait_ends L i request t e s s'"
proof (cases e)
  case (Query j rq t1 t2)
  with aw st have "j \<noteq> i" by auto
  with Query aw st show ?thesis by (auto simp: settle_others split: if_splits)
next
  case (Wake j now)
  show ?thesis
  proof (cases "j = i")
    case True
    with Wake aw st wake_ends [OF aw] show ?thesis by blast
  next
    case False
    with Wake aw st show ?thesis by (auto simp: settle_others split: option.splits)
  qed
next
  case (CancelClient j)
  with aw st show ?thesis
    by (cases "j = i"; cases "finished_result (core s) t")
      (auto simp: cancel_client_def wait_ends_def split: option.splits if_splits)
qed (use aw st in \<open>auto simp: Let_def stop_refresh_tasks_def cancel_backgrounds_frame stop_refresh_done_def
    split: option.splits task_state.splits if_splits prod.splits\<close>)

text \<open>
  A client that waits can always go on: once its flight has ended, it can wake up; a flight that is to be
  cancelled can take the cancellation; any other flight can start, or take whatever its upstream call
  gives.
\<close>

definition can_proceed :: "dnslib \<Rightarrow> nat \<Rightarrow> nat \<Rightarrow> resolver \<Rightarrow> bool" where
  "can_proceed L i t s \<longleftrightarrow>
     (if finished_result (core s) t \<noteq> None then \<forall>now. step L (Wake i now) s \<noteq> None
      else if t \<in> doomed s then step L (Cancel t) s \<noteq> None
      else step L (Start t) s \<noteq> None \<or> (\<forall>a b t1 t2. step L (Answer t a b t1 t2) s \<noteq> None))"

lemma awaited_task:
  assumes "resolver_ok cc s" and "awaiting s i = Some (request, t)"
  obtains p where "h_tasks (core s) t = Some p"
  using resolver_ok_awaiting [OF assms] by (auto simp: serves_def)

lemma waiting_can_proceed:
  assumes "resolver_ok cc s" and "awaiting s i = Some (request, t)"
  shows "can_proceed L i t s"
proof -
  obtain p where "h_tasks (core s) t = Some p" by (rule awaited_task [OF assms])
  with assms(2) show ?thesis by (cases p) (auto simp: can_proceed_def finished_result_def)
qed

lemma finished_rank: "h_tasks h t = Some p \<Longrightarrow> finished_result h t \<noteq> None \<longleftrightarrow> rank p = 0"
  by (cases p) (auto simp: finished_result_def)

section \<open>Infinite executions\<close>

text \<open>
  An execution is an infinite sequence of events and states. It serves a flight if the flight, as long as
  it has not ended, always has another event to come: the event loop runs it, its upstream call returns
  or raises, and a cancellation reaches it. It is fair to a client if it does not put off its wake-up
  for ever.
\<close>

definition execution :: "dnslib \<Rightarrow> (nat \<Rightarrow> event) \<Rightarrow> (nat \<Rightarrow> resolver) \<Rightarrow> bool" where
  "execution L ev tr \<longleftrightarrow> (\<forall>n. step L (ev n) (tr n) = Some (tr (Suc n)))"

definition serves_flight :: "(nat \<Rightarrow> event) \<Rightarrow> (nat \<Rightarrow> resolver) \<Rightarrow> nat \<Rightarrow> bool" where
  "serves_flight ev tr t \<longleftrightarrow> (\<forall>n. \<exists>m\<ge>n. finished_result (core (tr m)) t \<noteq> None \<or> flight_event t (ev m))"

definition fair_to_client :: "dnslib \<Rightarrow> (nat \<Rightarrow> event) \<Rightarrow> (nat \<Rightarrow> resolver) \<Rightarrow> nat \<Rightarrow> bool" where
  "fair_to_client L ev tr i \<longleftrightarrow> (\<forall>n. \<exists>m\<ge>n. (\<forall>now. step L (Wake i now) (tr m) = None) \<or> wake_event i (ev m))"

lemma execution_ok:
  assumes "execution L ev tr" and "resolver_ok cc (tr 0)"
  shows "resolver_ok cc (tr n)"
  using assms by (induction n) (auto simp: execution_def intro: step_ok)

lemma execution_grows:
  assumes "execution L ev tr" and "resolver_ok cc (tr 0)" and "n \<le> m"
  shows "grows (core (tr n)) (core (tr m))"
  using assms(3)
proof (induction m rule: dec_induct)
  case (step m)
  have "grows (core (tr m)) (core (tr (Suc m)))"
    using assms(1) by (intro step_grows [OF execution_ok [OF assms(1,2)], where L = L and e = "ev m"]) (simp add: execution_def)
  with step.IH show ?case by (rule grows_trans)
qed simp

lemma flight_ends:
  assumes ex: "execution L ev tr" and ok: "resolver_ok cc (tr 0)" and "serves_flight ev tr t"
    and "h_tasks (core (tr n)) t = Some p"
  shows "\<exists>m\<ge>n. finished_result (core (tr m)) t \<noteq> None"
  using assms(4)
proof (induction "rank p" arbitrary: n p rule: less_induct)
  case less
  obtain m where m: "n \<le> m" "finished_result (core (tr m)) t \<noteq> None \<or> flight_event t (ev m)"
    using assms(3) unfolding serves_flight_def by blast
  obtain p1 where p1: "h_tasks (core (tr m)) t = Some p1" "rank p1 \<le> rank p"
    using execution_grows [OF ex ok m(1)] less.prems unfolding grows_def by blast
  show ?case
  proof (cases "rank p1 = 0")
    case True
    with m(1) finished_rank [OF p1(1)] show ?thesis by blast
  next
    case False
    with m(2) finished_rank [OF p1(1)] have "flight_event t (ev m)" by blast
    moreover have "step L (ev m) (tr m) = Some (tr (Suc m))" using ex by (simp add: execution_def)
    ultimately obtain p2 where p2: "h_tasks (core (tr (Suc m))) t = Some p2" "rank p2 < rank p1"
      using flight_event_rank [OF _ _ p1(1)] False by blast
    then have "rank p2 < rank p" using p1(2) by simp
    from less.hyps [OF this p2(1)] m(1) show ?thesis by (meson Suc_leD le_trans)
  qed
qed

lemma finished_stays:
  assumes ex: "execution L ev tr" and ok: "resolver_ok cc (tr 0)" and "n \<le> m"
    and fin: "finished_result (core (tr n)) t \<noteq> None"
  shows "finished_result (core (tr m)) t \<noteq> None"
proof -
  obtain p where p: "h_tasks (core (tr n)) t = Some p" "rank p = 0"
    using fin by (auto simp: finished_result_def split: option.splits task_state.splits)
  then obtain p' where "h_tasks (core (tr m)) t = Some p'" "rank p' = 0"
    using execution_grows [OF ex ok assms(3)] unfolding grows_def by fastforce
  then show ?thesis using finished_rank by blast
qed

lemma wait_is_finite:
  assumes ex: "execution L ev tr" and ok: "resolver_ok cc (tr 0)" and "serves_flight ev tr t" and "fair_to_client L ev tr i"
    and aw: "awaiting (tr n) i = Some (request, t)"
  shows "\<exists>k>n. awaiting (tr k) i \<noteq> Some (request, t)"
proof (rule ccontr)
  assume "\<not> (\<exists>k>n. awaiting (tr k) i \<noteq> Some (request, t))"
  with aw have always: "awaiting (tr k) i = Some (request, t)" if "n \<le> k" for k
    using that by (metis le_neq_implies_less)
  obtain p where "h_tasks (core (tr n)) t = Some p" by (rule awaited_task [OF execution_ok [OF ex ok] aw])
  then obtain m where m: "n \<le> m" "finished_result (core (tr m)) t \<noteq> None"
    using flight_ends [OF ex ok assms(3)] by blast
  obtain k where k: "m \<le> k" "(\<forall>now. step L (Wake i now) (tr k) = None) \<or> wake_event i (ev k)"
    using assms(4) unfolding fair_to_client_def by blast
  have awk: "awaiting (tr k) i = Some (request, t)" using always m(1) k(1) by simp
  have "step L (Wake i now) (tr k) \<noteq> None" for now
    using waiting_can_proceed [OF execution_ok [OF ex ok] awk, of L] finished_stays [OF ex ok k(1) m(2)]
    by (simp add: can_proceed_def)
  with k(2) obtain now where "ev k = Wake i now" by (cases "ev k") auto
  with ex have "step L (Wake i now) (tr k) = Some (tr (Suc k))" by (metis execution_def)
  from wake_ends [OF awk this] always [of "Suc k"] m(1) k(1) show False by (simp add: wait_ends_def)
qed

text \<open>
  C10. No client waits for ever. Take any infinite execution of the handler from a reachable state and a
  client that waits in it for a flight. Assume that the execution serves this flight, so the upstream
  call, if it comes to one, returns or raises at some time (in whatever way), and that it is fair to
  this client. Then the wait ends: there is an event up to which the client waits for that flight, at
  every moment able to go on, and which ends its wait with a result. At that event the flight has ended,
  and the result is what \<open>handle\<close> makes of what the flight gave (a reply, or the exception that it raises),
  or CancelledError if the client itself is cancelled; it is never another wait.
\<close>

theorem client_not_stuck:
  assumes "cache_config_ok cc" and "reachable L cfg cc (tr 0)" and "execution L ev tr"
    and "awaiting (tr n) i = Some (request, t)" and "serves_flight ev tr t" and "fair_to_client L ev tr i"
  shows "\<exists>m\<ge>n. (\<forall>k. n \<le> k \<and> k \<le> m \<longrightarrow> awaiting (tr k) i = Some (request, t) \<and> can_proceed L i t (tr k)) \<and>
    wait_ends L i request t (ev m) (tr m) (tr (Suc m))"
proof -
  note ok = reachable_ok [OF assms(1,2)]
  let ?over = "\<lambda>k. n < k \<and> awaiting (tr k) i \<noteq> Some (request, t)"
  define k where "k = (LEAST k. ?over k)"
  have "\<exists>k. ?over k" using wait_is_finite [OF assms(3) ok assms(5,6,4)] by blast
  then have k: "n < k" "awaiting (tr k) i \<noteq> Some (request, t)" using LeastI_ex [of ?over] unfolding k_def by blast+
  have before: "awaiting (tr l) i = Some (request, t)" if "n \<le> l" "l < k" for l
    using that assms(4) not_less_Least [of l ?over] by (cases "l = n") (auto simp: k_def)
  obtain m where m: "k = Suc m" "n \<le> m" using k(1) by (cases k) auto
  have "step L (ev m) (tr m) = Some (tr k)" using assms(3) m(1) by (simp add: execution_def)
  with step_waiting [OF before [OF m(2)]] k(2) m(1) have "wait_ends L i request t (ev m) (tr m) (tr (Suc m))" by blast
  moreover have "awaiting (tr l) i = Some (request, t) \<and> can_proceed L i t (tr l)" if "n \<le> l" "l \<le> m" for l
    using before [of l] waiting_can_proceed [OF execution_ok [OF assms(3) ok]] that m(1) by simp
  ultimately show ?thesis using m(2) by blast
qed

section \<open>Sample runs\<close>

definition sample_start :: resolver where
  "sample_start = resolver_init default_handler_config (cache_init default_cache_config) (Some metrics_init)"

lemmas sample_run_simps =
  sample_start_def resolver_init_def handler_init_def cache_init_def default_cache_config_def
  default_handler_config_def flights_init_def handle_start_eq [OF sample_questions] lookup_tier_def cache_view_def
  view_entry_def settle_def after_stale_def after_fresh_def cache_reads_eq get_fresh_def get_stale_def
  enter_task_def get_or_create_def is_done_def create_task_def start_task_def finish_task_def query_upstream_def
  absorb_answer_def put_def compute_ttl_seconds_def ttls_def map_filter_simps evict_if_needed_def
  update_cache_entries_def end_task_def task_done_def finished_result_def handle_resume_def with_txid_def
  touch_def move_to_end_def serve_stale_def enqueue_refresh_def queue_full_def schedule_refresh_def
  reply_from_wire_def track_def untrack_def refresh_request_def record_hit_def class_text_def Let_def
  sample_question_simps sample_msg_simps sample_lib_more sample_pack_def sample_parse_def sample_rr_def

lemma sample_reachable:
  "run sample_lib es sample_start = Some s \<Longrightarrow> reachable sample_lib default_handler_config default_cache_config s"
  unfolding reachable_def sample_start_def by blast

lemma default_cache_config_ok: "cache_config_ok default_cache_config"
  by (simp add: cache_config_ok_def default_cache_config_def)

text \<open>Two clients ask for the same name: both wait for task 0.\<close>

lemma sample_two_clients:
  obtains s where "run sample_lib [Query 1 (sample_msg 5 0 []) 1 1, Query 2 (sample_msg 6 0 []) 1 1] sample_start = Some s"
    and "awaiting s 1 = Some (sample_msg 5 0 [], 0)" and "awaiting s 2 = Some (sample_msg 6 0 [], 0)"
    and "h_tasks (core s) 0 = Some (Created (ResolveJob (sample_msg 5 0 []) key1 ''example.com'' ''A''))"
  by (simp add: sample_run_simps)

lemma resolver_invariant_witness:
  "\<exists>s. run sample_lib [Query 1 (sample_msg 5 0 []) 1 1, Query 2 (sample_msg 6 0 []) 1 1] sample_start = Some s \<and>
     resolver_ok default_cache_config s \<and> awaiting s 2 = Some (sample_msg 6 0 [], 0)"
proof (rule sample_two_clients)
  fix s assume s: "run sample_lib [Query 1 (sample_msg 5 0 []) 1 1, Query 2 (sample_msg 6 0 []) 1 1] sample_start = Some s"
    "awaiting s 2 = Some (sample_msg 6 0 [], 0)"
  with resolver_invariant [OF default_cache_config_ok sample_reachable [OF s(1)]] show ?thesis by blast
qed

lemma one_query_per_flight_witness:
  "\<exists>s j. run sample_lib [Query 1 (sample_msg 5 0 []) 1 1, Query 2 (sample_msg 6 0 []) 1 1] sample_start = Some s \<and>
     h_tasks (core s) 0 = Some (Created j) \<and>
     (\<forall>t. h_tasks (core s) t = Some (Created j) \<longrightarrow> 0 = t)"
proof (rule sample_two_clients)
  fix s assume s: "run sample_lib [Query 1 (sample_msg 5 0 []) 1 1, Query 2 (sample_msg 6 0 []) 1 1] sample_start = Some s"
    "h_tasks (core s) 0 = Some (Created (ResolveJob (sample_msg 5 0 []) key1 ''example.com'' ''A''))"
  with one_query_per_flight [OF default_cache_config_ok sample_reachable [OF s(1)] s(2) _ _ _ refl]
  show ?thesis by auto
qed

text \<open>A finite run, continued for ever by an event that changes nothing.\<close>

definition padded_events :: "event list \<Rightarrow> event \<Rightarrow> nat \<Rightarrow> event" where
  "padded_events es e n = (if n < length es then es ! n else e)"

definition padded_states :: "dnslib \<Rightarrow> event list \<Rightarrow> resolver \<Rightarrow> nat \<Rightarrow> resolver" where
  "padded_states L es s n = the (run L (take n es) s)"

lemma run_append: "run L (es @ es') s = Option.bind (run L es s) (run L es')"
  by (induction es arbitrary: s) (auto split: option.splits)

lemma padded_execution:
  assumes "run L es s = Some s'" and "step L e s' = Some s'"
  shows "execution L (padded_events es e) (padded_states L es s)"
proof -
  have "step L (padded_events es e n) (padded_states L es s n) = Some (padded_states L es s (Suc n))" for n
  proof (cases "n < length es")
    case True
    have "es = take n es @ es ! n # drop (Suc n) es" using True by (rule id_take_nth_drop)
    then have "run L (take n es @ es ! n # drop (Suc n) es) s = Some s'" using assms(1) by simp
    then obtain s1 s2 where r: "run L (take n es) s = Some s1" "step L (es ! n) s1 = Some s2"
      by (auto simp: run_append bind_eq_Some_conv split: option.splits)
    moreover have "run L (take (Suc n) es) s = Some s2"
      using r by (simp add: take_Suc_conv_app_nth [OF True] run_append)
    ultimately show ?thesis using True by (simp add: padded_events_def padded_states_def)
  next
    case False
    then show ?thesis using assms by (simp add: padded_events_def padded_states_def)
  qed
  then show ?thesis by (simp add: execution_def)
qed

lemma client_not_stuck_witness:
  "\<exists>m\<ge>2. \<exists>ev tr. execution sample_lib ev tr \<and> tr 0 = sample_start \<and> awaiting (tr 2) 2 = Some (sample_msg 6 0 [], 0) \<and>
     wait_ends sample_lib 2 (sample_msg 6 0 []) 0 (ev m) (tr m) (tr (Suc m))"
proof -
  let ?es = "[Query 1 (sample_msg 5 0 []) 1 1, Query 2 (sample_msg 6 0 []) 1 1, Start 0,
    Answer 0 (Inr (Some [5, 0, 0, 1])) (Inr None) 1 1, Wake 1 1, Wake 2 1]"
  define ev tr where ev: "ev = padded_events ?es (CancelClient 7)" and tr: "tr = padded_states sample_lib ?es sample_start"
  obtain s' where s': "run sample_lib ?es sample_start = Some s'" "awaiting s' 2 = None" "awaiting s' 7 = None"
    "finished_result (core s') 0 \<noteq> None"
    by (simp add: sample_run_simps)
  have ex: "execution sample_lib ev tr"
    unfolding ev tr by (rule padded_execution [OF s'(1)]) (simp add: cancel_client_def s'(3))
  have late: "tr m = s'" if "6 \<le> m" for m using that s'(1) by (simp add: tr padded_states_def)
  have start: "tr 0 = sample_start" by (simp add: tr padded_states_def)
  have aw: "awaiting (tr 2) 2 = Some (sample_msg 6 0 [], 0)"
    by (rule sample_two_clients) (simp add: tr padded_states_def numeral_2_eq_2)
  have r: "reachable sample_lib default_handler_config default_cache_config (tr 0)"
    by (rule sample_reachable [of "[]"]) (simp only: start run.simps)
  have "serves_flight ev tr 0"
    unfolding serves_flight_def using late s'(4) by (metis max.cobounded1 max.cobounded2)
  moreover have "fair_to_client sample_lib ev tr 2"
    unfolding fair_to_client_def
  proof
    fix n
    have "\<forall>now. step sample_lib (Wake 2 now) (tr (max n 6)) = None" by (simp add: late s'(2))
    then show "\<exists>m\<ge>n. (\<forall>now. step sample_lib (Wake 2 now) (tr m) = None) \<or> wake_event 2 (ev m)"
      by (metis max.cobounded1)
  qed
  ultimately obtain m where "2 \<le> m" "wait_ends sample_lib 2 (sample_msg 6 0 []) 0 (ev m) (tr m) (tr (Suc m))"
    using client_not_stuck [OF default_cache_config_ok r ex aw] by blast
  with ex start aw show ?thesis by blast
qed

text \<open>
  The queue can hold a key twice. After an answer has expired, a client is served it stale, which
  queues the key and starts a refresh flight; the flight takes the key off the set of queued keys
  although its job is still in the queue, and once the flight has failed the next stale answer queues
  the key again.
\<close>

lemma queue_can_hold_duplicates:
  "\<exists>s. run sample_lib
      [Query 1 (sample_msg 5 0 []) 1 1, Start 0, Answer 0 (Inr (Some [5, 0, 0, 1])) (Inr None) 1 1, Wake 1 1,
       Query 2 (sample_msg 6 0 []) 10 10, Start 1, Answer 1 (Inr None) (Inr None) 10 10,
       Query 3 (sample_msg 7 0 []) 11 11] sample_start = Some s \<and>
    map fst (refresh_queue (core s)) = [key1, key1]"
  by (simp add: sample_run_simps)

section \<open>One answer for all\<close>

lemma finish_task_answer:
  assumes "cache_ok (h_cache h)" and "parse L data = Inr resp"
    and "compute_ttl_seconds L (config (h_cache h)) resp = Inr ttl" and "pack L resp = Inr w"
  shows "h_tasks (finish_task L t1 t2 t j rid (Inr (Some data)) plain h) t = Some (Finished (Returned (Some resp)))"
proof -
  have "query_upstream (Some rid) (Inr (Some data)) plain (h_metrics h) = (Inr (Some data), h_metrics h)"
    by (simp add: query_upstream_def)
  moreover have "fst (put L t1 t2 (job_key j) resp (h_cache h) (h_metrics h)) = Inr ()"
    unfolding put_eq [OF assms(1,3,4)] by (simp add: Let_def)
  ultimately show ?thesis
    by (auto simp: finish_task_def absorb_answer_def assms(2) end_task_def Let_def split: prod.splits sum.splits)
qed

lemma wakes_share_answer:
  assumes "distinct is" and "\<forall>i \<in> set is. awaiting s i = Some (req i, t)"
    and "h_tasks (core s) t = Some (Finished (Returned (Some r)))"
    and "\<forall>x. r\<lparr>hdr_id := x\<rparr> = resp\<lparr>hdr_id := x\<rparr>"
  shows "\<exists>s'. run L (map (\<lambda>i. Wake i now) is) s = Some s' \<and>
    replies s' = replies s @ map (\<lambda>i. (i, Reply (resp\<lparr>hdr_id := hdr_id (req i)\<rparr>) (Some t))) is"
  using assms
proof (induction "is" arbitrary: s r)
  case (Cons i "is")
  let ?r = "resp\<lparr>hdr_id := hdr_id (req i)\<rparr>"
  let ?s = "s\<lparr>core := (core s)\<lparr>h_tasks := (h_tasks (core s))(t \<mapsto> Finished (Returned (Some ?r)))\<rparr>,
    awaiting := (awaiting s)(i := None), replies := replies s @ [(i, Reply ?r (Some t))]\<rparr>"
  have step: "step L (Wake i now) s = Some ?s"
    using Cons.prems by (simp add: finished_result_def handle_resume_def with_txid_def settle_def Let_def)
  have "\<exists>s'. run L (map (\<lambda>i. Wake i now) is) ?s = Some s' \<and>
    replies s' = replies ?s @ map (\<lambda>i. (i, Reply (resp\<lparr>hdr_id := hdr_id (req i)\<rparr>) (Some t))) is"
    by (rule Cons.IH [of _ ?r]) (use Cons.prems in auto)
  with step show ?case by auto
qed simp

text \<open>
  An upstream whose \<open>query\<close> takes the request id returns the answer from the first call; one that does
  not raises TypeError there and returns it from the second.
\<close>

definition upstream_gives :: "bytes option result \<Rightarrow> bytes option result \<Rightarrow> bytes \<Rightarrow> bool" where
  "upstream_gives with_id plain data \<longleftrightarrow> with_id = Inr (Some data) \<or> with_id = Inl TypeError \<and> plain = Inr (Some data)"

lemma finish_task_given:
  "upstream_gives with_id plain data \<Longrightarrow>
     finish_task L t1 t2 t j rid with_id plain h = finish_task L t1 t2 t j rid (Inr (Some data)) (Inr None) h"
  by (auto simp: upstream_gives_def finish_task_def query_upstream_def)

lemma answer_delivered:
  assumes "cache_config_ok cc" and "reachable L cfg cc s"
    and "h_tasks (core s) t = Some (Querying j w rid)" and "t \<notin> doomed s" and "upstream_gives with_id plain data"
    and "parse L data = Inr resp" and "compute_ttl_seconds L cc resp = Inr ttl" and "pack L resp = Inr wire"
    and "distinct is" and "\<forall>i \<in> set is. awaiting s i = Some (req i, t)"
  shows "\<exists>s'. run L (Answer t with_id plain t1 t2 # map (\<lambda>i. Wake i now) is) s = Some s' \<and>
    replies s' = replies s @ map (\<lambda>i. (i, Reply (resp\<lparr>hdr_id := hdr_id (req i)\<rparr>) (Some t))) is"
proof -
  let ?h = "finish_task L t1 t2 t j rid with_id plain (core s)"
  from reachable_ok [OF assms(1,2)] have "cache_ok (h_cache (core s))" and "config (h_cache (core s)) = cc"
    by (simp_all add: resolver_ok_def core_ok_def cache_inv_def)
  then have "h_tasks ?h t = Some (Finished (Returned (Some resp)))"
    unfolding finish_task_given [OF assms(5)] using assms(6-8) by (intro finish_task_answer) auto
  with wakes_share_answer [of "is" "s\<lparr>core := ?h\<rparr>" req t resp resp L now]
  show ?thesis using assms(3,4,9,10) by simp
qed

text \<open>
  C5. A single upstream query answers every client that joined it. When the upstream's answer arrives
  (the flight not being cancelled) and can be cached, then whichever of the waiting clients wake up, and
  in whatever order, the handler replies that answer to each under its own transaction id, although all
  of them share one response object whose id each of them overwrites. (What the servers make of the
  shared object, truncation for UDP included, is not part of this.)
\<close>

theorem answer_reaches_all_clients:
  assumes "cache_config_ok cc" and "reachable L cfg cc s"
    and "h_tasks (core s) t = Some (Querying j w rid)" and "t \<notin> doomed s" and "upstream_gives with_id plain data"
    and "parse L data = Inr resp" and "compute_ttl_seconds L cc resp = Inr ttl" and "pack L resp = Inr wire"
    and "distinct is" and "\<forall>i \<in> set is. awaiting s i = Some (req i, t)"
  shows "\<exists>s'. run L (Answer t with_id plain t1 t2 # map (\<lambda>i. Wake i now) is) s = Some s' \<and>
    replies s' = replies s @ map (\<lambda>i. (i, Reply (resp\<lparr>hdr_id := hdr_id (req i)\<rparr>) (Some t))) is"
  using assms by (rule answer_delivered)

lemma sample_querying:
  obtains s where "run sample_lib [Query 1 (sample_msg 5 0 []) 1 1, Query 2 (sample_msg 6 0 []) 1 1, Start 0] sample_start = Some s"
    and "\<forall>i \<in> set [2, 1 :: nat]. awaiting s i = Some (if i = 1 then sample_msg 5 0 [] else sample_msg 6 0 [], 0)"
    and "replies s = []" and "0 \<notin> doomed s"
    and "h_tasks (core s) 0 = Some (Querying (ResolveJob (sample_msg 5 0 []) key1 ''example.com'' ''A'') [5, 0, 0] (str_int 5))"
  by (simp add: sample_run_simps)

lemma sample_answer:
  shows "parse sample_lib [5, 0, 0, 9] = Inr (sample_msg 5 0 [sample_rr 9])"
    and "compute_ttl_seconds sample_lib default_cache_config (sample_msg 5 0 [sample_rr 9]) = Inr 9"
    and "pack sample_lib (sample_msg 5 0 [sample_rr 9]) = Inr [5, 0, 0, 9]"
proof -
  show "compute_ttl_seconds sample_lib default_cache_config (sample_msg 5 0 [sample_rr 9]) = Inr 9"
    by (simp add: compute_ttl_seconds_def sample_msg_simps ttls_def map_filter_simps sample_rr_def)
qed (simp_all add: sample_parse_def sample_pack_def sample_msg_def sample_rr_def)

lemma answer_reaches_all_clients_witness:
  "\<exists>s s'. run sample_lib [Query 1 (sample_msg 5 0 []) 1 1, Query 2 (sample_msg 6 0 []) 1 1, Start 0] sample_start = Some s \<and>
     run sample_lib [Answer 0 (Inr (Some [5, 0, 0, 9])) (Inr None) 2 2, Wake 2 3, Wake 1 3] s = Some s' \<and>
     map (\<lambda>(i, r). (i, case r of Reply m _ \<Rightarrow> hdr_id m)) (replies s') = [(2, 6), (1, 5)]"
proof (rule sample_querying)
  fix s
  assume s: "run sample_lib [Query 1 (sample_msg 5 0 []) 1 1, Query 2 (sample_msg 6 0 []) 1 1, Start 0] sample_start = Some s"
    and aw: "\<forall>i \<in> set [2, 1 :: nat]. awaiting s i = Some (if i = 1 then sample_msg 5 0 [] else sample_msg 6 0 [], 0)"
    and r: "replies s = []" and d: "0 \<notin> doomed s"
    and q: "h_tasks (core s) 0 = Some (Querying (ResolveJob (sample_msg 5 0 []) key1 ''example.com'' ''A'') [5, 0, 0] (str_int 5))"
  have g: "upstream_gives (Inr (Some [5, 0, 0, 9])) (Inr None) [5, 0, 0, 9]" by (simp add: upstream_gives_def)
  show ?thesis
    using answer_reaches_all_clients [OF default_cache_config_ok sample_reachable [OF s] q d g sample_answer _ aw, of 2 2 3] s r
    by (auto simp: sample_msg_simps)
qed

section \<open>One cancellation for all\<close>

text \<open>
  The clients of a flight await its task without a shield, so cancelling one of them cancels the upstream
  query of all: nothing but the cancellation of the flight can follow, and every other client of it fails.
\<close>

lemma cancelled_client_fails_others:
  assumes "awaiting s i = Some (ri, t)" and "awaiting s k = Some (rk, t)" and "i \<noteq> k"
    and "h_tasks (core s) t = Some (Querying j w rid)"
  shows "step L (Answer t with_id plain t1 t2) (cancel_client i s) = None \<and>
    (\<exists>s'. run L [CancelClient i, Cancel t, Wake k now] s = Some s' \<and> replies s' = replies s @ [(k, Fail CancelledError)])"
proof -
  have c: "cancel_client i s = s\<lparr>doomed := insert t (doomed s)\<rparr>"
    using assms by (simp add: cancel_client_def finished_result_def)
  have "finished_result (cancel_task t (Querying j w rid) (core s)) t = Some (Raised CancelledError)"
    by (simp add: finished_result_def cancel_task_def end_task_def)
  then show ?thesis
    using assms c by (simp add: handle_resume_def settle_def is_Exception_def)
qed

end
