(* ===== verification/Stream_Io.thy ===== *)
theory Stream_Io
  imports Prelude
begin

text \<open>
  What the TCP server and the TCP forwarder use of Python's integers and streams: the two-byte
  big-endian length prefix of DNS over TCP (RFC 1035, 4.2.2) and the reading half of an
  \<^verbatim>\<open>asyncio\<close> stream.
\<close>

section \<open>Length prefix\<close>

text \<open>\<^verbatim>\<open>n.to_bytes(2, "big")\<close> and \<^verbatim>\<open>int.from_bytes(b, "big")\<close>.\<close>

definition to_bytes2 :: "nat \<Rightarrow> bytes result" where
  "to_bytes2 n = (if n < 65536 then Inr [of_nat (n div 256), of_nat (n mod 256)] else Inl OverflowError)"

definition from_bytes :: "bytes \<Rightarrow> nat" where
  "from_bytes bs = foldl (\<lambda>n b. 256 * n + unat b) 0 bs"

lemma length_to_bytes2 [simp]: "to_bytes2 n = Inr bs \<Longrightarrow> length bs = 2"
  by (auto simp: to_bytes2_def split: if_splits)

lemma from_to_bytes2 [simp]: "to_bytes2 n = Inr bs \<Longrightarrow> from_bytes bs = n"
  by (auto simp: to_bytes2_def from_bytes_def unat_of_nat split: if_splits)

lemma from_bytes2_bound: "length bs = 2 \<Longrightarrow> from_bytes bs < 65536"
proof -
  assume "length bs = 2"
  then obtain a b where "bs = [a, b]" by (auto simp: numeral_2_eq_2 length_Suc_conv)
  moreover have "unat a < 256" "unat b < 256" using unsigned_less [of a] unsigned_less [of b] by simp_all
  ultimately show ?thesis by (simp add: from_bytes_def)
qed

text \<open>A message with its prefix, as it is written to a stream; too long a message has none.\<close>

definition frame :: "bytes \<Rightarrow> bytes result" where
  "frame wire = (case to_bytes2 (length wire) of Inl x \<Rightarrow> Inl x | Inr p \<Rightarrow> Inr (p @ wire))"

lemma frame_Inr_iff: "(\<exists>bs. frame wire = Inr bs) \<longleftrightarrow> length wire < 65536"
  by (simp add: frame_def to_bytes2_def)

lemma frame_split:
  assumes "frame wire = Inr bs"
  obtains p where "bs = p @ wire" and "length p = 2" and "from_bytes p = length wire"
  using assms by (auto simp: frame_def split: sum.splits)

lemma length_frame: "frame wire = Inr bs \<Longrightarrow> length bs = length wire + 2"
  by (erule frame_split) simp

lemma frame_inj:
  assumes "frame a = Inr x" and "frame b = Inr y" and "x @ s = y @ t"
  shows "a = b \<and> s = t"
proof -
  obtain p where p: "x = p @ a" "length p = 2" "from_bytes p = length a" using assms(1) by (rule frame_split)
  obtain q where q: "y = q @ b" "length q = 2" "from_bytes q = length b" using assms(2) by (rule frame_split)
  from assms(3) p q have "p = q" by (simp add: append_eq_append_conv)
  with assms(3) p q show ?thesis by simp
qed

section \<open>Stream reader\<close>

record reader =
  rbuf :: bytes
  reof :: bool
  rexc :: "exn option"

definition new_reader :: reader where
  "new_reader = \<lparr>rbuf = [], reof = False, rexc = None\<rparr>"

definition at_eof :: "reader \<Rightarrow> bool" where
  "at_eof r \<longleftrightarrow> reof r \<and> rbuf r = []"

text \<open>
  \<^verbatim>\<open>readexactly(n)\<close> with what has arrived so far: it waits for more, returns \<open>n\<close> bytes, fails with
  IncompleteReadError, or raises the exception of the stream.
\<close>

datatype read = Pending | Got bytes reader | Incomplete reader | Broken exn

definition readexactly :: "nat \<Rightarrow> reader \<Rightarrow> read" where
  "readexactly n r =
     (case rexc r of
        Some x \<Rightarrow> Broken x
      | None \<Rightarrow>
          if n = 0 then Got [] r
          else if n \<le> length (rbuf r) then Got (take n (rbuf r)) (r\<lparr>rbuf := drop n (rbuf r)\<rparr>)
          else if reof r then Incomplete (r\<lparr>rbuf := []\<rparr>)
          else Pending)"

definition feed :: "bytes \<Rightarrow> reader \<Rightarrow> reader" where
  "feed bs r = r\<lparr>rbuf := rbuf r @ bs\<rparr>"

lemma readexactly_append:
  assumes "rexc r = None" and "rbuf r = a @ b"
  shows "readexactly (length a) r = Got a (r\<lparr>rbuf := b\<rparr>)"
proof (cases "a = []")
  case True
  with assms show ?thesis by (cases r) (simp add: readexactly_def)
qed (simp add: readexactly_def assms)

lemma readexactly_Got:
  assumes "readexactly n r = Got bs r'"
  shows "length bs = n" and "rbuf r = bs @ rbuf r'" and "reof r' = reof r" and "rexc r' = rexc r"
  using assms by (auto simp: readexactly_def split: option.splits if_splits)

end
