(* ===== verification/Admission.thy ===== *)
theory Admission
  imports Metrics
begin

text \<open>
  Admission control. The forwarders of \<^verbatim>\<open>upstream/\<close> bound the queries in progress by a counter, the
  servers of \<^verbatim>\<open>dns/server.py\<close> bound their request tasks by the size of a set. Both keep the same
  contract, stated here as a locale: with a positive bound, an entry is refused exactly when the bound
  is reached, every admitted entry adds one and every exit takes one away.
\<close>

section \<open>The contract\<close>

datatype 't gate_event = Enter 't | Leave 't

locale admission =
  fixes bound :: "'s \<Rightarrow> int"
    and occupied :: "'s \<Rightarrow> int"
    and fresh :: "'t \<Rightarrow> 's \<Rightarrow> bool"
    and holder :: "'t \<Rightarrow> 's \<Rightarrow> bool"
    and enter :: "'t \<Rightarrow> 's \<Rightarrow> bool \<times> 's"
    and leave :: "'t \<Rightarrow> 's \<Rightarrow> 's"
  assumes enter_iff: "fst (enter t s) \<longleftrightarrow> \<not> (0 < bound s \<and> bound s \<le> occupied s)"
    and enter_occupied: "0 < bound s \<Longrightarrow> fresh t s \<Longrightarrow>
      occupied (snd (enter t s)) = occupied s + of_bool (fst (enter t s))"
    and leave_occupied: "0 < bound s \<Longrightarrow> holder t s \<Longrightarrow> occupied (leave t s) = occupied s - 1"
    and holder_occupied: "0 < bound s \<Longrightarrow> holder t s \<Longrightarrow> 0 < occupied s"
    and enter_bound: "bound (snd (enter t s)) = bound s"
    and leave_bound: "bound (leave t s) = bound s"
begin

definition bounded_ok :: "'s \<Rightarrow> bool" where
  "bounded_ok s \<longleftrightarrow> (0 < bound s \<longrightarrow> 0 \<le> occupied s \<and> occupied s \<le> bound s)"

lemma enter_bounded: "bounded_ok s \<Longrightarrow> fresh t s \<Longrightarrow> bounded_ok (snd (enter t s))"
  using enter_iff [of t s] by (auto simp: bounded_ok_def enter_bound enter_occupied)

lemma leave_bounded: "bounded_ok s \<Longrightarrow> holder t s \<Longrightarrow> bounded_ok (leave t s)"
  using holder_occupied [of s t] by (auto simp: bounded_ok_def leave_bound leave_occupied)

text \<open>A sequence of entries and exits in which only fresh tasks enter and only holders leave.\<close>

fun gate_run :: "'t gate_event list \<Rightarrow> 's \<Rightarrow> 's" where
  "gate_run [] s = s"
| "gate_run (Enter t # es) s = gate_run es (snd (enter t s))"
| "gate_run (Leave t # es) s = gate_run es (leave t s)"

fun gate_legal :: "'t gate_event list \<Rightarrow> 's \<Rightarrow> bool" where
  "gate_legal [] s \<longleftrightarrow> True"
| "gate_legal (Enter t # es) s \<longleftrightarrow> fresh t s \<and> gate_legal es (snd (enter t s))"
| "gate_legal (Leave t # es) s \<longleftrightarrow> holder t s \<and> gate_legal es (leave t s)"

fun admitted :: "'t gate_event list \<Rightarrow> 's \<Rightarrow> nat" where
  "admitted [] s = 0"
| "admitted (Enter t # es) s = of_bool (fst (enter t s)) + admitted es (snd (enter t s))"
| "admitted (Leave t # es) s = admitted es (leave t s)"

fun left :: "'t gate_event list \<Rightarrow> nat" where
  "left [] = 0"
| "left (Enter t # es) = left es"
| "left (Leave t # es) = Suc (left es)"

lemma gate_run_bound [simp]: "bound (gate_run es s) = bound s"
  by (induction es s rule: gate_run.induct) (simp_all add: enter_bound leave_bound)

theorem gate_run_bounded:
  "bounded_ok s \<Longrightarrow> gate_legal es s \<Longrightarrow> bounded_ok (gate_run es s)"
  by (induction es s rule: gate_run.induct) (simp_all add: enter_bounded leave_bounded)

theorem gate_run_balance:
  "0 < bound s \<Longrightarrow> gate_legal es s \<Longrightarrow>
     occupied (gate_run es s) = occupied s + int (admitted es s) - int (left es)"
  by (induction es s rule: gate_run.induct)
    (simp_all add: enter_bound leave_bound enter_occupied leave_occupied)

end

section \<open>The counter of the forwarders\<close>

text \<open>
  The fields \<^verbatim>\<open>_max_inflight\<close> and \<^verbatim>\<open>_inflight\<close>. Their lock is never contended, because no task is
  suspended while it holds it, so entering and leaving are single steps. Without a bound the counter
  is not used.
\<close>

record gate =
  gate_max :: int
  gate_used :: int

definition gate_init :: "int \<Rightarrow> gate" where
  "gate_init max_inflight = \<lparr>gate_max = (if max_inflight > 0 then max_inflight else 0), gate_used = 0\<rparr>"

definition gate_enter :: "gate \<Rightarrow> bool \<times> gate" where
  "gate_enter g =
     (if gate_max g > 0 then
        (if gate_used g \<ge> gate_max g then (False, g) else (True, g\<lparr>gate_used := gate_used g + 1\<rparr>))
      else (True, g))"

definition gate_leave :: "gate \<Rightarrow> gate" where
  "gate_leave g = (if gate_max g > 0 then g\<lparr>gate_used := gate_used g - 1\<rparr> else g)"

text \<open>Both forwarders count a refused query the same way.\<close>

definition count_refused :: "metrics option \<Rightarrow> metrics option" where
  "count_refused M = inc ''dropped_max_inflight_total'' (inc ''dropped_total'' M)"

interpretation fg: admission gate_max gate_used "\<lambda>t g. True" "\<lambda>t g. 0 < gate_used g" "\<lambda>t. gate_enter" "\<lambda>t. gate_leave"
  by unfold_locales (auto simp: gate_enter_def gate_leave_def)

text \<open>
  The counter is exact: it equals the number of queries between entry and exit, and no more than the
  bound of them are there at once.
\<close>

definition gate_tracks :: "gate \<Rightarrow> nat \<Rightarrow> bool" where
  "gate_tracks g n \<longleftrightarrow> (0 < gate_max g \<longrightarrow> gate_used g = int n \<and> int n \<le> gate_max g)"

lemma gate_tracks_init [simp]: "gate_tracks (gate_init m) 0"
  by (simp add: gate_tracks_def gate_init_def)

lemma gate_max_init [simp]: "gate_max (gate_init m) = max 0 m"
  by (simp add: gate_init_def)

lemma gate_max_enter [simp]: "gate_max (snd (gate_enter g)) = gate_max g"
  using fg.enter_bound by simp

lemma gate_max_entered: "gate_enter g = (ok, g') \<Longrightarrow> gate_max g' = gate_max g"
  using gate_max_enter [of g] by simp

lemma gate_leave_enter: "gate_enter g = (True, g') \<Longrightarrow> gate_leave g' = g"
  by (auto simp: gate_enter_def gate_leave_def split: if_splits)

lemma gate_max_leave [simp]: "gate_max (gate_leave g) = gate_max g"
  using fg.leave_bound by simp

lemma gate_tracks_enter:
  assumes "gate_tracks g n" and "gate_enter g = (ok, g')"
  shows "gate_tracks g' (if ok then Suc n else n)"
proof (cases "0 < gate_max g")
  case True
  with assms(1) have w: "fg.bounded_ok g" by (simp add: fg.bounded_ok_def gate_tracks_def)
  show ?thesis
    using fg.enter_bounded [OF w] fg.enter_occupied [OF True] assms True
    by (auto simp: gate_tracks_def fg.bounded_ok_def)
next
  case False
  moreover have "gate_max g' = gate_max g" using gate_max_enter [of g] assms(2) by simp
  ultimately show ?thesis by (simp add: gate_tracks_def)
qed

lemma gate_tracks_leave: "gate_tracks g (Suc n) \<Longrightarrow> gate_tracks (gate_leave g) n"
  using fg.leave_occupied [of g] by (auto simp: gate_tracks_def gate_leave_def)

lemma gate_enter_iff:
  assumes "gate_tracks g n"
  shows "fst (gate_enter g) \<longleftrightarrow> gate_max g \<le> 0 \<or> int n < gate_max g"
  using assms fg.enter_iff [of g] by (auto simp: gate_tracks_def)

end
