(* ===== verification/Stats_Report.thy ===== *)
theory Stats_Report
  imports Metrics Py_String
begin

text \<open>
  The periodic statistics line of \<^verbatim>\<open>metrics.py\<close>: the table of its fields, its text and one round of
  the reporter task, which logs the line unless every counter is zero.
\<close>

section \<open>Definitions\<close>

definition STATS_FIELDS :: "(string \<times> string) list" where
  "STATS_FIELDS =
     [(''queries'', ''queries_total''), (''hit_fresh'', ''cache_hit_fresh_total''),
      (''hit_stale'', ''cache_hit_stale_total''), (''miss'', ''cache_miss_total''),
      (''negative_hit'', ''negative_cache_hit_total''), (''upstream_req'', ''upstream_requests_total''),
      (''upstream_fail'', ''upstream_fail_total''), (''refresh'', ''swr_refresh_triggered_total''),
      (''dedup'', ''singleflight_dedup_total''), (''dropped'', ''dropped_total''),
      (''malformed'', ''malformed_total''), (''cache_entries'', ''cache_entries''),
      (''evictions'', ''evictions_total'')]"

definition WARMUP_METRIC_KEYS :: "string list" where
  "WARMUP_METRIC_KEYS =
     [''cache_refresh_warmup_loaded_total'', ''cache_refresh_warmup_invalid_lines_total'']"

text \<open>\<^verbatim>\<open>sep.join(parts)\<close>.\<close>

fun join :: "string \<Rightarrow> string list \<Rightarrow> string" where
  "join sep [] = []"
| "join sep [p] = p"
| "join sep (p # ps) = p @ sep @ join sep ps"

definition stats_part :: "metrics \<Rightarrow> string \<times> string \<Rightarrow> string" where
  "stats_part m f = (case f of (label, key) \<Rightarrow> label @ ''='' @ str_int (dict_get_default m key 0))"

definition format_stats :: "metrics \<Rightarrow> string" where
  "format_stats m = ''STATS '' @ join '' '' (map (stats_part m) STATS_FIELDS)"

text \<open>
  One round of the reporter after its pause, and the lines it logs over a list of rounds, given the
  counters at the end of each pause; a reporter without metrics returns at once.
\<close>

definition reporter_round :: "metrics \<Rightarrow> string option" where
  "reporter_round m =
     (let s = snapshot m in if \<not> (\<exists>v \<in> set (map snd s). v \<noteq> 0) then None else Some (format_stats s))"

definition periodic_stats_reporter :: "metrics option \<Rightarrow> metrics list \<Rightarrow> string list" where
  "periodic_stats_reporter M rounds =
     (case M of None \<Rightarrow> [] | Some _ \<Rightarrow> List.map_filter reporter_round rounds)"

section \<open>The line splits back into its fields\<close>

lemma str_int_no_space: "list_all (\<lambda>c. \<not> is_space c) (str_int i)"
proof -
  have "list_all (\<lambda>c. \<not> is_space c) (str_nat n)" for n
    using str_nat_decimal [of n] by (rule list.pred_mono_strong) (auto simp: is_decimal_def is_space_def Let_def)
  then show ?thesis by (simp add: str_int_def is_space_def)
qed

lemma split_aux_word:
  assumes "list_all (\<lambda>c. \<not> is_space c) w"
  shows "split_aux acc (w @ s) = split_aux (rev w @ acc) s"
  using assms by (induction w arbitrary: acc) auto

lemma split_aux_join:
  assumes "\<forall>p \<in> set ps. p \<noteq> [] \<and> list_all (\<lambda>c. \<not> is_space c) p"
  shows "split_aux [] (join '' '' ps) = ps"
  using assms
proof (induction "'' ''" ps rule: join.induct)
  case (2 p)
  then show ?case using split_aux_word [of p "[]" "[]"] by simp
next
  case (3 p q ps)
  then show ?case using split_aux_word [of p "[]" "'' '' @ join '' '' (q # ps)"]
    by (simp add: is_space_def)
qed simp

lemma join_Cons: "ps \<noteq> [] \<Longrightarrow> join sep (p # ps) = p @ sep @ join sep ps"
  by (cases ps) auto

text \<open>
  The statistics line is a sequence of words that splits back exactly: the word \<^verbatim>\<open>STATS\<close> and then,
  in the order of the table, every label with the value of its counter (zero when the counter was
  never touched). The reporter logs it exactly when some counter is not zero.
\<close>

lemma stats_line_fields:
  "split (format_stats m) = ''STATS'' # map (\<lambda>(label, key). label @ ''='' @ str_int (metric m key)) STATS_FIELDS \<and>
   reporter_round m = (if \<exists>kv \<in> set m. snd kv \<noteq> 0 then Some (format_stats m) else None)"
proof -
  have "\<forall>f \<in> set STATS_FIELDS. list_all (\<lambda>c. \<not> is_space c) (fst f @ ''='')"
    and "list_all (\<lambda>c. \<not> is_space c) ''STATS''"
    unfolding STATS_FIELDS_def by code_simp+
  then have "\<forall>p \<in> set (''STATS'' # map (stats_part m) STATS_FIELDS). p \<noteq> [] \<and> list_all (\<lambda>c. \<not> is_space c) p"
    by (force simp: stats_part_def str_int_no_space)
  from split_aux_join [OF this]
  have "split (''STATS'' @ '' '' @ join '' '' (map (stats_part m) STATS_FIELDS)) = ''STATS'' # map (stats_part m) STATS_FIELDS"
    unfolding split_def by (subst (asm) join_Cons) (simp_all add: STATS_FIELDS_def)
  moreover have "stats_part m = (\<lambda>(label, key). label @ ''='' @ str_int (metric m key))"
    by (rule ext) (simp add: stats_part_def)
  ultimately show ?thesis
    by (auto simp: format_stats_def reporter_round_def snapshot_def Let_def)
qed

end
