(* ===== verification/Dns_Server.thy ===== *)
theory Dns_Server
  imports Dnslib Stream_Io Admission Stats_Report
begin

text \<open>
  The servers of \<^verbatim>\<open>dns/server.py\<close>, message by message: how the UDP server packs and truncates a
  response, how the TCP server reads length-prefixed requests from a connection and answers them in
  order, and the HTTP server for metrics and health. The interleaving of the request tasks of both DNS
  servers with the handler is the subject of the theory \<open>Front\<close>.
\<close>

section \<open>Configuration\<close>

record udp_server_config =
  us_host :: string
  us_port :: int
  us_max_inflight :: int
  us_max_udp_payload :: int

definition default_udp_server_config :: udp_server_config where
  "default_udp_server_config =
     \<lparr>us_host = ''127.0.0.1'', us_port = 5353, us_max_inflight = 256, us_max_udp_payload = 1232\<rparr>"

record tcp_server_config =
  ts_host :: string
  ts_port :: int
  ts_max_inflight :: int
  ts_max_message_size :: int
  ts_read_timeout_s :: time
  ts_idle_timeout_s :: time

definition default_tcp_server_config :: tcp_server_config where
  "default_tcp_server_config =
     \<lparr>ts_host = ''127.0.0.1'', ts_port = 5353, ts_max_inflight = 256, ts_max_message_size = 65535,
      ts_read_timeout_s = 2, ts_idle_timeout_s = 30\<rparr>"

definition too_big :: "int \<Rightarrow> nat \<Rightarrow> bool" where
  "too_big limit n \<longleftrightarrow> limit > 0 \<and> int n > limit"

definition count_oversized :: "metrics option \<Rightarrow> metrics option" where
  "count_oversized M = inc ''dropped_oversize_total'' (inc ''dropped_total'' M)"

definition count_malformed :: "metrics option \<Rightarrow> metrics option" where
  "count_malformed M = inc ''dropped_malformed_total'' (inc ''malformed_total'' M)"

section \<open>Request tasks\<close>

text \<open>
  The set \<^verbatim>\<open>_inflight\<close> of a server with its bound: a task enters unless the set is full, and the
  callback of a finished task discards it.
\<close>

record task_set =
  ts_bound :: int
  ts_members :: "nat list"

definition task_enter :: "nat \<Rightarrow> task_set \<Rightarrow> bool \<times> task_set" where
  "task_enter t s =
     (if ts_bound s > 0 \<and> int (length (ts_members s)) \<ge> ts_bound s then (False, s)
      else (True, s\<lparr>ts_members := t # ts_members s\<rparr>))"

definition task_discard :: "nat \<Rightarrow> task_set \<Rightarrow> task_set" where
  "task_discard t s = s\<lparr>ts_members := remove1 t (ts_members s)\<rparr>"

definition task_clear :: "task_set \<Rightarrow> task_set" where
  "task_clear s = s\<lparr>ts_members := []\<rparr>"

interpretation sg: admission ts_bound "\<lambda>s. int (length (ts_members s))" "\<lambda>t s. t \<notin> set (ts_members s)"
    "\<lambda>t s. t \<in> set (ts_members s)" task_enter task_discard
proof unfold_locales
  show "0 < ts_bound s \<Longrightarrow> t \<in> set (ts_members s) \<Longrightarrow> int (length (ts_members (task_discard t s))) = int (length (ts_members s)) - 1"
    for s t using length_pos_if_in_set [of t "ts_members s"] by (simp add: task_discard_def length_remove1 of_nat_diff Suc_leI)
qed (auto simp: task_enter_def task_discard_def)

section \<open>UDP responses\<close>

definition truncated :: "dns_record \<Rightarrow> dns_record" where
  "truncated resp = resp\<lparr>hdr_tc := 1, rrs := [], auth := [], ar := []\<rparr>"

text \<open>
  The part of \<open>_handle_datagram\<close> after the handler has returned: the datagram that is sent, if any, the
  response object as it is left behind, and the counters. An exception of \<open>pack\<close> is logged.
\<close>

definition udp_respond ::
  "dnslib \<Rightarrow> udp_server_config \<Rightarrow> dns_record \<Rightarrow> metrics option \<Rightarrow> bytes option \<times> dns_record \<times> metrics option" where
  "udp_respond L cfg resp M =
     (case pack L resp of
        Inl x \<Rightarrow> (None, resp, M)
      | Inr wire \<Rightarrow>
          if too_big (us_max_udp_payload cfg) (length wire) then
            (let resp' = truncated resp in
             case pack L resp' of
               Inl x \<Rightarrow> (None, resp', M)
             | Inr wire' \<Rightarrow>
                 if too_big (us_max_udp_payload cfg) (length wire') then (None, resp', count_oversized M)
                 else (Some wire', resp', M))
          else (Some wire, resp, M))"

text \<open>
  C17. Every datagram the server sends fits the configured payload size and is the response itself or
  its truncation; a response that fits is sent unchanged and the response object is left alone; a
  truncated one is sent with the TC bit, the question, and no records; and a response that does not fit
  even then is dropped and counted.
\<close>

theorem udp_reply_fits:
  assumes "udp_respond L cfg resp M = (sent, resp', M')"
  shows "(\<forall>w. sent = Some w \<longrightarrow> \<not> too_big (us_max_udp_payload cfg) (length w) \<and> pack L resp' = Inr w) \<and>
    (resp' = resp \<or> resp' = truncated resp) \<and>
    (\<forall>w. pack L resp = Inr w \<and> \<not> too_big (us_max_udp_payload cfg) (length w) \<longrightarrow> sent = Some w \<and> resp' = resp \<and> M' = M) \<and>
    (\<forall>w w'. pack L resp = Inr w \<and> too_big (us_max_udp_payload cfg) (length w) \<and> pack L (truncated resp) = Inr w' \<longrightarrow>
      resp' = truncated resp \<and>
      (if too_big (us_max_udp_payload cfg) (length w') then sent = None \<and> M' = count_oversized M
       else sent = Some w' \<and> M' = M))"
  using assms by (auto simp: udp_respond_def Let_def split: sum.splits if_splits)

lemma udp_reply_fits_witness:
  "fst (udp_respond sample_lib (default_udp_server_config\<lparr>us_max_udp_payload := 4\<rparr>) (sample_msg 5 0 [sample_rr 9, sample_rr 8]) None)
     = Some [5, 1, 0]"
proof -
  let ?c = "default_udp_server_config\<lparr>us_max_udp_payload := 4\<rparr>" and ?m = "sample_msg 5 0 [sample_rr 9, sample_rr 8]"
  obtain sent resp' M' where r: "udp_respond sample_lib ?c ?m None = (sent, resp', M')" by (cases "udp_respond sample_lib ?c ?m None")
  have "pack sample_lib ?m = Inr [5, 0, 0, 9, 8]" "pack sample_lib (truncated ?m) = Inr [5, 1, 0]"
    by (simp_all add: sample_pack_def sample_msg_def sample_rr_def truncated_def)
  with udp_reply_fits [OF r] have "sent = Some [5, 1, 0]"
    by (simp add: too_big_def)
  with r show ?thesis by simp
qed

section \<open>TCP requests and responses\<close>

text \<open>The end of \<open>_handle_request\<close>: what is written to the connection.\<close>

definition tcp_respond :: "dnslib \<Rightarrow> tcp_server_config \<Rightarrow> dns_record \<Rightarrow> metrics option \<Rightarrow> bytes \<times> metrics option" where
  "tcp_respond L cfg resp M =
     (case pack L resp of
        Inl x \<Rightarrow> ([], M)
      | Inr wire \<Rightarrow>
          if too_big (ts_max_message_size cfg) (length wire) then ([], count_oversized M)
          else (case frame wire of Inl x \<Rightarrow> ([], M) | Inr bs \<Rightarrow> (bs, M)))"

text \<open>
  The loop of \<open>_handle_client\<close> on the bytes that arrive before the connection ends, by end of file, by
  a timeout or by an error. What the rest of the program contributes to the \<open>i\<close>-th request of the
  connection is an argument: the number of request tasks in progress when it has been read, and what
  its task writes before it ends, or that it was cancelled.
\<close>

record request_env =
  env_inflight :: int
  env_written :: "bytes option"

datatype serve_end = Ended | EndedOversized | EndedRefused | EndedCancelled

fun serve ::
  "nat \<Rightarrow> tcp_server_config \<Rightarrow> (nat \<Rightarrow> request_env) \<Rightarrow> nat \<Rightarrow> reader \<Rightarrow> (bytes list \<times> bytes \<times> serve_end) option" where
  "serve 0 cfg env i r = None"
| "serve (Suc n) cfg env i r =
     (case readexactly 2 r of
        Got length_bytes r1 \<Rightarrow>
          (let msg_len = from_bytes length_bytes in
           if too_big (ts_max_message_size cfg) msg_len then Some ([], [], EndedOversized)
           else
             (case readexactly msg_len r1 of
                Got data r2 \<Rightarrow>
                  if ts_max_inflight cfg > 0 \<and> env_inflight (env i) \<ge> ts_max_inflight cfg then Some ([], [], EndedRefused)
                  else
                    (case env_written (env i) of
                       None \<Rightarrow> Some ([data], [], EndedCancelled)
                     | Some w \<Rightarrow>
                         map_option (\<lambda>(reqs, out, e). (data # reqs, w @ out, e)) (serve n cfg env (Suc i) r2))
              | _ \<Rightarrow> Some ([], [], Ended)))
      | _ \<Rightarrow> Some ([], [], Ended))"

definition count_end :: "serve_end \<Rightarrow> metrics option \<Rightarrow> metrics option" where
  "count_end e M =
     (case e of EndedOversized \<Rightarrow> count_oversized M | EndedRefused \<Rightarrow> count_refused M | _ \<Rightarrow> M)"

section \<open>The loop refines a message queue\<close>

text \<open>The complete messages of a byte stream.\<close>

function unframe :: "bytes \<Rightarrow> bytes list" where
  "unframe bs =
     (if 2 \<le> length bs \<and> from_bytes (take 2 bs) \<le> length (drop 2 bs)
      then take (from_bytes (take 2 bs)) (drop 2 bs) # unframe (drop (from_bytes (take 2 bs)) (drop 2 bs))
      else [])"
  by pat_completeness auto
termination by (relation "measure length") auto

declare unframe.simps [simp del]

text \<open>
  The abstract server: it answers the requests of a queue one after the other, and stops at the first
  one that is too long, that finds the server full, or whose task is cancelled.
\<close>

fun answer_all :: "tcp_server_config \<Rightarrow> (nat \<Rightarrow> request_env) \<Rightarrow> nat \<Rightarrow> bytes list \<Rightarrow> bytes list \<times> bytes" where
  "answer_all cfg env i [] = ([], [])"
| "answer_all cfg env i (m # ms) =
     (if too_big (ts_max_message_size cfg) (length m) \<or>
         (ts_max_inflight cfg > 0 \<and> env_inflight (env i) \<ge> ts_max_inflight cfg) then ([], [])
      else
        (case env_written (env i) of
           None \<Rightarrow> ([m], [])
         | Some w \<Rightarrow> (case answer_all cfg env (Suc i) ms of (reqs, out) \<Rightarrow> (m # reqs, w @ out))))"

definition stream :: "bytes \<Rightarrow> reader" where
  "stream bs = \<lparr>rbuf = bs, reof = True, rexc = None\<rparr>"

lemma readexactly_stream:
  "readexactly n (stream bs) = (if n \<le> length bs then Got (take n bs) (stream (drop n bs)) else Incomplete (stream []))"
  by (auto simp: readexactly_def stream_def)

lemma unframe_short: "length bs < 2 \<Longrightarrow> unframe bs = []"
  by (subst unframe.simps) simp

lemma serve_refines:
  "length bs < 2 * n \<Longrightarrow>
     \<exists>e. serve n cfg env i (stream bs) = Some (fst (answer_all cfg env i (unframe bs)), snd (answer_all cfg env i (unframe bs)), e)"
proof (induction n arbitrary: i bs)
  case (Suc n)
  let ?m = "from_bytes (take 2 bs)"
  show ?case
  proof (cases "2 \<le> length bs \<and> ?m \<le> length (drop 2 bs)")
    case True
    then have u: "unframe bs = take ?m (drop 2 bs) # unframe (drop ?m (drop 2 bs))" by (subst unframe.simps) simp
    have len: "length (take ?m (drop 2 bs)) = ?m" using True by simp
    have "length (drop ?m (drop 2 bs)) \<le> length bs - 2" by simp
    also have "\<dots> < 2 * n" using True Suc.prems by arith
    finally have "length (drop ?m (drop 2 bs)) < 2 * n" .
    from Suc.IH [OF this, of "Suc i"] obtain e where
      "serve n cfg env (Suc i) (stream (drop ?m (drop 2 bs))) =
        Some (fst (answer_all cfg env (Suc i) (unframe (drop ?m (drop 2 bs)))),
              snd (answer_all cfg env (Suc i) (unframe (drop ?m (drop 2 bs)))), e)" ..
    with True len show ?thesis
      unfolding u by (auto simp: readexactly_stream Let_def split: option.split prod.split)
  next
    case False
    then have "unframe bs = []" by (subst unframe.simps) simp
    with False show ?thesis by (auto simp: readexactly_stream Let_def)
  qed
qed simp

text \<open>
  C26. The read loop of a connection ends: with a stream of \<open>k\<close> bytes it returns after at most
  \<open>k div 2 + 1\<close> rounds, whatever the bytes are and whatever the request tasks do.
\<close>

theorem serve_terminates:
  "length bs < 2 * n \<Longrightarrow> \<exists>reqs out e. serve n cfg env i (stream bs) = Some (reqs, out, e)"
  using serve_refines by blast

lemma serve_terminates_witness:
  "\<exists>reqs out e. serve 2 default_tcp_server_config (\<lambda>i. \<lparr>env_inflight = 0, env_written = Some []\<rparr>) 0 (stream [0, 1, 7]) = Some (reqs, out, e)"
  by (rule serve_terminates) simp

text \<open>
  C8. The byte-level read loop implements the abstract server on the queue of the complete messages of
  the stream: it processes the same requests in the same order and writes the same bytes.
\<close>

theorem tcp_stream_refinement:
  "map_option (\<lambda>(reqs, out, e). (reqs, out)) (serve (Suc (length bs)) cfg env i (stream bs)) =
     Some (answer_all cfg env i (unframe bs))"
proof -
  from serve_refines [of bs "Suc (length bs)" cfg env i] obtain e where
    "serve (Suc (length bs)) cfg env i (stream bs) =
       Some (fst (answer_all cfg env i (unframe bs)), snd (answer_all cfg env i (unframe bs)), e)" by auto
  then show ?thesis by simp
qed

lemma unframe_frame:
  assumes "frame m = Inr bs"
  shows "unframe (bs @ rest) = m # unframe rest"
proof -
  obtain p where "bs = p @ m" "length p = 2" "from_bytes p = length m" using assms by (rule frame_split)
  then show ?thesis by (subst unframe.simps) simp
qed

lemma unframe_frames:
  "list_all2 (\<lambda>m bs. frame m = Inr bs) ms bss \<Longrightarrow> length rest < 2 \<Longrightarrow> unframe (concat bss @ rest) = ms"
  by (induction rule: list_all2_induct) (simp_all add: unframe_short unframe_frame)

lemma answer_all_accepts:
  assumes "\<forall>m \<in> set ms. \<not> too_big (ts_max_message_size cfg) (length m)"
    and "\<forall>j < length ms. env_inflight (env (i + j)) < ts_max_inflight cfg \<and> env_written (env (i + j)) = Some (w (i + j))"
  shows "answer_all cfg env i ms = (ms, concat (map w [i..<i + length ms]))"
  using assms
proof (induction ms arbitrary: i)
  case (Cons m ms)
  have "answer_all cfg env (Suc i) ms = (ms, concat (map w [Suc i..<Suc i + length ms]))"
  proof (rule Cons.IH)
    show "\<forall>j < length ms. env_inflight (env (Suc i + j)) < ts_max_inflight cfg \<and> env_written (env (Suc i + j)) = Some (w (Suc i + j))"
      using Cons.prems(2) by (metis Suc_less_eq add_Suc_shift length_Cons)
  qed (use Cons.prems in simp)
  moreover have "env_inflight (env i) < ts_max_inflight cfg" "env_written (env i) = Some (w i)"
    using Cons.prems(2) by (metis add.right_neutral length_Cons zero_less_Suc)+
  moreover have "[i..<i + length (m # ms)] = i # [Suc i..<Suc i + length ms]" using upt_conv_Cons [of i "i + length (m # ms)"] by (simp del: upt_Suc)
  ultimately show ?case using Cons.prems(1) by simp
qed simp

text \<open>
  Pipelined requests are answered in order: if a client sends messages that are not too long, each
  behind its length, and the server is never full, then exactly these messages are handled, one after
  the other, and what is written back is the concatenation of their responses in the same order.
\<close>

lemma pipelined_requests_in_order:
  assumes "list_all2 (\<lambda>m bs. frame m = Inr bs) ms bss" and "length rest < 2"
    and "\<forall>m \<in> set ms. \<not> too_big (ts_max_message_size cfg) (length m)"
    and "\<forall>j < length ms. env_inflight (env j) < ts_max_inflight cfg \<and> env_written (env j) = Some (w j)"
    and "length (concat bss @ rest) < 2 * n"
  shows "\<exists>e. serve n cfg env 0 (stream (concat bss @ rest)) = Some (ms, concat (map w [0..<length ms]), e)"
  using serve_refines [OF assms(5), of cfg env 0] answer_all_accepts [OF assms(3), of env 0 w] assms(4)
  by (simp add: unframe_frames [OF assms(1,2)])

definition sample_env :: "nat \<Rightarrow> request_env" where
  "sample_env i = \<lparr>env_inflight = 0, env_written = Some [of_nat i]\<rparr>"

lemma pipelined_requests_in_order_witness:
  "\<exists>e. serve 5 default_tcp_server_config sample_env 0 (stream (concat [[0, 1, 7], [0, 2, 8, 9]] @ [3])) =
     Some ([[7], [8, 9]], [0, 1], e)"
proof -
  let ?ms = "[[7], [8, 9]] :: bytes list" and ?cfg = default_tcp_server_config
  have f: "list_all2 (\<lambda>m bs. frame m = Inr bs) ?ms [[0, 1, 7], [0, 2, 8, 9]]"
    by (simp add: frame_def to_bytes2_def)
  have r: "length [3 :: byte] < 2" by simp
  have s: "\<forall>m \<in> set ?ms. \<not> too_big (ts_max_message_size ?cfg) (length m)"
    by (simp add: default_tcp_server_config_def too_big_def)
  have e: "\<forall>j < length ?ms. env_inflight (sample_env j) < ts_max_inflight ?cfg \<and> env_written (sample_env j) = Some [of_nat j]"
    by (simp add: default_tcp_server_config_def sample_env_def)
  have n: "length (concat [[0, 1, 7], [0, 2, 8, 9]] @ [3 :: byte]) < 2 * 5" by simp
  have "concat (map (\<lambda>j. [of_nat j]) [0..<length ?ms]) = [0, 1 :: byte]" by (simp add: upt_rec)
  with pipelined_requests_in_order [OF f r s e n] show ?thesis by (simp only:)
qed

end
