(* ===== verification/Front.thy ===== *)
theory Front
  imports Resolver Dns_Server
begin

text \<open>
  The UDP and the TCP server of \<^verbatim>\<open>dns/server.py\<close> in front of the handler: request tasks of both servers
  interleave with everything that happens inside the handler. A request task runs \<open>_handle_datagram\<close> or
  \<open>_handle_request\<close>: it parses the message, calls \<open>handle\<close>, and sends what it returned in the same
  segment. The response object that \<open>handle\<close> returns may be the result of a flight, which other
  requests share; truncating it for UDP changes it for all of them.
\<close>

section \<open>State\<close>

text \<open>Where a request came from: a datagram of an address, or a connection.\<close>

datatype origin = FromUdp nat | FromTcp nat

fun via_udp :: "origin \<Rightarrow> bool" where
  "via_udp (FromUdp _) \<longleftrightarrow> True"
| "via_udp (FromTcp _) \<longleftrightarrow> False"

text \<open>A request task that has not begun, one that awaits a flight inside \<open>handle\<close>, and one that has ended.\<close>

datatype request_task = Fresh origin bytes | Waiting origin | Over origin

text \<open>
  Whether the UDP transport is open, and for which server (true for UDP) \<open>_cancel_tasks\<close> has run. Closing
  the TCP server only stops it from accepting connections; those it has go on. The outbox holds what
  is handed to the transports, in order; what a closed transport does with it is its own affair.
\<close>

record front =
  fres :: resolver
  udp_server :: udp_server_config
  tcp_server :: tcp_server_config
  udp_inflight :: task_set
  tcp_inflight :: task_set
  udp_open :: bool
  cancelled :: "bool \<Rightarrow> bool"
  rtasks :: "nat \<rightharpoonup> request_task"
  outbox :: "(origin \<times> bytes) list"

definition front_init :: "udp_server_config \<Rightarrow> tcp_server_config \<Rightarrow> resolver \<Rightarrow> front" where
  "front_init ucfg tcfg s =
     \<lparr>fres = s, udp_server = ucfg, tcp_server = tcfg,
      udp_inflight = \<lparr>ts_bound = us_max_inflight ucfg, ts_members = []\<rparr>,
      tcp_inflight = \<lparr>ts_bound = ts_max_inflight tcfg, ts_members = []\<rparr>,
      udp_open = True, cancelled = (\<lambda>u. False), rtasks = Map.empty, outbox = []\<rparr>"

definition set_core :: "handler \<Rightarrow> front \<Rightarrow> front" where
  "set_core h f = f\<lparr>fres := (fres f)\<lparr>core := h\<rparr>\<rparr>"

abbreviation fcore :: "front \<Rightarrow> handler" where
  "fcore f \<equiv> core (fres f)"

definition set_metrics :: "metrics option \<Rightarrow> front \<Rightarrow> front" where
  "set_metrics M f = set_core ((fcore f)\<lparr>h_metrics := M\<rparr>) f"

section \<open>Operations\<close>

text \<open>
  \<open>datagram_received\<close>, and the same test of \<open>_handle_client\<close> when it has read a message: a full server
  drops the request and counts it.
\<close>

definition receive :: "nat \<Rightarrow> origin \<Rightarrow> bytes \<Rightarrow> front \<Rightarrow> front" where
  "receive i origin data f =
     (case origin of
        FromUdp _ \<Rightarrow>
          if \<not> udp_open f then f
          else
            (case task_enter i (udp_inflight f) of
               (False, _) \<Rightarrow> set_metrics (count_refused (h_metrics (fcore f))) f
             | (True, s) \<Rightarrow> f\<lparr>udp_inflight := s, rtasks := (rtasks f)(i \<mapsto> Fresh origin data)\<rparr>)
      | FromTcp _ \<Rightarrow>
          (case task_enter i (tcp_inflight f) of
             (False, _) \<Rightarrow> set_metrics (count_refused (h_metrics (fcore f))) f
           | (True, s) \<Rightarrow> f\<lparr>tcp_inflight := s, rtasks := (rtasks f)(i \<mapsto> Fresh origin data)\<rparr>))"

text \<open>Changing the response object that is the result of a finished flight.\<close>

definition set_result :: "nat option \<Rightarrow> dns_record \<Rightarrow> handler \<Rightarrow> handler" where
  "set_result shared resp h =
     (case shared of
        None \<Rightarrow> h
      | Some t \<Rightarrow>
          (case h_tasks h t of
             Some (Finished (Returned (Some _))) \<Rightarrow> h\<lparr>h_tasks := (h_tasks h)(t \<mapsto> Finished (Returned (Some resp)))\<rparr>
           | _ \<Rightarrow> h))"

text \<open>
  The end of a request task, after \<open>handle\<close> returned or raised; an exception is only logged. A TCP request
  counts as over once its reply is written; the task leaves the set of its server, as after
  \<open>writer.drain\<close>, in a later step.
\<close>

definition deliver :: "dnslib \<Rightarrow> nat \<Rightarrow> origin \<Rightarrow> handle_result \<Rightarrow> front \<Rightarrow> front" where
  "deliver L i origin result f =
     (let f' = f\<lparr>rtasks := (rtasks f)(i \<mapsto> Over origin)\<rparr> in
      case result of
        Reply resp shared \<Rightarrow>
          (case origin of
             FromUdp _ \<Rightarrow>
               (case udp_respond L (udp_server f) resp (h_metrics (fcore f)) of
                  (sent, resp', M) \<Rightarrow>
                    set_core (set_result shared resp' ((fcore f)\<lparr>h_metrics := M\<rparr>))
                      (f'\<lparr>outbox := outbox f @ (case sent of None \<Rightarrow> [] | Some w \<Rightarrow> [(origin, w)])\<rparr>))
           | FromTcp _ \<Rightarrow>
               (case tcp_respond L (tcp_server f) resp (h_metrics (fcore f)) of
                  (bs, M) \<Rightarrow>
                    set_metrics M (f'\<lparr>outbox := outbox f @ (if bs = [] then [] else [(origin, bs)])\<rparr>)))
      | _ \<Rightarrow> f')"

text \<open>The first segment of a request task, and the one after the flight it awaits has ended.\<close>

definition settled :: "dnslib \<Rightarrow> nat \<Rightarrow> origin \<Rightarrow> resolver option \<Rightarrow> front \<Rightarrow> front" where
  "settled L i origin os f =
     (case os of
        None \<Rightarrow> f
      | Some s \<Rightarrow>
          (if awaiting s i \<noteq> None then f\<lparr>fres := s, rtasks := (rtasks f)(i \<mapsto> Waiting origin)\<rparr>
           else deliver L i origin (snd (last (replies s))) (f\<lparr>fres := s\<rparr>)))"

definition begin_task :: "dnslib \<Rightarrow> nat \<Rightarrow> time \<Rightarrow> time \<Rightarrow> front \<Rightarrow> front" where
  "begin_task L i t1 t2 f =
     (case rtasks f i of
        Some (Fresh origin data) \<Rightarrow>
          (case parse L data of
             Inl x \<Rightarrow> set_metrics (count_malformed (h_metrics (fcore f))) (f\<lparr>rtasks := (rtasks f)(i \<mapsto> Over origin)\<rparr>)
           | Inr req \<Rightarrow> settled L i origin (step L (Query i req t1 t2) (fres f)) f)
      | _ \<Rightarrow> f)"

definition wake_task :: "dnslib \<Rightarrow> nat \<Rightarrow> time \<Rightarrow> front \<Rightarrow> front" where
  "wake_task L i now f =
     (case rtasks f i of
        Some (Waiting origin) \<Rightarrow> settled L i origin (step L (Wake i now) (fres f)) f
      | _ \<Rightarrow> f)"

text \<open>The callback that removes a finished task from the set of its server.\<close>

definition discard_task :: "nat \<Rightarrow> front \<Rightarrow> front" where
  "discard_task i f =
     (case rtasks f i of
        Some (Over (FromUdp _)) \<Rightarrow> f\<lparr>udp_inflight := task_discard i (udp_inflight f), rtasks := (rtasks f)(i := None)\<rparr>
      | Some (Over (FromTcp _)) \<Rightarrow> f\<lparr>tcp_inflight := task_discard i (tcp_inflight f), rtasks := (rtasks f)(i := None)\<rparr>
      | _ \<Rightarrow> f)"

text \<open>
  Stopping. \<open>stop\<close> closes the transport of the UDP server. Then \<open>_cancel_tasks\<close> cancels the request tasks
  of a server and empties its set: a task that has not begun never runs; one that awaits a flight
  cancels the flight, and wakes up with the cancellation; if the flight has ended already, the task
  itself is cancelled when it wakes up, and sends nothing.
\<close>

definition stop_udp :: "front \<Rightarrow> front" where
  "stop_udp f = f\<lparr>udp_open := False\<rparr>"

definition cancel_request :: "nat \<Rightarrow> front \<Rightarrow> front" where
  "cancel_request i f =
     (case rtasks f i of
        Some (Fresh _ _) \<Rightarrow> f\<lparr>rtasks := (rtasks f)(i := None)\<rparr>
      | Some (Waiting origin) \<Rightarrow>
          (let s = cancel_client i (fres f) in
           if awaiting s i = None then f\<lparr>fres := s, rtasks := (rtasks f)(i \<mapsto> Over origin)\<rparr> else f\<lparr>fres := s\<rparr>)
      | _ \<Rightarrow> f)"

definition cancel_tasks :: "bool \<Rightarrow> front \<Rightarrow> front" where
  "cancel_tasks udp f =
     (let f1 = fold cancel_request (ts_members (if udp then udp_inflight f else tcp_inflight f)) f;
          f2 = f1\<lparr>cancelled := (cancelled f)(udp := True)\<rparr>
      in if udp then f2\<lparr>udp_inflight := task_clear (udp_inflight f)\<rparr> else f2\<lparr>tcp_inflight := task_clear (tcp_inflight f)\<rparr>)"

text \<open>
  Events of the rest of the program: any step of the handler but a query and the wake-up or cancellation of a client,
  which belong to request tasks.
\<close>

fun internal :: "event \<Rightarrow> bool" where
  "internal (Query _ _ _ _) \<longleftrightarrow> False"
| "internal (Wake _ _) \<longleftrightarrow> False"
| "internal (CancelClient _) \<longleftrightarrow> False"
| "internal _ \<longleftrightarrow> True"

datatype front_event =
  Receive nat origin bytes | Begin nat time time | Resume nat time | Discard nat | StopUdp | CancelTasks bool | Inside event

fun front_step :: "dnslib \<Rightarrow> front_event \<Rightarrow> front \<Rightarrow> front" where
  "front_step L (Receive i origin data) f = (if rtasks f i \<noteq> None then f else receive i origin data f)"
| "front_step L (Begin i t1 t2) f = begin_task L i t1 t2 f"
| "front_step L (Resume i now) f = wake_task L i now f"
| "front_step L (Discard i) f = discard_task i f"
| "front_step L StopUdp f = stop_udp f"
| "front_step L (CancelTasks udp) f = cancel_tasks udp f"
| "front_step L (Inside e) f =
     (if internal e then (case step L e (fres f) of None \<Rightarrow> f | Some s \<Rightarrow> f\<lparr>fres := s\<rparr>) else f)"

definition front_run :: "dnslib \<Rightarrow> front_event list \<Rightarrow> front \<Rightarrow> front" where
  "front_run L es f = fold (front_step L) es f"

section \<open>Invariant\<close>

lemma quiet_set_result: "quiet cc h (set_result shared resp h)"
proof -
  have "quiet cc h (h\<lparr>h_tasks := (h_tasks h)(t \<mapsto> Finished r')\<rparr>)" if t: "h_tasks h t = Some (Finished r)" for t r r'
  proof -
    let ?h = "h\<lparr>h_tasks := (h_tasks h)(t \<mapsto> Finished r')\<rparr>"
    have live: "live_key ?h = live_key h" by (rule ext) (simp add: live_key_def t)
    have "tasks_ok ?h = tasks_ok h" unfolding tasks_ok_def live using t by auto
    moreover have "grows h ?h" unfolding grows_def live using t by auto
    moreover have "refreshing ?h = refreshing h" by (rule refreshing_same) (simp add: t)
    moreover have "queue_ok ?h = queue_ok h" by (rule core_cong) simp_all
    ultimately show ?thesis by (simp add: quiet_def core_ok_def)
  qed
  then show ?thesis
    by (auto simp: set_result_def split: option.split task_state.split task_result.split)
qed

lemma quiet_counts:
  assumes "k \<noteq> ''cache_entries''" and "k' \<noteq> ''cache_entries''"
  shows "quiet cc h (h\<lparr>h_metrics := inc k (inc k' (h_metrics h))\<rparr>)"
  using quiet_trans [OF quiet_count [OF assms(2)] quiet_count [OF assms(1)], of cc h] by simp

lemma udp_respond_metrics:
  "udp_respond L cfg resp M = (sent, resp', M') \<Longrightarrow> M' = M \<or> M' = count_oversized M"
  by (auto simp: udp_respond_def Let_def split: sum.splits if_splits)

lemma tcp_respond_metrics:
  "tcp_respond L cfg resp M = (bs, M') \<Longrightarrow> M' = M \<or> M' = count_oversized M"
  by (auto simp: tcp_respond_def split: sum.splits if_splits)

lemma quiet_respond: "M' = h_metrics h \<or> M' = count_oversized (h_metrics h) \<Longrightarrow> quiet cc h (h\<lparr>h_metrics := M'\<rparr>)"
  by (auto simp: count_oversized_def quiet_counts)

fun origin_of :: "request_task \<Rightarrow> origin" where
  "origin_of (Fresh origin _) = origin"
| "origin_of (Waiting origin) = origin"
| "origin_of (Over origin) = origin"

definition tasks_via :: "bool \<Rightarrow> (nat \<rightharpoonup> request_task) \<Rightarrow> nat set" where
  "tasks_via u ts = {i. \<exists>t. ts i = Some t \<and> via_udp (origin_of t) = u}"

definition members_ok :: "bool \<Rightarrow> bool \<Rightarrow> (nat \<rightharpoonup> request_task) \<Rightarrow> task_set \<Rightarrow> bool" where
  "members_ok cn u ts s \<longleftrightarrow> distinct (ts_members s) \<and> set (ts_members s) \<subseteq> tasks_via u ts \<and> sg.bounded_ok s \<and>
     (\<not> cn \<longrightarrow> set (ts_members s) = tasks_via u ts)"

definition fits :: "udp_server_config \<Rightarrow> (origin \<times> bytes) list \<Rightarrow> bool" where
  "fits ucfg out \<longleftrightarrow> (\<forall>(origin, w) \<in> set out. via_udp origin \<longrightarrow> \<not> too_big (us_max_udp_payload ucfg) (length w))"

definition front_ok :: "cache_config \<Rightarrow> front \<Rightarrow> bool" where
  "front_ok cc f \<longleftrightarrow> resolver_ok cc (fres f) \<and> members_ok (cancelled f True) True (rtasks f) (udp_inflight f) \<and>
     members_ok (cancelled f False) False (rtasks f) (tcp_inflight f) \<and> fits (udp_server f) (outbox f)"

lemma tasks_via_upd:
  "tasks_via u (ts(i \<mapsto> t)) = (if via_udp (origin_of t) = u then insert i (tasks_via u ts) else tasks_via u ts - {i})"
  by (auto simp: tasks_via_def)

lemma tasks_via_del [simp]: "tasks_via u (ts(i := None)) = tasks_via u ts - {i}"
  by (auto simp: tasks_via_def)

lemma tasks_via_same: "ts i = Some t \<Longrightarrow> origin_of t' = origin_of t \<Longrightarrow> tasks_via u (ts(i \<mapsto> t')) = tasks_via u ts"
  by (auto simp: tasks_via_def)

lemma members_ok_same:
  "ts i = Some t \<Longrightarrow> origin_of t' = origin_of t \<Longrightarrow> members_ok cn u (ts(i \<mapsto> t')) s = members_ok cn u ts s"
  by (simp add: members_ok_def tasks_via_same)

lemma members_enter:
  assumes "members_ok cn u ts s" and "ts i = None" and "task_enter i s = (True, s')" and "via_udp (origin_of t) = u"
  shows "members_ok cn u (ts(i \<mapsto> t)) s'"
proof -
  have "i \<notin> tasks_via u ts" using assms(2) by (simp add: tasks_via_def)
  then have i: "i \<notin> set (ts_members s)" using assms(1) by (auto simp: members_ok_def)
  with sg.enter_bounded [of s i] assms(1,3) have "sg.bounded_ok s'" by (simp add: members_ok_def)
  moreover have "ts_members s' = i # ts_members s" using assms(3) by (auto simp: task_enter_def split: if_splits)
  ultimately show ?thesis using i assms(1,4) by (auto simp: members_ok_def tasks_via_upd)
qed

lemma members_other:
  "members_ok cn u ts s \<Longrightarrow> ts i = None \<Longrightarrow> via_udp (origin_of t) \<noteq> u \<Longrightarrow> members_ok cn u (ts(i \<mapsto> t)) s"
proof -
  assume a: "members_ok cn u ts s" "ts i = None" "via_udp (origin_of t) \<noteq> u"
  then have "tasks_via u ts - {i} = tasks_via u ts" by (auto simp: tasks_via_def)
  with a show ?thesis by (simp add: members_ok_def tasks_via_upd)
qed

lemma members_discard:
  assumes "members_ok cn u ts s" and "ts i = Some t"
  shows "members_ok cn u (ts(i := None)) (if via_udp (origin_of t) = u then task_discard i s else s)"
proof (cases "via_udp (origin_of t) = u")
  case True
  have "sg.bounded_ok (task_discard i s)"
  proof (cases "i \<in> set (ts_members s)")
    case True
    with sg.leave_bounded [of s i] assms(1) show ?thesis by (simp add: members_ok_def)
  next
    case False
    with assms(1) show ?thesis by (simp add: members_ok_def task_discard_def remove1_idem)
  qed
  with True assms(1) show ?thesis by (auto simp: members_ok_def task_discard_def)
next
  case False
  then have "i \<notin> tasks_via u ts" using assms(2) by (simp add: tasks_via_def)
  with False assms show ?thesis by (simp add: members_ok_def)
qed

lemma resolver_ok_set_core: "resolver_ok cc s \<Longrightarrow> quiet cc (core s) h \<Longrightarrow> resolver_ok cc (s\<lparr>core := h\<rparr>)"
  by (rule resolver_ok_quiet)

lemma front_ok_metrics:
  assumes "front_ok cc f" and "M = count_refused (h_metrics (fcore f)) \<or> M = count_malformed (h_metrics (fcore f))"
  shows "front_ok cc (set_metrics M f)"
proof -
  have "quiet cc (fcore f) ((fcore f)\<lparr>h_metrics := M\<rparr>)"
    using assms(2) by (auto simp: count_refused_def count_malformed_def quiet_counts)
  then have "resolver_ok cc ((fres f)\<lparr>core := (fcore f)\<lparr>h_metrics := M\<rparr>\<rparr>)"
    using assms(1) by (intro resolver_ok_set_core) (simp_all add: front_ok_def)
  with assms(1) show ?thesis by (simp add: front_ok_def set_metrics_def set_core_def)
qed

lemma front_ok_receive:
  assumes "front_ok cc f" and "rtasks f i = None"
  shows "front_ok cc (receive i origin data f)"
proof (cases origin)
  case (FromUdp a)
  obtain ok s where e: "task_enter i (udp_inflight f) = (ok, s)" by fastforce
  show ?thesis
  proof (cases ok)
    case True
    have "members_ok (cancelled f True) True ((rtasks f)(i \<mapsto> Fresh origin data)) s"
      using assms e True FromUdp by (intro members_enter [where s = "udp_inflight f"]) (simp_all add: front_ok_def)
    moreover have "members_ok (cancelled f False) False ((rtasks f)(i \<mapsto> Fresh origin data)) (tcp_inflight f)"
      using assms FromUdp by (intro members_other) (simp_all add: front_ok_def)
    ultimately show ?thesis using assms e True FromUdp by (simp add: receive_def front_ok_def)
  qed (use assms(1) front_ok_metrics [OF assms(1)] e FromUdp in \<open>simp add: receive_def\<close>)
next
  case (FromTcp a)
  obtain ok s where e: "task_enter i (tcp_inflight f) = (ok, s)" by fastforce
  show ?thesis
  proof (cases ok)
    case True
    have "members_ok (cancelled f False) False ((rtasks f)(i \<mapsto> Fresh origin data)) s"
      using assms e True FromTcp by (intro members_enter [where s = "tcp_inflight f"]) (simp_all add: front_ok_def)
    moreover have "members_ok (cancelled f True) True ((rtasks f)(i \<mapsto> Fresh origin data)) (udp_inflight f)"
      using assms FromTcp by (intro members_other) (simp_all add: front_ok_def)
    ultimately show ?thesis using assms e True FromTcp by (simp add: receive_def front_ok_def)
  qed (use front_ok_metrics [OF assms(1)] e FromTcp in \<open>simp add: receive_def\<close>)
qed

lemma udp_respond_fits:
  "udp_respond L cfg resp M = (Some w, resp', M') \<Longrightarrow> \<not> too_big (us_max_udp_payload cfg) (length w)"
  by (auto simp: udp_respond_def Let_def split: sum.splits if_splits)

lemma front_ok_deliver:
  assumes ok: "front_ok cc f" and t: "rtasks f i = Some t" "origin_of t = origin"
  shows "front_ok cc (deliver L i origin result f)"
proof -
  let ?f = "f\<lparr>rtasks := (rtasks f)(i \<mapsto> Over origin)\<rparr>"
  have ok': "front_ok cc ?f" using ok t by (simp add: front_ok_def members_ok_same)
  show ?thesis
  proof (cases "\<exists>resp shared. result = Reply resp shared")
    case True
    then obtain resp shared where r: "result = Reply resp shared" by blast
    show ?thesis
    proof (cases origin)
      case (FromUdp a)
      obtain sent resp' M where u: "udp_respond L (udp_server f) resp (h_metrics (fcore f)) = (sent, resp', M)"
        by (cases "udp_respond L (udp_server f) resp (h_metrics (fcore f))")
      let ?h = "set_result shared resp' ((fcore f)\<lparr>h_metrics := M\<rparr>)"
      have "quiet cc (fcore f) ?h"
        by (rule quiet_trans [OF quiet_respond [OF udp_respond_metrics [OF u]] quiet_set_result])
      with ok have "resolver_ok cc ((fres f)\<lparr>core := ?h\<rparr>)" by (intro resolver_ok_set_core) (simp_all add: front_ok_def)
      moreover have "fits (udp_server f) (outbox f @ (case sent of None \<Rightarrow> [] | Some w \<Rightarrow> [(FromUdp a, w)]))"
        using ok udp_respond_fits u by (auto simp: front_ok_def fits_def split: option.splits)
      ultimately show ?thesis using ok' u FromUdp by (simp add: deliver_def r set_core_def front_ok_def)
    next
      case (FromTcp a)
      obtain bs M where u: "tcp_respond L (tcp_server f) resp (h_metrics (fcore f)) = (bs, M)"
        by (cases "tcp_respond L (tcp_server f) resp (h_metrics (fcore f))")
      have "resolver_ok cc ((fres f)\<lparr>core := (fcore f)\<lparr>h_metrics := M\<rparr>\<rparr>)"
        using ok quiet_respond [OF tcp_respond_metrics [OF u]] by (intro resolver_ok_set_core) (simp_all add: front_ok_def)
      moreover have "fits (udp_server f) (outbox f @ (if bs = [] then [] else [(FromTcp a, bs)]))"
        using ok FromTcp by (auto simp: front_ok_def fits_def)
      ultimately show ?thesis using ok' u FromTcp by (simp add: deliver_def r set_metrics_def set_core_def front_ok_def)
    qed
  next
    case False
    with ok' show ?thesis by (cases result) (simp_all add: deliver_def)
  qed
qed

lemma front_ok_settled:
  assumes "front_ok cc f" and "rtasks f i = Some t" "origin_of t = origin" and "step L e (fres f) = os"
  shows "front_ok cc (settled L i origin os f)"
proof (cases os)
  case (Some s)
  with assms have "resolver_ok cc s" by (auto simp: front_ok_def dest: step_ok)
  with assms(1) have ok: "front_ok cc (f\<lparr>fres := s\<rparr>)" by (simp add: front_ok_def)
  show ?thesis
  proof (cases "awaiting s i = None")
    case True
    then show ?thesis using Some front_ok_deliver [OF ok, of i t] assms(2,3) by (simp add: settled_def)
  next
    case False
    then show ?thesis using Some ok assms(2,3) by (auto simp: settled_def front_ok_def members_ok_same)
  qed
qed (use assms in \<open>simp add: settled_def\<close>)

lemma cancel_request_frame:
  "udp_server (cancel_request i f) = udp_server f" "udp_inflight (cancel_request i f) = udp_inflight f"
  "tcp_inflight (cancel_request i f) = tcp_inflight f" "cancelled (cancel_request i f) = cancelled f"
  "outbox (cancel_request i f) = outbox f"
  unfolding cancel_request_def by (simp_all add: Let_def split: option.split request_task.split)

lemma cancel_request_via:
  "i \<notin> tasks_via u (rtasks f) \<Longrightarrow> tasks_via u (rtasks (cancel_request i f)) = tasks_via u (rtasks f)"
  unfolding cancel_request_def by (auto simp: tasks_via_same Let_def split: option.split request_task.split)

lemma cancel_request_ok: "resolver_ok cc (fres f) \<Longrightarrow> resolver_ok cc (fres (cancel_request i f))"
  unfolding cancel_request_def by (simp add: Let_def cancel_client_ok split: option.split request_task.split)

lemma cancel_fold_frame:
  "udp_server (fold cancel_request is f) = udp_server f" "udp_inflight (fold cancel_request is f) = udp_inflight f"
  "tcp_inflight (fold cancel_request is f) = tcp_inflight f" "cancelled (fold cancel_request is f) = cancelled f"
  "outbox (fold cancel_request is f) = outbox f"
  by (induction "is" arbitrary: f) (simp_all add: cancel_request_frame)

lemma cancel_fold_via:
  "set is \<inter> tasks_via u (rtasks f) = {} \<Longrightarrow> tasks_via u (rtasks (fold cancel_request is f)) = tasks_via u (rtasks f)"
  by (induction "is" arbitrary: f) (simp_all add: cancel_request_via)

lemma cancel_fold_ok: "resolver_ok cc (fres f) \<Longrightarrow> resolver_ok cc (fres (fold cancel_request is f))"
  by (induction "is" arbitrary: f) (simp_all add: cancel_request_ok)

lemma tasks_via_disjoint: "tasks_via u ts \<inter> tasks_via (\<not> u) ts = {}"
  by (auto simp: tasks_via_def)

lemma front_ok_cancel_tasks:
  assumes "front_ok cc f" shows "front_ok cc (cancel_tasks u f)"
proof -
  have cleared: "members_ok True u ts (task_clear s)" for ts s
    by (simp add: members_ok_def task_clear_def sg.bounded_ok_def)
  have other: "members_ok cn' (\<not> u) (rtasks (fold cancel_request (ts_members s) f)) s' = members_ok cn' (\<not> u) (rtasks f) s'"
    if "members_ok cn u (rtasks f) s" for cn cn' s s'
  proof -
    have "set (ts_members s) \<inter> tasks_via (\<not> u) (rtasks f) = {}"
      using that tasks_via_disjoint [of u "rtasks f"] by (auto simp: members_ok_def)
    then show ?thesis by (simp add: members_ok_def cancel_fold_via)
  qed
  have "resolver_ok cc (fres (fold cancel_request is f))" for "is"
    using assms by (simp add: cancel_fold_ok front_ok_def)
  with assms cleared other [of "cancelled f u"] show ?thesis
    by (cases u) (simp_all add: cancel_tasks_def front_ok_def cancel_fold_frame Let_def)
qed

lemma front_ok_step:
  assumes "front_ok cc f" shows "front_ok cc (front_step L e f)"
proof (cases e)
  case (Receive i origin data)
  then show ?thesis using assms front_ok_receive [OF assms] by simp
next
  case (Begin i t1 t2)
  show ?thesis
  proof (cases "\<exists>origin data. rtasks f i = Some (Fresh origin data)")
    case True
    then obtain origin data where t: "rtasks f i = Some (Fresh origin data)" by blast
    have ok: "front_ok cc (f\<lparr>rtasks := (rtasks f)(i \<mapsto> Over origin)\<rparr>)"
      using assms t by (simp add: front_ok_def members_ok_same)
    show ?thesis
    proof (cases "parse L data")
      case (Inl x)
      with t Begin front_ok_metrics [OF ok] show ?thesis by (simp add: begin_task_def)
    next
      case (Inr req)
      with t Begin front_ok_settled [OF assms t _ refl] show ?thesis by (simp add: begin_task_def del: step.simps)
    qed
  qed (use assms Begin in \<open>auto simp: begin_task_def split: option.split request_task.split\<close>)
next
  case (Resume i now)
  show ?thesis
  proof (cases "\<exists>origin. rtasks f i = Some (Waiting origin)")
    case True
    then obtain origin where t: "rtasks f i = Some (Waiting origin)" by blast
    with Resume front_ok_settled [OF assms t _ refl] show ?thesis by (simp add: wake_task_def del: step.simps)
  qed (use assms Resume in \<open>auto simp: wake_task_def split: option.split request_task.split\<close>)
next
  case (Discard i)
  show ?thesis
  proof (cases "\<exists>origin. rtasks f i = Some (Over origin)")
    case True
    then obtain origin where t: "rtasks f i = Some (Over origin)" by blast
    have "members_ok cn u ((rtasks f)(i := None)) (if via_udp origin = u then task_discard i s else s)"
      if "members_ok cn u (rtasks f) s" for cn u s
      using members_discard [OF that t] by simp
    from this [of _ True] this [of _ False] show ?thesis
      using assms Discard t by (cases origin) (auto simp: discard_task_def front_ok_def)
  qed (use assms Discard in \<open>auto simp: discard_task_def split: option.split request_task.split\<close>)
next
  case StopUdp
  with assms show ?thesis by (simp add: stop_udp_def front_ok_def)
next
  case (CancelTasks u)
  with front_ok_cancel_tasks [OF assms] show ?thesis by simp
next
  case (Inside ev)
  then show ?thesis using assms by (auto simp: front_ok_def dest: step_ok split: option.split)
qed

lemma front_ok_run: "front_ok cc f \<Longrightarrow> front_ok cc (front_run L es f)"
  unfolding front_run_def by (induction es arbitrary: f) (auto intro: front_ok_step)

section \<open>Properties\<close>

lemma front_step_frame:
  "udp_server (front_step L e f) = udp_server f \<and> ts_bound (udp_inflight (front_step L e f)) = ts_bound (udp_inflight f) \<and>
   ts_bound (tcp_inflight (front_step L e f)) = ts_bound (tcp_inflight f)"
proof -
  have d: "udp_server (deliver L i origin r g) = udp_server g \<and> udp_inflight (deliver L i origin r g) = udp_inflight g \<and>
      tcp_inflight (deliver L i origin r g) = tcp_inflight g" for i origin r g
    by (auto simp: deliver_def set_metrics_def set_core_def Let_def split: handle_result.split origin.split prod.split)
  have s: "udp_server (settled L i origin os f) = udp_server f \<and> udp_inflight (settled L i origin os f) = udp_inflight f \<and>
      tcp_inflight (settled L i origin os f) = tcp_inflight f" for i origin os
    by (auto simp: settled_def d split: option.split)
  show ?thesis
    by (cases e)
      (auto simp: s receive_def begin_task_def wake_task_def discard_task_def task_enter_def task_discard_def set_metrics_def
        stop_udp_def cancel_tasks_def cancel_fold_frame task_clear_def Let_def set_core_def simp del: step.simps
        split: option.split request_task.split origin.split sum.split)
qed

lemma front_run_frame:
  "udp_server (front_run L es f) = udp_server f \<and> ts_bound (udp_inflight (front_run L es f)) = ts_bound (udp_inflight f) \<and>
   ts_bound (tcp_inflight (front_run L es f)) = ts_bound (tcp_inflight f)"
  unfolding front_run_def by (induction es arbitrary: f) (simp_all add: front_step_frame)

text \<open>
  The servers in front of the handler, under any interleaving of requests over both transports with
  the flights, refreshes and scans inside: the handler keeps its invariant although the UDP server
  changes response objects that flights share; the set of each server has at most \<open>max_inflight\<close> members,
  and holds all its request tasks until they are cancelled; and no datagram that was sent exceeds the payload limit.
\<close>

lemma front_guarantees:
  assumes "cache_config_ok cc" and "reachable L cfg cc s"
    and "f = front_run L es (front_init ucfg tcfg s)"
  shows "resolver_ok cc (fres f) \<and>
    (0 < us_max_inflight ucfg \<and> \<not> cancelled f True \<longrightarrow> int (card (tasks_via True (rtasks f))) \<le> us_max_inflight ucfg) \<and>
    (0 < ts_max_inflight tcfg \<and> \<not> cancelled f False \<longrightarrow> int (card (tasks_via False (rtasks f))) \<le> ts_max_inflight tcfg) \<and>
    (\<forall>a w. (FromUdp a, w) \<in> set (outbox f) \<longrightarrow> \<not> too_big (us_max_udp_payload ucfg) (length w))"
proof -
  have "front_ok cc (front_init ucfg tcfg s)"
    using reachable_ok [OF assms(1,2)]
    by (simp add: front_ok_def front_init_def members_ok_def tasks_via_def sg.bounded_ok_def fits_def)
  then have ok: "front_ok cc f" unfolding assms(3) by (rule front_ok_run)
  have fr: "udp_server f = ucfg" "ts_bound (udp_inflight f) = us_max_inflight ucfg" "ts_bound (tcp_inflight f) = ts_max_inflight tcfg"
    unfolding assms(3) using front_run_frame [of L es "front_init ucfg tcfg s"] by (simp_all add: front_init_def)
  have "0 < ts_bound t \<and> \<not> cn \<longrightarrow> int (card (tasks_via u (rtasks f))) \<le> ts_bound t" if "members_ok cn u (rtasks f) t" for cn u t
    using that distinct_card [of "ts_members t"] by (auto simp: members_ok_def sg.bounded_ok_def)
  from this [of _ True "udp_inflight f"] this [of _ False "tcp_inflight f"] ok show ?thesis
    by (auto simp: front_ok_def fr fits_def)
qed

lemma sample_reachable_start: "reachable sample_lib default_handler_config default_cache_config sample_start"
  by (rule sample_reachable [of "[]"]) simp

text \<open>
  C30. Truncation leaks. Two requests, one over UDP and one over TCP, wait for the same flight. If its
  answer is too large for UDP and the UDP request wakes up first, it is sent the truncated response,
  as it should; but the TCP request is then sent the truncated response, too, with the TC bit and
  without any record, although the full answer was there and fits a TCP message.
\<close>

theorem truncation_reaches_tcp_client:
  assumes "rtasks f i = Some (Waiting (FromUdp a))" and "rtasks f j = Some (Waiting (FromTcp c))"
    and "awaiting (fres f) i = Some (req, t)" and "awaiting (fres f) j = Some (req', t)" and "i \<noteq> j"
    and "h_tasks (fcore f) t = Some (Finished (Returned (Some resp)))"
    and "pack L (with_txid req resp) = Inr w" and "too_big (us_max_udp_payload (udp_server f)) (length w)"
    and "pack L (truncated (with_txid req resp)) = Inr w1" and "\<not> too_big (us_max_udp_payload (udp_server f)) (length w1)"
    and "pack L (with_txid req' (truncated (with_txid req resp))) = Inr w2"
    and "\<not> too_big (ts_max_message_size (tcp_server f)) (length w2)" and "frame w2 = Inr bs"
  shows "outbox (front_run L [Resume i now, Resume j now'] f) = outbox f @ [(FromUdp a, w1), (FromTcp c, bs)]"
proof -
  let ?r = "with_txid req resp"
  let ?s1 = "(fres f)\<lparr>core := (fcore f)\<lparr>h_tasks := (h_tasks (fcore f))(t \<mapsto> Finished (Returned (Some ?r)))\<rparr>,
    awaiting := (awaiting (fres f))(i := None), replies := replies (fres f) @ [(i, Reply ?r (Some t))]\<rparr>"
  have s1: "step L (Wake i now) (fres f) = Some ?s1"
    by (simp add: assms(3,6) finished_result_def handle_resume_def settle_def Let_def)
  let ?h = "(fcore f)\<lparr>h_tasks := (h_tasks (fcore f))(t \<mapsto> Finished (Returned (Some (truncated ?r))))\<rparr>"
  define f1 where "f1 = f\<lparr>fres := ?s1\<lparr>core := ?h\<rparr>, rtasks := (rtasks f)(i \<mapsto> Over (FromUdp a)),
      outbox := outbox f @ [(FromUdp a, w1)]\<rparr>"
  have u: "udp_respond L (udp_server f) ?r M = (Some w1, truncated ?r, M)" for M
    by (simp add: udp_respond_def assms(7-10) Let_def)
  have f1: "front_step L (Resume i now) f = f1"
    by (simp add: wake_task_def assms(1) s1 settled_def deliver_def u set_core_def set_result_def f1_def del: step.simps)
  have r2: "rtasks f1 j = Some (Waiting (FromTcp c))" using assms(2,5) by (simp add: f1_def)
  let ?q = "with_txid req' (truncated ?r)"
  let ?s2 = "(fres f1)\<lparr>core := (fcore f1)\<lparr>h_tasks := (h_tasks (fcore f1))(t \<mapsto> Finished (Returned (Some ?q)))\<rparr>,
    awaiting := (awaiting (fres f1))(j := None), replies := replies (fres f1) @ [(j, Reply ?q (Some t))]\<rparr>"
  have s2: "step L (Wake j now') (fres f1) = Some ?s2"
    using assms(4,5) by (simp add: f1_def finished_result_def handle_resume_def settle_def Let_def)
  have v: "tcp_respond L (tcp_server f1) ?q M = (bs, M)" for M
    by (simp add: tcp_respond_def assms(11-13) f1_def)
  have ne: "bs \<noteq> []" using assms(13) by (auto dest: length_frame)
  have "outbox (front_step L (Resume j now') f1) = outbox f1 @ [(FromTcp c, bs)]"
    by (simp add: wake_task_def r2 s2 settled_def deliver_def set_metrics_def set_core_def v ne del: step.simps)
  then show ?thesis by (simp add: front_run_def f1 del: front_step.simps) (simp add: f1_def)
qed

definition small_payload :: udp_server_config where
  "small_payload = default_udp_server_config\<lparr>us_max_udp_payload := 4\<rparr>"

definition two_waiting :: front where
  "two_waiting =
     front_run sample_lib
       [Receive 1 (FromUdp 7) [5, 0, 0], Receive 2 (FromTcp 8) [6, 0, 0], Begin 1 1 1, Begin 2 1 1, Inside (Start 0),
        Inside (Answer 0 (Inr (Some [5, 0, 0, 9, 9, 9])) (Inr None) 2 2)]
       (front_init small_payload default_tcp_server_config sample_start)"

lemma sample_request: "sample_parse [5, 0, 0] = Inr (sample_msg 5 0 [])" "sample_parse [6, 0, 0] = Inr (sample_msg 6 0 [])"
  "sample_parse [5, 0, 0, 9, 9, 9] = Inr (sample_msg 5 0 [sample_rr 9, sample_rr 9, sample_rr 9])"
  by (simp_all add: sample_parse_def sample_msg_def)

lemma two_waiting_state:
  "rtasks two_waiting 1 = Some (Waiting (FromUdp 7)) \<and> rtasks two_waiting 2 = Some (Waiting (FromTcp 8)) \<and>
   awaiting (fres two_waiting) 1 = Some (sample_msg 5 0 [], 0) \<and> awaiting (fres two_waiting) 2 = Some (sample_msg 6 0 [], 0) \<and>
   h_tasks (fcore two_waiting) 0 = Some (Finished (Returned (Some (sample_msg 5 0 [sample_rr 9, sample_rr 9, sample_rr 9])))) \<and>
   udp_server two_waiting = small_payload \<and> tcp_server two_waiting = default_tcp_server_config \<and> outbox two_waiting = []"
proof -
  let ?q1 = "Query 1 (sample_msg 5 0 []) 1 1" and ?q2 = "Query 2 (sample_msg 6 0 []) 1 1"
  let ?a = "Answer 0 (Inr (Some [5, 0, 0, 9, 9, 9])) (Inr None) 2 2"
  obtain s1 where r1: "run sample_lib [?q1] sample_start = Some s1" and aw1: "awaiting s1 1 = Some (sample_msg 5 0 [], 0)"
    by (simp add: sample_run_simps)
  obtain s2 where r2: "run sample_lib [?q1, ?q2] sample_start = Some s2" and aw2: "awaiting s2 2 = Some (sample_msg 6 0 [], 0)"
    by (simp add: sample_run_simps)
  obtain s4 where r4: "run sample_lib [?q1, ?q2, Start 0, ?a] sample_start = Some s4"
    and aw: "awaiting s4 1 = Some (sample_msg 5 0 [], 0)" "awaiting s4 2 = Some (sample_msg 6 0 [], 0)"
    and fin: "h_tasks (core s4) 0 = Some (Finished (Returned (Some (sample_msg 5 0 [sample_rr 9, sample_rr 9, sample_rr 9]))))"
    by (simp add: sample_run_simps)
  have st1: "step sample_lib ?q1 sample_start = Some s1" using r1 by (simp del: step.simps split: option.splits)
  have st2: "step sample_lib ?q2 s1 = Some s2" using r2 st1 by (simp del: step.simps split: option.splits)
  obtain s3 where st3: "step sample_lib (Start 0) s2 = Some s3" and st4: "step sample_lib ?a s3 = Some s4"
    using r4 st1 st2 by (auto simp del: step.simps split: option.splits)
  show ?thesis
    by (simp add: two_waiting_def front_run_def front_init_def receive_def task_enter_def begin_task_def settled_def
        sample_request st1 st2 st3 st4 aw1 aw2 aw fin small_payload_def default_udp_server_config_def default_tcp_server_config_def del: step.simps One_nat_def)
qed

lemma truncation_reaches_tcp_client_witness:
  "outbox (front_run sample_lib [Resume 1 3, Resume 2 3] two_waiting) = [(FromUdp 7, [5, 1, 0]), (FromTcp 8, [0, 3, 6, 1, 0])]"
proof -
  note s = two_waiting_state
  let ?m = "sample_msg 5 0 [sample_rr 9, sample_rr 9, sample_rr 9]"
  let ?r = "with_txid (sample_msg 5 0 []) ?m"
  have "pack sample_lib ?r = Inr [5, 0, 0, 9, 9, 9]" "pack sample_lib (truncated ?r) = Inr [5, 1, 0]"
    "pack sample_lib (with_txid (sample_msg 6 0 []) (truncated ?r)) = Inr [6, 1, 0]" "frame [6, 1, 0] = Inr [0, 3, 6, 1, 0]"
    by (simp_all add: sample_pack_def sample_msg_def sample_rr_def with_txid_def truncated_def frame_def to_bytes2_def)
  then show ?thesis
    using truncation_reaches_tcp_client [of two_waiting 1 7 2 8 "sample_msg 5 0 []" 0 "sample_msg 6 0 []" ?m sample_lib
        "[5, 0, 0, 9, 9, 9]" "[5, 1, 0]" "[6, 1, 0]" "[0, 3, 6, 1, 0]" 3 3] s
    by (simp add: small_payload_def default_udp_server_config_def default_tcp_server_config_def too_big_def)
qed

end
