(* ===== verification/Udp_Forwarder.thy ===== *)
theory Udp_Forwarder
  imports Admission
begin

text \<open>
  The UDP forwarder of \<^verbatim>\<open>upstream/udp_forwarder.py\<close>. A query is a coroutine that hands a blocking
  socket exchange to a thread pool and waits for its future. The model is a transition system over the
  futures: a query enters, a worker thread takes the oldest job, the socket operation ends, the
  coroutine resumes, a query is cancelled, the forwarder is closed. What a socket operation returns or
  raises is an argument.
\<close>

section \<open>State\<close>

record udp_config =
  udp_host :: string
  udp_port :: int
  udp_timeout_s :: time
  udp_max_workers :: int
  udp_max_inflight :: int

definition default_udp_config :: udp_config where
  "default_udp_config = \<lparr>udp_host = ''1.1.1.1'', udp_port = 53, udp_timeout_s = 2, udp_max_workers = 32, udp_max_inflight = 0\<rparr>"

text \<open>
  The future of a job of the thread pool: waiting for a thread, running, running although its query
  was cancelled, finished with the result or exception of the function, cancelled before it ran.
\<close>

datatype fut = Queued bytes | Running bytes | Orphan bytes | Finished "bytes option result" | Dropped

record udp_forwarder =
  ucfg :: udp_config
  uclosed :: bool
  ugate :: gate
  umetrics :: "metrics option"
  futs :: "(nat, fut) dict"
  returned :: "(nat \<times> bytes option result) list"

definition udp_init :: "udp_config \<Rightarrow> metrics option \<Rightarrow> udp_forwarder" where
  "udp_init cfg M =
     \<lparr>ucfg = cfg, uclosed = False, ugate = gate_init (udp_max_inflight cfg), umetrics = M, futs = [], returned = []\<rparr>"

section \<open>Operations\<close>

text \<open>\<open>query\<close> up to its only await, for a query with a new number.\<close>

definition udp_query :: "nat \<Rightarrow> bytes \<Rightarrow> udp_forwarder \<Rightarrow> udp_forwarder" where
  "udp_query q wire f =
     (if uclosed f then f\<lparr>returned := (q, Inr None) # returned f\<rparr>
      else
        (case gate_enter (ugate f) of
           (False, g) \<Rightarrow> f\<lparr>umetrics := count_refused (umetrics f), returned := (q, Inr None) # returned f\<rparr>
         | (True, g) \<Rightarrow> f\<lparr>ugate := g, futs := futs f @ [(q, Queued wire)]\<rparr>))"

text \<open>The end of \<open>query\<close>: its \<open>finally\<close> block, then the result is returned or the exception raised.\<close>

definition udp_return :: "nat \<Rightarrow> bytes option result \<Rightarrow> udp_forwarder \<Rightarrow> udp_forwarder" where
  "udp_return q r f = f\<lparr>ugate := gate_leave (ugate f), returned := (q, r) # returned f\<rparr>"

definition udp_resume :: "nat \<Rightarrow> udp_forwarder \<Rightarrow> udp_forwarder" where
  "udp_resume q f =
     (case dict_get (futs f) q of
        Some (Finished r) \<Rightarrow> udp_return q r (f\<lparr>futs := dict_pop q (futs f)\<rparr>)
      | Some Dropped \<Rightarrow> udp_return q (Inl CancelledError) (f\<lparr>futs := dict_pop q (futs f)\<rparr>)
      | _ \<Rightarrow> f)"

text \<open>Cancelling the task that awaits a query: a job that already runs goes on without it.\<close>

definition udp_cancel :: "nat \<Rightarrow> udp_forwarder \<Rightarrow> udp_forwarder" where
  "udp_cancel q f =
     (case dict_get (futs f) q of
        None \<Rightarrow> f
      | Some (Orphan wire) \<Rightarrow> f
      | Some (Running wire) \<Rightarrow> udp_return q (Inl CancelledError) (f\<lparr>futs := dict_set q (Orphan wire) (futs f)\<rparr>)
      | Some _ \<Rightarrow> udp_return q (Inl CancelledError) (f\<lparr>futs := dict_pop q (futs f)\<rparr>))"

text \<open>
  \<open>_query_blocking\<close>, which a thread runs: it counts the request, opens a socket (outside the
  \<open>try\<close>), sends the query and waits for one datagram.
\<close>

datatype socket_outcome = NoSocket exn | Datagram bytes | SocketTimeout | SocketError exn

definition query_blocking_begin :: "metrics option \<Rightarrow> metrics option" where
  "query_blocking_begin M = inc ''upstream_requests_total'' M"

definition query_blocking_end :: "socket_outcome \<Rightarrow> metrics option \<Rightarrow> bytes option result \<times> metrics option" where
  "query_blocking_end out M =
     (case out of
        NoSocket x \<Rightarrow> (Inl x, M)
      | Datagram data \<Rightarrow> (Inr (Some (take 65535 data)), M)
      | SocketTimeout \<Rightarrow> (Inr None, inc ''upstream_udp_timeouts_total'' (inc ''upstream_udp_errors_total'' M))
      | SocketError x \<Rightarrow> (Inr None, inc ''upstream_udp_errors_total'' M))"

fun threaded :: "fut \<Rightarrow> bool" where
  "threaded (Running _) \<longleftrightarrow> True"
| "threaded (Orphan _) \<longleftrightarrow> True"
| "threaded _ \<longleftrightarrow> False"

fun is_queued :: "fut \<Rightarrow> bool" where
  "is_queued (Queued _) \<longleftrightarrow> True"
| "is_queued _ \<longleftrightarrow> False"

definition threads :: "udp_forwarder \<Rightarrow> nat" where
  "threads f = length (filter (threaded \<circ> snd) (futs f))"

text \<open>A thread of the pool takes the oldest job, if fewer than \<open>max_workers\<close> threads are busy.\<close>

definition worker_pick :: "udp_forwarder \<Rightarrow> udp_forwarder" where
  "worker_pick f =
     (if int (threads f) < udp_max_workers (ucfg f) then
        (case find (is_queued \<circ> snd) (futs f) of
           Some (q, Queued wire) \<Rightarrow>
             f\<lparr>futs := dict_set q (Running wire) (futs f), umetrics := query_blocking_begin (umetrics f)\<rparr>
         | _ \<Rightarrow> f)
      else f)"

definition worker_end :: "nat \<Rightarrow> socket_outcome \<Rightarrow> udp_forwarder \<Rightarrow> udp_forwarder" where
  "worker_end q out f =
     (case query_blocking_end out (umetrics f) of
        (r, M) \<Rightarrow>
          (case dict_get (futs f) q of
             Some (Running wire) \<Rightarrow> f\<lparr>futs := dict_set q (Finished r) (futs f), umetrics := M\<rparr>
           | Some (Orphan wire) \<Rightarrow> f\<lparr>futs := dict_pop q (futs f), umetrics := M\<rparr>
           | _ \<Rightarrow> f))"

text \<open>\<open>close\<close>: the pool is shut down without waiting and the jobs no thread has taken are cancelled.\<close>

definition drop_queued :: "fut \<Rightarrow> fut" where
  "drop_queued x = (if is_queued x then Dropped else x)"

definition udp_close :: "udp_forwarder \<Rightarrow> udp_forwarder" where
  "udp_close f =
     (if uclosed f then f
      else f\<lparr>uclosed := True, futs := map (\<lambda>p. (fst p, drop_queued (snd p))) (futs f)\<rparr>)"

datatype udp_event =
    UQuery nat bytes | UPick | UEnd nat socket_outcome | UResume nat | UCancel nat | UClose

fun udp_step :: "udp_event \<Rightarrow> udp_forwarder \<Rightarrow> udp_forwarder" where
  "udp_step (UQuery q wire) f = (if q \<in> set (keys (futs f)) then f else udp_query q wire f)"
| "udp_step UPick f = worker_pick f"
| "udp_step (UEnd q out) f = worker_end q out f"
| "udp_step (UResume q) f = udp_resume q f"
| "udp_step (UCancel q) f = udp_cancel q f"
| "udp_step UClose f = udp_close f"

definition udp_run :: "udp_event list \<Rightarrow> udp_forwarder \<Rightarrow> udp_forwarder" where
  "udp_run evs f = fold udp_step evs f"

section \<open>Invariant\<close>

text \<open>The queries in progress: those whose coroutine waits for a future.\<close>

fun awaited :: "fut \<Rightarrow> bool" where
  "awaited (Orphan _) \<longleftrightarrow> False"
| "awaited _ \<longleftrightarrow> True"

definition udp_ok :: "udp_forwarder \<Rightarrow> bool" where
  "udp_ok f \<longleftrightarrow> dict_ok (futs f) \<and> gate_tracks (ugate f) (tally awaited (futs f)) \<and>
     int (tally threaded (futs f)) \<le> max 0 (udp_max_workers (ucfg f)) \<and>
     (uclosed f \<longrightarrow> tally is_queued (futs f) = 0)"

lemma udp_ok_init [simp]: "udp_ok (udp_init cfg M)"
  by (simp add: udp_ok_def udp_init_def)

lemma udp_ok_pop:
  assumes "udp_ok f" and "dict_get (futs f) q = Some x" and "awaited x" and "\<not> threaded x"
  shows "udp_ok (udp_return q r (f\<lparr>futs := dict_pop q (futs f)\<rparr>))"
proof -
  have d: "dict_ok (futs f)" using assms(1) by (simp add: udp_ok_def)
  note t = tally_pop [OF d assms(2)]
  have "gate_tracks (ugate f) (Suc (tally awaited (dict_pop q (futs f))))"
    using assms(1,3) t [of awaited] by (simp add: udp_ok_def)
  from gate_tracks_leave [OF this] show ?thesis
    using assms t [of threaded] t [of is_queued] d by (auto simp: udp_ok_def udp_return_def simp del: filter_empty_conv)
qed

lemma udp_ok_query:
  assumes "udp_ok f" and "q \<notin> set (keys (futs f))"
  shows "udp_ok (udp_query q wire f)"
proof (cases "uclosed f")
  case False
  obtain ok g where g: "gate_enter (ugate f) = (ok, g)" by fastforce
  with assms(1) have "gate_tracks g (if ok then Suc (tally awaited (futs f)) else tally awaited (futs f))"
    by (intro gate_tracks_enter) (simp_all add: udp_ok_def)
  with False assms g show ?thesis by (cases ok) (auto simp: udp_query_def udp_ok_def)
qed (use assms in \<open>simp add: udp_query_def udp_ok_def\<close>)

lemma udp_ok_pick: "udp_ok f \<Longrightarrow> udp_ok (worker_pick f)"
proof (cases "find (is_queued \<circ> snd) (futs f)")
  case (Some p)
  assume ok: "udp_ok f"
  obtain q x where p: "p = (q, x)" by (cases p)
  from find_SomeD [OF Some] have "(q, x) \<in> set (futs f)" "is_queued x" by (simp_all add: p)
  then obtain wire where x: "x = Queued wire" by (cases x) auto
  have d: "dict_ok (futs f)" using ok by (simp add: udp_ok_def)
  with \<open>(q, x) \<in> set (futs f)\<close> have g: "dict_get (futs f) q = Some (Queued wire)" by (simp add: x)
  note t = tally_set [OF d g, where w = "Running wire"]
  show ?thesis
    using ok t [of awaited] t [of threaded] t [of is_queued] d
    by (auto simp: worker_pick_def Some p x udp_ok_def threads_def simp del: filter_empty_conv)
qed (simp add: worker_pick_def)

lemma udp_ok_end: "udp_ok f \<Longrightarrow> udp_ok (worker_end q out f)"
proof -
  assume ok: "udp_ok f"
  then have d: "dict_ok (futs f)" by (simp add: udp_ok_def)
  obtain r M where b: "query_blocking_end out (umetrics f) = (r, M)" by fastforce
  show ?thesis
  proof (cases "dict_get (futs f) q")
    case (Some x)
    show ?thesis
    proof (cases x)
      case (Running wire)
      note t = tally_set [OF d Some, where w = "Finished r"]
      show ?thesis using ok t [of awaited] t [of threaded] t [of is_queued] d Running
        by (auto simp: worker_end_def b Some udp_ok_def simp del: filter_empty_conv)
    next
      case (Orphan wire)
      note t = tally_pop [OF d Some]
      show ?thesis using ok t [of awaited] t [of threaded] t [of is_queued] d Orphan
        by (auto simp: worker_end_def b Some udp_ok_def simp del: filter_empty_conv)
    qed (use ok Some in \<open>simp_all add: worker_end_def b\<close>)
  qed (use ok in \<open>simp add: worker_end_def b\<close>)
qed

lemma udp_ok_cancel: "udp_ok f \<Longrightarrow> udp_ok (udp_cancel q f)"
proof -
  assume ok: "udp_ok f"
  then have d: "dict_ok (futs f)" by (simp add: udp_ok_def)
  show ?thesis
  proof (cases "dict_get (futs f) q")
    case (Some x)
    show ?thesis
    proof (cases x)
      case (Running wire)
      with Some have g: "dict_get (futs f) q = Some (Running wire)" by simp
      note t = tally_set [OF d g, where w = "Orphan wire"]
      have "gate_tracks (ugate f) (Suc (tally awaited (dict_set q (Orphan wire) (futs f))))"
        using ok t [of awaited] by (simp add: udp_ok_def)
      from gate_tracks_leave [OF this] show ?thesis
        using ok t [of threaded] t [of is_queued] d
        by (auto simp: udp_cancel_def g udp_ok_def udp_return_def simp del: filter_empty_conv)
    qed (use ok Some udp_ok_pop [OF ok Some] in \<open>auto simp: udp_cancel_def\<close>)
  qed (use ok in \<open>simp add: udp_cancel_def\<close>)
qed

lemma udp_ok_close: "udp_ok f \<Longrightarrow> udp_ok (udp_close f)"
proof -
  have t: "awaited (drop_queued x) = awaited x" "threaded (drop_queued x) = threaded x" "\<not> is_queued (drop_queued x)" for x
    by (cases x; simp add: drop_queued_def)+
  show "udp_ok f \<Longrightarrow> udp_ok (udp_close f)"
    by (auto simp: udp_close_def udp_ok_def t comp_def filter_map)
qed

lemma udp_ok_step: "udp_ok f \<Longrightarrow> udp_ok (udp_step e f)"
proof (cases e)
  case (UResume q)
  assume "udp_ok f"
  with UResume show ?thesis
    by (auto simp: udp_resume_def intro!: udp_ok_pop split: option.splits fut.splits)
qed (auto intro: udp_ok_query udp_ok_pick udp_ok_end udp_ok_cancel udp_ok_close)

lemma udp_ok_run: "udp_ok f \<Longrightarrow> udp_ok (udp_run evs f)"
  unfolding udp_run_def by (induction evs arbitrary: f) (auto intro: udp_ok_step)

section \<open>Properties\<close>

lemma config_step [simp]:
  "ucfg (udp_step e f) = ucfg f" and gate_step [simp]: "gate_max (ugate (udp_step e f)) = gate_max (ugate f)"
proof -
  have "ucfg (udp_step e f) = ucfg f \<and> gate_max (ugate (udp_step e f)) = gate_max (ugate f)"
    by (cases e) (auto simp: udp_query_def worker_pick_def worker_end_def udp_resume_def udp_cancel_def udp_close_def
        udp_return_def split: prod.splits option.splits fut.splits bool.splits dest: gate_max_entered)
  then show "ucfg (udp_step e f) = ucfg f" "gate_max (ugate (udp_step e f)) = gate_max (ugate f)" by simp_all
qed

lemma config_run [simp]:
  "ucfg (udp_run evs f) = ucfg f" "gate_max (ugate (udp_run evs f)) = gate_max (ugate f)"
  unfolding udp_run_def by (induction evs arbitrary: f) simp_all

text \<open>
  C19. Whatever queries arrive, end, time out or are cancelled, in whatever order, with a bound on the
  queries in progress the counter is exact and never exceeds it; no more jobs run than there are worker
  threads; and after the forwarder is closed no job waits for a thread.
\<close>

theorem udp_forwarder_bounds:
  fixes evs cfg M
  defines "f \<equiv> udp_run evs (udp_init cfg M)"
  shows "(0 < udp_max_inflight cfg \<longrightarrow>
      gate_used (ugate f) = int (tally awaited (futs f)) \<and> int (tally awaited (futs f)) \<le> udp_max_inflight cfg) \<and>
    int (threads f) \<le> max 0 (udp_max_workers cfg) \<and>
    (uclosed f \<longrightarrow> \<not> list_ex (is_queued \<circ> snd) (futs f))"
proof -
  have ok: "udp_ok f" unfolding f_def by (rule udp_ok_run) simp
  have c: "ucfg f = cfg" "gate_max (ugate f) = max 0 (udp_max_inflight cfg)"
    unfolding f_def by (simp_all add: udp_init_def)
  show ?thesis
    using ok by (auto simp: udp_ok_def c gate_tracks_def threads_def list_ex_iff filter_empty_conv)
qed

lemma udp_forwarder_bounds_witness:
  defines "cfg \<equiv> default_udp_config\<lparr>udp_max_inflight := 1\<rparr>"
  defines "f \<equiv> udp_run [UQuery 0 [7], UQuery 1 [8], UPick] (udp_init cfg None)"
  shows "gate_used (ugate f) = 1 \<and> returned f = [(1, Inr None)] \<and> dict_get (futs f) 0 = Some (Running [7]) \<and>
    int (tally awaited (futs f)) \<le> 1"
proof -
  have "returned f = [(1, Inr None)] \<and> dict_get (futs f) 0 = Some (Running [7]) \<and> tally awaited (futs f) = 1"
    unfolding f_def cfg_def by code_simp
  moreover have "0 < udp_max_inflight cfg" by (simp add: cfg_def)
  ultimately show ?thesis
    using udp_forwarder_bounds [where evs = "[UQuery 0 [7], UQuery 1 [8], UPick]" and cfg = cfg and M = None]
    unfolding f_def by (simp add: cfg_def)
qed

text \<open>
  A query that is admitted while a thread is free and no other job waits runs to its end: the
  caller gets the datagram that arrived, no answer for a timeout or a socket error, and the exception
  of a socket that could not be opened; the request is counted once, a timeout or error exactly once as
  an error, and afterwards the forwarder is as it was before.
\<close>

theorem udp_query_outcome:
  assumes "udp_ok f" and "\<not> uclosed f" and "fst (gate_enter (ugate f))" and "q \<notin> set (keys (futs f))"
    and "\<not> list_ex (is_queued \<circ> snd) (futs f)" and "int (threads f) < udp_max_workers (ucfg f)"
    and "udp_run [UQuery q wire, UPick, UEnd q out, UResume q] f = f'"
  shows "hd (returned f') = (q, case out of NoSocket x \<Rightarrow> Inl x | Datagram d \<Rightarrow> Inr (Some (take 65535 d)) | _ \<Rightarrow> Inr None)
    \<and> tl (returned f') = returned f \<and> futs f' = futs f \<and> ugate f' = ugate f
    \<and> umetrics f' = snd (query_blocking_end out (inc ''upstream_requests_total'' (umetrics f)))"
proof -
  obtain g where g: "gate_enter (ugate f) = (True, g)" using assms(3) by (cases "gate_enter (ugate f)") auto
  have gl: "gate_leave g = ugate f" using g by (rule gate_leave_enter)
  have fnd: "find (is_queued \<circ> snd) (futs f @ [(q, Queued wire)]) = Some (q, Queued wire)"
    using assms(5) by (simp add: find_snoc comp_def)
  have th: "threads (f\<lparr>ugate := g, futs := futs f @ [(q, Queued wire)]\<rparr>) = threads f" by (simp add: threads_def)
  obtain r M where e: "query_blocking_end out (inc ''upstream_requests_total'' (umetrics f)) = (r, M)" by fastforce
  have f': "f' = f\<lparr>umetrics := M, returned := (q, r) # returned f\<rparr>"
    using assms(2,4,6) g gl fnd th e unfolding assms(7) [symmetric]
    by (simp add: udp_run_def udp_query_def worker_pick_def worker_end_def udp_resume_def udp_return_def
        query_blocking_begin_def dict_set_snoc dict_pop_snoc dict_get_snoc del: map_of_append)
  moreover have "r = (case out of NoSocket x \<Rightarrow> Inl x | Datagram d \<Rightarrow> Inr (Some (take 65535 d)) | _ \<Rightarrow> Inr None)"
    using e by (cases out) (auto simp: query_blocking_end_def)
  ultimately show ?thesis using e by simp
qed

lemma udp_query_outcome_witness:
  "hd (returned (udp_run [UQuery 0 [7], UPick, UEnd 0 (Datagram [9]), UResume 0] (udp_init default_udp_config None))) =
     (0, Inr (Some [9]))"
proof -
  let ?f = "udp_init default_udp_config None"
  have "\<not> uclosed ?f" "fst (gate_enter (ugate ?f))" "(0 :: nat) \<notin> set (keys (futs ?f))"
    "\<not> list_ex (is_queued \<circ> snd) (futs ?f)" "int (threads ?f) < udp_max_workers (ucfg ?f)"
    by (simp_all add: udp_init_def gate_enter_def gate_init_def threads_def default_udp_config_def)
  from udp_query_outcome [OF udp_ok_init this refl, of "[7]" "Datagram [9]"] show ?thesis by simp
qed

end
