(* ===== verification/Tcp_Forwarder.thy ===== *)
theory Tcp_Forwarder
  imports Admission Stream_Io
begin

text \<open>
  The TCP forwarder of \<^verbatim>\<open>upstream/tcp_forwarder.py\<close>: length-prefixed queries over connections that
  are kept in a pool. A query is a coroutine; the model is a transition system whose steps are the
  segments of \<open>query\<close> between two awaits, the events of the connections (bytes and end of file arrive,
  a connection is lost), cancellations, and \<open>close\<close>. Connections are numbered in the order in which
  they were opened and are never forgotten, so that a leak would show.

  The pool lock is held across awaits: a query that finds an unusable connection in the pool closes it
  before it goes on, and so does one that finds the pool full. The lock is fair, so the model keeps the
  queue of those who hold it (the head) or wait for it. Closing a connection is one step that starts it
  and one that goes on afterwards, whether it ended or its timeout did.
\<close>

section \<open>State\<close>

record tcp_config =
  tcp_host :: string
  tcp_port :: int
  tcp_connect_timeout_s :: time
  tcp_read_timeout_s :: time
  tcp_max_message_size :: int
  tcp_pool_max_conns :: int
  tcp_pool_idle_timeout_s :: time
  tcp_max_inflight :: int

definition default_tcp_config :: tcp_config where
  "default_tcp_config =
     \<lparr>tcp_host = ''1.1.1.1'', tcp_port = 53, tcp_connect_timeout_s = 2, tcp_read_timeout_s = 2,
      tcp_max_message_size = 65535, tcp_pool_max_conns = 4, tcp_pool_idle_timeout_s = 30, tcp_max_inflight = 0\<rparr>"

text \<open>A connection: its reader, the bytes written so far, and whether its transport is closing.\<close>

record conn =
  cin :: reader
  cout :: bytes
  cclosing :: bool

text \<open>\<open>_PooledConnection\<close>: the number of the connection and the time it was last used.\<close>

type_synonym pooled = "nat \<times> time"

text \<open>
  Where a query is suspended: waiting for the lock to take a connection from the pool, holding it while
  an unusable connection closes, opening a connection, in \<^verbatim>\<open>drain()\<close>, reading the length, reading the
  message, waiting for the lock to release the connection, holding it while the connection closes
  because the pool is full, or closing the connection without the lock. In the last cases its result
  and \<open>error_for_metrics\<close> are decided already.
\<close>

datatype phase =
    AcquireWait bytes time
  | AcquireClosing bytes time
  | Connecting bytes
  | Draining nat
  | ReadLength nat
  | ReadMessage nat nat
  | ReleaseWait nat "bytes option result"
  | ReleaseClosing "bytes option result"
  | Ending "bytes option result" bool

text \<open>Who holds the lock or waits for it.\<close>

datatype ticket = ForQuery nat | ForClose

text \<open>
  \<open>closer\<close> are the connections that \<open>close\<close> has taken from the pool and still has to close; \<open>leaked\<close>
  records connections that no one refers to any more although they are open.
\<close>

record tcp_forwarder =
  tcfg :: tcp_config
  tclosed :: bool
  tgate :: gate
  tmetrics :: "metrics option"
  pool :: "pooled list"
  lockq :: "ticket list"
  closer :: "nat list"
  leaked :: "nat set"
  conns :: "conn list"
  phases :: "(nat, phase) dict"
  treturned :: "(nat \<times> bytes option result) list"

definition tcp_init :: "tcp_config \<Rightarrow> metrics option \<Rightarrow> tcp_forwarder" where
  "tcp_init cfg M =
     \<lparr>tcfg = cfg, tclosed = False, tgate = gate_init (tcp_max_inflight cfg), tmetrics = M, pool = [], lockq = [],
      closer = [], leaked = {}, conns = [], phases = [], treturned = []\<rparr>"

abbreviation count :: "string \<Rightarrow> tcp_forwarder \<Rightarrow> tcp_forwarder" where
  "count key f \<equiv> f\<lparr>tmetrics := inc key (tmetrics f)\<rparr>"

abbreviation goto :: "nat \<Rightarrow> phase \<Rightarrow> tcp_forwarder \<Rightarrow> tcp_forwarder" where
  "goto q p f \<equiv> f\<lparr>phases := dict_set q p (phases f)\<rparr>"

section \<open>Leaving and sending\<close>

definition close_writer :: "nat \<Rightarrow> tcp_forwarder \<Rightarrow> tcp_forwarder" where
  "close_writer c f = f\<lparr>conns := (conns f)[c := (conns f ! c)\<lparr>cclosing := True\<rparr>]\<rparr>"

text \<open>The outer \<open>finally\<close> block, after which the result is returned or the exception propagates.\<close>

definition tcp_leave :: "nat \<Rightarrow> bytes option result \<Rightarrow> bool \<Rightarrow> tcp_forwarder \<Rightarrow> tcp_forwarder" where
  "tcp_leave q r error_for_metrics f =
     (let f1 = (if error_for_metrics then count ''upstream_tcp_errors_total'' f else f) in
      f1\<lparr>tgate := gate_leave (tgate f), phases := dict_pop q (phases f), treturned := (q, r) # treturned f\<rparr>)"

text \<open>
  The inner \<open>finally\<close> block of a query that met an error: its connection is closed. Every error that is
  reported also counts for the metrics.
\<close>

definition tcp_fail :: "nat \<Rightarrow> nat \<Rightarrow> tcp_forwarder \<Rightarrow> tcp_forwarder" where
  "tcp_fail q c f = close_writer c (goto q (Ending (Inr None) True) f)"

text \<open>Writing the query; a query too long for its prefix raises OverflowError, which is caught.\<close>

definition tcp_send :: "nat \<Rightarrow> nat \<Rightarrow> bytes \<Rightarrow> tcp_forwarder \<Rightarrow> tcp_forwarder" where
  "tcp_send q c wire f =
     (case frame wire of
        Inl x \<Rightarrow> tcp_fail q c (count ''upstream_tcp_protocol_errors_total'' f)
      | Inr bs \<Rightarrow> goto q (Draining c) (f\<lparr>conns := (conns f)[c := (conns f ! c)\<lparr>cout := cout (conns f ! c) @ bs\<rparr>]\<rparr>))"

section \<open>The pool\<close>

definition unlock :: "tcp_forwarder \<Rightarrow> tcp_forwarder" where
  "unlock f = f\<lparr>lockq := tl (lockq f)\<rparr>"

definition usable :: "tcp_forwarder \<Rightarrow> time \<Rightarrow> pooled \<Rightarrow> bool" where
  "usable f now p =
     (case p of (c, last_used) \<Rightarrow>
        \<not> (cclosing (conns f ! c) \<or> at_eof (cin (conns f ! c))) \<and>
        \<not> tcp_pool_idle_timeout_s (tcfg f) \<le> 0 \<and>
        \<not> now - last_used > tcp_pool_idle_timeout_s (tcfg f))"

text \<open>
  One round of the loop of \<open>_acquire_from_pool\<close>, run by the holder of the lock: with nothing in the pool a
  new connection is opened, a usable connection is taken, an unusable one is closed.
\<close>

definition acquire_step :: "nat \<Rightarrow> bytes \<Rightarrow> time \<Rightarrow> tcp_forwarder \<Rightarrow> tcp_forwarder" where
  "acquire_step q wire now f =
     (if pool f = [] then goto q (Connecting wire) (unlock f)
      else
        (let p = last (pool f); f1 = f\<lparr>pool := butlast (pool f)\<rparr> in
         if usable f1 now p then tcp_send q (fst p) wire (unlock (count ''upstream_tcp_reuses_total'' f1))
         else goto q (AcquireClosing wire now) (close_writer (fst p) f1)))"

definition acquire_from_pool :: "nat \<Rightarrow> bytes \<Rightarrow> time \<Rightarrow> tcp_forwarder \<Rightarrow> tcp_forwarder" where
  "acquire_from_pool q wire now f =
     (if tclosed f \<or> tcp_pool_max_conns (tcfg f) \<le> 0 then goto q (Connecting wire) f
      else if lockq f = [] then acquire_step q wire now (f\<lparr>lockq := [ForQuery q]\<rparr>)
      else goto q (AcquireWait wire now) (f\<lparr>lockq := lockq f @ [ForQuery q]\<rparr>))"

text \<open>
  \<open>_release_to_pool\<close>, which is the inner \<open>finally\<close> block of a query that met no error, and its section
  under the lock. A connection put into the pool ends the query at once.
\<close>

definition release_locked :: "time \<Rightarrow> nat \<Rightarrow> nat \<Rightarrow> bytes option result \<Rightarrow> tcp_forwarder \<Rightarrow> tcp_forwarder" where
  "release_locked now q c r f =
     (if int (length (pool f)) \<ge> tcp_pool_max_conns (tcfg f) then goto q (ReleaseClosing r) (close_writer c f)
      else tcp_leave q r False (unlock (f\<lparr>pool := pool f @ [(c, now)]\<rparr>)))"

definition release_to_pool :: "time \<Rightarrow> nat \<Rightarrow> nat \<Rightarrow> bytes option result \<Rightarrow> tcp_forwarder \<Rightarrow> tcp_forwarder" where
  "release_to_pool now q c r f =
     (if tclosed f \<or> tcp_pool_max_conns (tcfg f) \<le> 0 then goto q (Ending r False) (close_writer c f)
      else if cclosing (conns f ! c) \<or> at_eof (cin (conns f ! c)) then goto q (Ending r False) (close_writer c f)
      else if lockq f = [] then release_locked now q c r (f\<lparr>lockq := [ForQuery q]\<rparr>)
      else goto q (ReleaseWait c r) (f\<lparr>lockq := lockq f @ [ForQuery q]\<rparr>))"

text \<open>The query at the head of the queue gets the lock, or goes on after a connection has closed.\<close>

definition lock_proceed :: "nat \<Rightarrow> time \<Rightarrow> tcp_forwarder \<Rightarrow> tcp_forwarder" where
  "lock_proceed q now f =
     (if lockq f = [] \<or> hd (lockq f) \<noteq> ForQuery q then f
      else
        (case dict_get (phases f) q of
           Some (AcquireWait wire t) \<Rightarrow> acquire_step q wire t f
         | Some (AcquireClosing wire t) \<Rightarrow> acquire_step q wire t f
         | Some (ReleaseWait c r) \<Rightarrow> release_locked now q c r f
         | Some (ReleaseClosing r) \<Rightarrow> tcp_leave q r False (unlock f)
         | _ \<Rightarrow> f))"

text \<open>
  \<open>close\<close>: it takes the whole pool under the lock and then closes one connection after the other. The
  program calls it once; a second call would queue for the lock again only to find the pool empty, and
  the model lets it do nothing.
\<close>

definition close_locked :: "tcp_forwarder \<Rightarrow> tcp_forwarder" where
  "close_locked f = (unlock f)\<lparr>closer := map fst (pool f), pool := []\<rparr>"

definition tcp_close :: "tcp_forwarder \<Rightarrow> tcp_forwarder" where
  "tcp_close f =
     (if tclosed f then f
      else if lockq f = [] then close_locked (f\<lparr>tclosed := True, lockq := [ForClose]\<rparr>)
      else f\<lparr>tclosed := True, lockq := lockq f @ [ForClose]\<rparr>)"

definition close_proceed :: "tcp_forwarder \<Rightarrow> tcp_forwarder" where
  "close_proceed f = (if lockq f \<noteq> [] \<and> hd (lockq f) = ForClose then close_locked f else f)"

definition close_next :: "tcp_forwarder \<Rightarrow> tcp_forwarder" where
  "close_next f = (case closer f of [] \<Rightarrow> f | c # cs \<Rightarrow> (close_writer c f)\<lparr>closer := cs\<rparr>)"

section \<open>Query\<close>

definition tcp_query :: "nat \<Rightarrow> bytes \<Rightarrow> time \<Rightarrow> tcp_forwarder \<Rightarrow> tcp_forwarder" where
  "tcp_query q wire now f =
     (if tclosed f then f\<lparr>treturned := (q, Inr None) # treturned f\<rparr>
      else
        (case gate_enter (tgate f) of
           (False, g) \<Rightarrow> f\<lparr>tmetrics := count_refused (tmetrics f), treturned := (q, Inr None) # treturned f\<rparr>
         | (True, g) \<Rightarrow>
             acquire_from_pool q wire now (count ''upstream_requests_total'' (f\<lparr>tgate := g\<rparr>))))"

text \<open>How opening a connection ends.\<close>

datatype connect_outcome = Connected | ConnectTimeout | ConnectError exn

definition tcp_connect :: "nat \<Rightarrow> connect_outcome \<Rightarrow> tcp_forwarder \<Rightarrow> tcp_forwarder" where
  "tcp_connect q out f =
     (case dict_get (phases f) q of
        Some (Connecting wire) \<Rightarrow>
          (case out of
             Connected \<Rightarrow>
               tcp_send q (length (conns f)) wire
                 (f\<lparr>conns := conns f @ [\<lparr>cin = new_reader, cout = [], cclosing = False\<rparr>]\<rparr>)
           | ConnectTimeout \<Rightarrow> tcp_leave q (Inr None) True (count ''upstream_tcp_timeouts_total'' f)
           | ConnectError x \<Rightarrow> tcp_leave q (Inr None) True (count ''upstream_tcp_connect_errors_total'' f))
      | _ \<Rightarrow> f)"

definition tcp_drained :: "nat \<Rightarrow> exn option \<Rightarrow> tcp_forwarder \<Rightarrow> tcp_forwarder" where
  "tcp_drained q failure f =
     (case dict_get (phases f) q of
        Some (Draining c) \<Rightarrow>
          (case failure of
             None \<Rightarrow> goto q (ReadLength c) f
           | Some x \<Rightarrow> tcp_fail q c (count ''upstream_tcp_protocol_errors_total'' f))
      | _ \<Rightarrow> f)"

abbreviation set_reader :: "nat \<Rightarrow> reader \<Rightarrow> tcp_forwarder \<Rightarrow> tcp_forwarder" where
  "set_reader c r f \<equiv> f\<lparr>conns := (conns f)[c := (conns f ! c)\<lparr>cin := r\<rparr>]\<rparr>"

definition oversize :: "tcp_config \<Rightarrow> nat \<Rightarrow> bool" where
  "oversize cfg n \<longleftrightarrow> tcp_max_message_size cfg > 0 \<and> int n > tcp_max_message_size cfg"

definition tcp_oversize :: "nat \<Rightarrow> nat \<Rightarrow> tcp_forwarder \<Rightarrow> tcp_forwarder" where
  "tcp_oversize q c f =
     tcp_fail q c (count ''upstream_tcp_protocol_errors_total'' (count ''dropped_oversize_total'' (count ''dropped_total'' f)))"

text \<open>An exception of the stream itself; a timeout of the transport is caught with the read timeout.\<close>

definition tcp_broken :: "nat \<Rightarrow> nat \<Rightarrow> exn \<Rightarrow> tcp_forwarder \<Rightarrow> tcp_forwarder" where
  "tcp_broken q c x f =
     tcp_fail q c (if x = TimeoutError then count ''upstream_tcp_timeouts_total'' f
                   else count ''upstream_tcp_protocol_errors_total'' f)"

text \<open>A query that reads wakes up with what its connection has received.\<close>

definition tcp_wake :: "nat \<Rightarrow> time \<Rightarrow> tcp_forwarder \<Rightarrow> tcp_forwarder" where
  "tcp_wake q now f =
     (case dict_get (phases f) q of
        Some (ReadLength c) \<Rightarrow>
          (case readexactly 2 (cin (conns f ! c)) of
             Pending \<Rightarrow> f
           | Got bs r \<Rightarrow>
               (let f1 = set_reader c r f; msg_len = from_bytes bs in
                if oversize (tcfg f) msg_len then tcp_oversize q c f1 else goto q (ReadMessage c msg_len) f1)
           | Incomplete r \<Rightarrow> tcp_fail q c (count ''upstream_tcp_protocol_errors_total'' (set_reader c r f))
           | Broken x \<Rightarrow> tcp_broken q c x f)
      | Some (ReadMessage c msg_len) \<Rightarrow>
          (case readexactly msg_len (cin (conns f ! c)) of
             Pending \<Rightarrow> f
           | Got data r \<Rightarrow>
               (let f1 = set_reader c r f in
                if oversize (tcfg f) (length data) then tcp_oversize q c f1
                else release_to_pool now q c (Inr (Some data)) f1)
           | Incomplete r \<Rightarrow> tcp_fail q c (count ''upstream_tcp_protocol_errors_total'' (set_reader c r f))
           | Broken x \<Rightarrow> tcp_broken q c x f)
      | _ \<Rightarrow> f)"

text \<open>The read timeout, which bounds each of the two reads.\<close>

definition tcp_timeout :: "nat \<Rightarrow> tcp_forwarder \<Rightarrow> tcp_forwarder" where
  "tcp_timeout q f =
     (case dict_get (phases f) q of
        Some (ReadLength c) \<Rightarrow> tcp_fail q c (count ''upstream_tcp_timeouts_total'' f)
      | Some (ReadMessage c n) \<Rightarrow> tcp_fail q c (count ''upstream_tcp_timeouts_total'' f)
      | _ \<Rightarrow> f)"

text \<open>
  Cancellation. CancelledError is not caught by \<^verbatim>\<open>except Exception\<close>, so \<open>errored\<close> keeps its value:
  false from the moment a connection is there. A query that waits for the lock to release its connection
  gives up the wait, and with it the connection.
\<close>

definition give_up :: "nat \<Rightarrow> tcp_forwarder \<Rightarrow> tcp_forwarder" where
  "give_up q f = f\<lparr>lockq := remove1 (ForQuery q) (lockq f)\<rparr>"

definition tcp_cancel :: "nat \<Rightarrow> time \<Rightarrow> tcp_forwarder \<Rightarrow> tcp_forwarder" where
  "tcp_cancel q now f =
     (case dict_get (phases f) q of
        None \<Rightarrow> f
      | Some (AcquireWait wire t) \<Rightarrow> tcp_leave q (Inl CancelledError) False (give_up q f)
      | Some (AcquireClosing wire t) \<Rightarrow> tcp_leave q (Inl CancelledError) False (give_up q f)
      | Some (Connecting wire) \<Rightarrow> tcp_leave q (Inl CancelledError) False f
      | Some (Draining c) \<Rightarrow> release_to_pool now q c (Inl CancelledError) f
      | Some (ReadLength c) \<Rightarrow> release_to_pool now q c (Inl CancelledError) f
      | Some (ReadMessage c n) \<Rightarrow> release_to_pool now q c (Inl CancelledError) f
      | Some (ReleaseWait c r) \<Rightarrow> tcp_leave q (Inl CancelledError) False ((give_up q f)\<lparr>leaked := insert c (leaked f)\<rparr>)
      | Some (ReleaseClosing r) \<Rightarrow> tcp_leave q (Inl CancelledError) False (give_up q f)
      | Some (Ending r e) \<Rightarrow> tcp_leave q (Inl CancelledError) e f)"

definition tcp_finish :: "nat \<Rightarrow> tcp_forwarder \<Rightarrow> tcp_forwarder" where
  "tcp_finish q f =
     (case dict_get (phases f) q of
        Some (Ending r e) \<Rightarrow> tcp_leave q r e f
      | _ \<Rightarrow> f)"

section \<open>Transition system\<close>

datatype tcp_event =
    TQuery nat bytes time
  | TConnect nat connect_outcome
  | TDrained nat "exn option"
  | TWake nat time
  | TTimeout nat
  | TCancel nat time
  | TLock nat time
  | TFinish nat
  | TDeliver nat bytes
  | TEof nat
  | TLost nat "exn option"
  | TClose
  | TCloseLock
  | TCloseNext

definition conn_update :: "nat \<Rightarrow> (conn \<Rightarrow> conn) \<Rightarrow> tcp_forwarder \<Rightarrow> tcp_forwarder" where
  "conn_update c g f = (if c < length (conns f) then f\<lparr>conns := (conns f)[c := g (conns f ! c)]\<rparr> else f)"

definition reader_lost :: "exn option \<Rightarrow> reader \<Rightarrow> reader" where
  "reader_lost x r = (case x of None \<Rightarrow> r\<lparr>reof := True\<rparr> | Some e \<Rightarrow> r\<lparr>rexc := Some e\<rparr>)"

fun tcp_step :: "tcp_event \<Rightarrow> tcp_forwarder \<Rightarrow> tcp_forwarder" where
  "tcp_step (TQuery q wire now) f = (if q \<in> set (keys (phases f)) then f else tcp_query q wire now f)"
| "tcp_step (TConnect q out) f = tcp_connect q out f"
| "tcp_step (TDrained q failure) f = tcp_drained q failure f"
| "tcp_step (TWake q now) f = tcp_wake q now f"
| "tcp_step (TTimeout q) f = tcp_timeout q f"
| "tcp_step (TCancel q now) f = tcp_cancel q now f"
| "tcp_step (TLock q now) f = lock_proceed q now f"
| "tcp_step (TFinish q) f = tcp_finish q f"
| "tcp_step (TDeliver c bs) f = conn_update c (\<lambda>k. k\<lparr>cin := feed bs (cin k)\<rparr>) f"
| "tcp_step (TEof c) f = conn_update c (\<lambda>k. k\<lparr>cin := (cin k)\<lparr>reof := True\<rparr>\<rparr>) f"
| "tcp_step (TLost c x) f = conn_update c (\<lambda>k. k\<lparr>cin := reader_lost x (cin k), cclosing := True\<rparr>) f"
| "tcp_step TClose f = tcp_close f"
| "tcp_step TCloseLock f = close_proceed f"
| "tcp_step TCloseNext f = close_next f"

definition tcp_run :: "tcp_event list \<Rightarrow> tcp_forwarder \<Rightarrow> tcp_forwarder" where
  "tcp_run evs f = fold tcp_step evs f"

section \<open>Ownership of connections\<close>

fun phase_conn :: "phase \<Rightarrow> nat option" where
  "phase_conn (Draining c) = Some c"
| "phase_conn (ReadLength c) = Some c"
| "phase_conn (ReadMessage c n) = Some c"
| "phase_conn (ReleaseWait c r) = Some c"
| "phase_conn _ = None"

definition uses :: "(nat, phase) dict \<Rightarrow> nat \<rightharpoonup> nat" where
  "uses ps q = Option.bind (dict_get ps q) phase_conn"

abbreviation idle :: "tcp_forwarder \<Rightarrow> nat set" where
  "idle f \<equiv> fst ` set (pool f)"

text \<open>
  Every connection that is not closing has exactly one owner: the pool (\<open>P\<close>), one query (\<open>U\<close>), or
  the step in progress, which holds those of \<open>H\<close>. \<open>C\<close> are the connections that are closing.
\<close>

definition ownership :: "nat set \<Rightarrow> nat set \<Rightarrow> (nat \<rightharpoonup> nat) \<Rightarrow> nat set \<Rightarrow> nat \<Rightarrow> bool" where
  "ownership H P U C n \<longleftrightarrow>
     H \<inter> P = {} \<and> ran U \<inter> (H \<union> P) = {} \<and> inj_on U (dom U) \<and> H \<union> P \<union> ran U \<subseteq> {..<n} \<and>
     {..<n} \<subseteq> C \<union> H \<union> P \<union> ran U"

lemma ownership_drop:
  assumes "ownership H P U C n"
  shows "ownership (H \<union> set_option (U q)) P (U(q := None)) C n"
proof (cases "U q")
  case None
  then have "U(q := None) = U" by auto
  with assms None show ?thesis by simp
next
  case (Some c)
  have inj: "inj_on U (dom U)" using assms by (simp add: ownership_def)
  have "ran (U(q := None)) = ran U - {c}"
  proof
    show "ran (U(q := None)) \<subseteq> ran U - {c}"
      using inj Some by (auto simp: ran_def inj_on_def dom_def split: if_splits)
    show "ran U - {c} \<subseteq> ran (U(q := None))" using Some by (auto simp: ran_def) (metis option.inject)
  qed
  moreover have "inj_on (U(q := None)) (dom (U(q := None)))"
    using inj by (auto simp: inj_on_def dom_def)
  moreover have "c \<in> ran U" using Some by (auto simp: ran_def)
  ultimately show ?thesis using assms Some by (auto simp: ownership_def)
qed

lemma ownership_take:
  assumes "ownership {c} P U C n" and "U q = None"
  shows "ownership {} P (U(q \<mapsto> c)) C n"
proof -
  have "ran (U(q \<mapsto> c)) = insert c (ran U)" using assms(2) by simp
  moreover have "inj_on (U(q \<mapsto> c)) (dom (U(q \<mapsto> c)))"
    using assms by (auto simp: ownership_def inj_on_def dom_def ran_def)
  ultimately show ?thesis using assms(1) by (auto simp: ownership_def)
qed

lemma ownership_close: "ownership {c} P U C n \<Longrightarrow> ownership {} P U (insert c C) n"
  by (auto simp: ownership_def)

lemma ownership_closing: "ownership H P U C n \<Longrightarrow> C \<subseteq> C' \<Longrightarrow> ownership H P U C' n"
  by (auto simp: ownership_def)

lemma ownership_push: "ownership {c} P U C n \<Longrightarrow> ownership {} (insert c P) U C n"
  by (auto simp: ownership_def)

lemma ownership_pop: "ownership {} (insert c P) U C n \<Longrightarrow> c \<notin> P \<Longrightarrow> ownership {c} P U C n"
  by (auto simp: ownership_def)

lemma ownership_open: "ownership {} P U C n \<Longrightarrow> ownership {n} P U C (Suc n)"
  by (auto simp: ownership_def lessThan_Suc)

definition closing_set :: "conn list \<Rightarrow> nat set" where
  "closing_set ks = {c. c < length ks \<and> cclosing (ks ! c)}"

lemma closing_set_update:
  assumes "\<And>k. cclosing k \<Longrightarrow> cclosing (g k)"
  shows "closing_set ks \<subseteq> closing_set (ks[c := g (ks ! c)])"
  using assms by (cases "c < length ks") (auto simp: closing_set_def nth_list_update)

text \<open>Connections that no query uses: in the pool, waiting to be closed by \<open>close\<close>, or given up.\<close>

definition rest :: "tcp_forwarder \<Rightarrow> nat set" where
  "rest f = idle f \<union> set (closer f) \<union> leaked f"

definition pool_ok :: "tcp_forwarder \<Rightarrow> bool" where
  "pool_ok f \<longleftrightarrow> distinct (map fst (pool f)) \<and> int (length (pool f)) \<le> max 0 (tcp_pool_max_conns (tcfg f)) \<and>
     idle f \<inter> (set (closer f) \<union> leaked f) = {} \<and> set (closer f) \<inter> leaked f = {}"

definition own :: "nat set \<Rightarrow> tcp_forwarder \<Rightarrow> bool" where
  "own H f \<longleftrightarrow> pool_ok f \<and> ownership H (rest f) (uses (phases f)) (closing_set (conns f)) (length (conns f))"

lemma uses_set [simp]: "uses (dict_set q p ps) = (uses ps)(q := phase_conn p)"
  by (auto simp: uses_def)

lemma uses_pop [simp]: "uses (dict_pop q ps) = (uses ps)(q := None)"
  by (auto simp: uses_def)

lemma uses_SomeD: "dict_get ps q = Some p \<Longrightarrow> uses ps q = phase_conn p \<and> q \<in> set (keys ps)"
  using dict_get_mem_keys [of ps q] by (simp add: uses_def)

lemma own_irrelevant [simp]:
  "own H (f\<lparr>tmetrics := M\<rparr>) \<longleftrightarrow> own H f" "own H (f\<lparr>tgate := g\<rparr>) \<longleftrightarrow> own H f"
  "own H (f\<lparr>treturned := l\<rparr>) \<longleftrightarrow> own H f" "own H (f\<lparr>lockq := L\<rparr>) \<longleftrightarrow> own H f"
  "own H (f\<lparr>tclosed := b\<rparr>) \<longleftrightarrow> own H f"
  by (simp_all add: own_def pool_ok_def rest_def)

lemma own_unlock [simp]: "own H (unlock f) \<longleftrightarrow> own H f" "own H (give_up q f) \<longleftrightarrow> own H f"
  by (simp_all add: unlock_def give_up_def)

lemma own_drop: "own {} f \<Longrightarrow> phase_conn p = None \<Longrightarrow> own (set_option (uses (phases f) q)) (goto q p f)"
  using ownership_drop [of "{}" "rest f" "uses (phases f)"] by (simp add: own_def pool_ok_def rest_def)

lemma own_pop: "own {} f \<Longrightarrow> own (set_option (uses (phases f) q)) (f\<lparr>phases := dict_pop q (phases f)\<rparr>)"
  using ownership_drop [of "{}" "rest f" "uses (phases f)"] by (simp add: own_def pool_ok_def rest_def)

lemma own_keep:
  "own H f \<Longrightarrow> uses (phases f) q = None \<Longrightarrow> phase_conn p = None \<Longrightarrow> ps = phases f \<Longrightarrow> own H (f\<lparr>phases := dict_set q p ps\<rparr>)"
  using ownership_drop [of H "rest f" "uses (phases f)" _ _ q] by (simp add: own_def pool_ok_def rest_def)

lemma own_take: "own {c} f \<Longrightarrow> uses (phases f) q = None \<Longrightarrow> phase_conn p = Some c \<Longrightarrow> own {} (goto q p f)"
  using ownership_take [of c "rest f" "uses (phases f)"] by (simp add: own_def pool_ok_def rest_def)

lemma own_same: "own H f \<Longrightarrow> uses (phases f) q = phase_conn p \<Longrightarrow> own H (goto q p f)"
  using fun_upd_idem_iff [of "uses (phases f)" q "phase_conn p"] by (simp add: own_def pool_ok_def rest_def)

lemma closing_set_close:
  "c < length ks \<Longrightarrow> closing_set (ks[c := (ks ! c)\<lparr>cclosing := True\<rparr>]) = insert c (closing_set ks)"
  by (auto simp: closing_set_def nth_list_update)

lemma own_close_writer: "own {c} f \<Longrightarrow> own {} (close_writer c f)"
proof -
  assume o: "own {c} f"
  then have "c < length (conns f)" by (simp add: own_def ownership_def)
  with o ownership_close [of c] show ?thesis
    by (simp add: own_def pool_ok_def rest_def close_writer_def closing_set_close)
qed

lemma own_conn_update:
  assumes "own H f" and "\<And>k. cclosing k \<Longrightarrow> cclosing (g k)"
  shows "own H (f\<lparr>conns := (conns f)[c := g (conns f ! c)]\<rparr>)"
  using assms ownership_closing [OF _ closing_set_update [of g "conns f" c]] by (auto simp: own_def pool_ok_def rest_def)

lemma own_settle: "own {} f \<Longrightarrow> uses (phases f) q = Some c \<Longrightarrow> phase_conn p = None \<Longrightarrow> own {c} (goto q p f)"
  using own_drop [of f p q] by simp

lemma own_shut:
  assumes "own {} f" and "uses (phases f) q = Some c" and "phase_conn p = None"
  shows "own {} (goto q p (close_writer c f))"
  using own_close_writer [OF own_settle [OF assms]] by (simp add: close_writer_def own_def pool_ok_def rest_def)

lemma own_fail: "own {} f \<Longrightarrow> uses (phases f) q = Some c \<Longrightarrow> own {} (tcp_fail q c f)"
  unfolding tcp_fail_def by (intro own_close_writer own_settle) simp_all

lemma own_leave: "own {} f \<Longrightarrow> uses (phases f) q = None \<Longrightarrow> own {} (tcp_leave q r e f)"
  using own_pop [of f q] by (simp add: tcp_leave_def Let_def own_def pool_ok_def rest_def)

lemma own_send:
  assumes "own {c} f" and "uses (phases f) q = None"
  shows "own {} (tcp_send q c wire f)"
proof (cases "frame wire")
  case (Inl x)
  have "own {c} (goto q (Ending (Inr None) True) (count ''upstream_tcp_protocol_errors_total'' f))"
    by (rule own_keep) (simp_all add: assms)
  from own_close_writer [OF this] Inl show ?thesis by (simp add: tcp_send_def tcp_fail_def)
next
  case (Inr bs)
  have "own {c} (f\<lparr>conns := (conns f)[c := (conns f ! c)\<lparr>cout := cout (conns f ! c) @ bs\<rparr>]\<rparr>)"
    using own_conn_update [OF assms(1), of "\<lambda>k. k\<lparr>cout := cout k @ bs\<rparr>"] by simp
  from own_take [OF this, of q "Draining c"] assms(2) Inr show ?thesis by (simp add: tcp_send_def)
qed

text \<open>Taking the newest connection from the pool, and putting one there.\<close>

lemma own_pool_pop:
  assumes "own {} f" and "pool f \<noteq> []"
  shows "own {fst (last (pool f))} (f\<lparr>pool := butlast (pool f)\<rparr>)"
proof -
  obtain ps p where p: "pool f = ps @ [p]" using assms(2) by (metis append_butlast_last_id)
  let ?P = "fst ` set ps \<union> set (closer f) \<union> leaked f"
  have "rest f = insert (fst p) ?P" by (auto simp: rest_def p)
  moreover have "fst p \<notin> ?P" using assms(1) by (auto simp: own_def pool_ok_def p)
  ultimately show ?thesis
    using assms(1) ownership_pop [of "fst p" ?P] by (auto simp: own_def pool_ok_def rest_def p)
qed

lemma own_acquire_step:
  assumes "own {} f" and "uses (phases f) q = None"
  shows "own {} (acquire_step q wire now f)"
proof (cases "pool f = []")
  case True
  with assms show ?thesis by (auto simp: acquire_step_def unlock_def intro!: own_keep)
next
  case False
  let ?f1 = "f\<lparr>pool := butlast (pool f)\<rparr>"
  have h: "own {fst (last (pool f))} ?f1" using own_pool_pop [OF assms(1) False] .
  have "own {} (tcp_send q (fst (last (pool f))) wire (unlock (count ''upstream_tcp_reuses_total'' ?f1)))"
    using h assms(2) by (intro own_send) (simp_all add: unlock_def)
  moreover have "own {} (goto q (AcquireClosing wire now) (close_writer (fst (last (pool f))) ?f1))"
    using own_close_writer [OF h] assms(2) by (intro own_keep) (simp_all add: close_writer_def)
  ultimately show ?thesis using False by (simp add: acquire_step_def Let_def)
qed

lemma own_acquire: "own {} f \<Longrightarrow> uses (phases f) q = None \<Longrightarrow> own {} (acquire_from_pool q wire now f)"
  by (auto simp: acquire_from_pool_def intro!: own_keep own_acquire_step)

lemma own_release_locked:
  assumes "own {} f" and u: "uses (phases f) q = Some c"
  shows "own {} (release_locked now q c r f)"
proof (cases "int (length (pool f)) \<ge> tcp_pool_max_conns (tcfg f)")
  case True
  with own_shut [OF assms] show ?thesis by (simp add: release_locked_def)
next
  case False
  have o: "own {c} (f\<lparr>phases := dict_pop q (phases f)\<rparr>)" using own_pop [OF assms(1), of q] u by simp
  then have "c \<notin> rest f" by (auto simp: own_def ownership_def rest_def)
  with False o show ?thesis
    using ownership_push [of c "rest f" "(uses (phases f))(q := None)"]
    by (auto simp: release_locked_def tcp_leave_def unlock_def own_def pool_ok_def rest_def)
qed

lemma own_release:
  assumes "own {} f" and "uses (phases f) q = Some c"
  shows "own {} (release_to_pool now q c r f)"
  using assms own_shut [OF assms] own_same [of "{}" "f\<lparr>lockq := lockq f @ [ForQuery q]\<rparr>" q "ReleaseWait c r"]
  by (auto simp: release_to_pool_def intro!: own_release_locked)

lemma own_abandon:
  assumes "own {} f" and "uses (phases f) q = Some c"
  shows "own {} (tcp_leave q r e ((give_up q f)\<lparr>leaked := insert c (leaked f)\<rparr>))"
proof -
  have o: "own {c} (f\<lparr>phases := dict_pop q (phases f)\<rparr>)" using own_pop [OF assms(1), of q] assms(2) by simp
  then have "c \<notin> rest f" by (auto simp: own_def ownership_def rest_def)
  with o show ?thesis
    using ownership_push [of c "rest f" "(uses (phases f))(q := None)"]
    by (auto simp: tcp_leave_def give_up_def own_def pool_ok_def rest_def)
qed

lemma own_close_locked: "own {} f \<Longrightarrow> closer f = [] \<Longrightarrow> own {} (close_locked f)"
  by (auto simp: close_locked_def unlock_def own_def pool_ok_def rest_def image_def)

lemma own_close_next:
  assumes "own {} f" shows "own {} (close_next f)"
proof (cases "closer f")
  case (Cons c cs)
  from assms have "c < length (conns f)" by (auto simp: own_def ownership_def rest_def Cons)
  with assms show ?thesis
    by (auto simp: close_next_def Cons close_writer_def own_def pool_ok_def rest_def ownership_def closing_set_close)
qed (use assms in \<open>simp add: close_next_def\<close>)

section \<open>The lock of the pool\<close>

fun locking :: "phase \<Rightarrow> bool" where
  "locking (AcquireWait wire t) \<longleftrightarrow> True"
| "locking (AcquireClosing wire t) \<longleftrightarrow> True"
| "locking (ReleaseWait c r) \<longleftrightarrow> True"
| "locking (ReleaseClosing r) \<longleftrightarrow> True"
| "locking _ \<longleftrightarrow> False"

fun holding :: "phase \<Rightarrow> bool" where
  "holding (AcquireClosing wire t) \<longleftrightarrow> True"
| "holding (ReleaseClosing r) \<longleftrightarrow> True"
| "holding _ \<longleftrightarrow> False"

fun releasing :: "phase \<Rightarrow> bool" where
  "releasing (ReleaseWait c r) \<longleftrightarrow> True"
| "releasing _ \<longleftrightarrow> False"

text \<open>The tickets behind that of \<open>close\<close>.\<close>

fun behind :: "ticket list \<Rightarrow> ticket list" where
  "behind [] = []"
| "behind (t # L) = (if t = ForClose then L else behind L)"

lemma behind_subset: "set (behind L) \<subseteq> set L"
  by (induction L) auto

lemma behind_absent [simp]: "ForClose \<notin> set L \<Longrightarrow> behind L = []"
  by (induction L) auto

lemma behind_snoc: "behind (L @ [t]) = (if ForClose \<in> set L then behind L @ [t] else [])"
  by (induction L) auto

lemma behind_remove1: "distinct L \<Longrightarrow> t \<noteq> ForClose \<Longrightarrow> set (behind (remove1 t L)) \<subseteq> set (behind L)"
  using behind_subset by (induction L) (auto simp: notin_set_remove1)

text \<open>
  The discipline of the lock: \<open>W\<close> are the queries that hold it or wait for it, \<open>H\<close> those that await
  something while they hold it, \<open>R\<close> those that wait to put a connection into the pool. Once \<open>close\<close> has
  had the lock (\<open>cl\<close> and no ticket of it any more), the pool is empty (\<open>e\<close>) and no one is left who could
  fill it; until then it has nothing to close (\<open>n\<close>).
\<close>

definition lock_inv :: "nat set \<Rightarrow> nat set \<Rightarrow> nat set \<Rightarrow> ticket list \<Rightarrow> bool \<Rightarrow> bool \<Rightarrow> bool \<Rightarrow> bool" where
  "lock_inv W H R L cl e n \<longleftrightarrow>
     distinct L \<and> (\<forall>q. ForQuery q \<in> set L \<longleftrightarrow> q \<in> W) \<and> H \<subseteq> W \<and> R \<subseteq> W \<and>
     (\<forall>q \<in> H. hd L = ForQuery q) \<and> (ForClose \<in> set L \<longrightarrow> cl) \<and>
     (\<forall>q \<in> R. ForQuery q \<notin> set (behind L)) \<and>
     (if cl \<and> ForClose \<notin> set L then e \<and> R = {} else n)"

lemma lock_inv_enqueue:
  assumes "lock_inv W H R L cl e n" and "q \<notin> W" and "R' = R \<or> R' = insert q R \<and> \<not> cl"
  shows "lock_inv (insert q W) H R' (L @ [ForQuery q]) cl e n"
proof -
  have "hd (L @ [ForQuery q]) = ForQuery p" if "p \<in> H" for p
    using that assms(1) by (cases "L = []") (auto simp: lock_inv_def)
  with assms show ?thesis
    by (auto simp: lock_inv_def behind_snoc split: if_splits)
qed

lemma lock_inv_leave:
  assumes "lock_inv W H R L cl e n" and "cl \<longrightarrow> ForClose \<notin> set L \<longrightarrow> e \<longrightarrow> e'"
  shows "lock_inv (W - {q}) (H - {q}) (R - {q}) (remove1 (ForQuery q) L) cl e' n"
proof -
  have d: "distinct L" using assms(1) by (simp add: lock_inv_def)
  have "hd (remove1 (ForQuery q) L) = ForQuery p" if "p \<in> H - {q}" for p
  proof -
    have "hd L = ForQuery p" "ForQuery p \<in> set L" using assms(1) that by (auto simp: lock_inv_def)
    then obtain L' where "L = ForQuery p # L'" by (cases L) auto
    with that show ?thesis by auto
  qed
  moreover have "ForQuery p \<notin> set (behind (remove1 (ForQuery q) L))" if "p \<in> R" for p
    using that assms(1) behind_remove1 [OF d, of "ForQuery q"] by (auto simp: lock_inv_def)
  ultimately show ?thesis using assms d by (auto simp: lock_inv_def)
qed

lemma lock_inv_close: "lock_inv W H R L False e n \<Longrightarrow> lock_inv W H R (L @ [ForClose]) True e n"
  by (cases "L = []") (auto simp: lock_inv_def behind_snoc)

lemma lock_inv_closed:
  assumes "lock_inv W H R (ForClose # L) cl e n" shows "lock_inv W H R L cl True n'"
proof -
  have "R = {}" using assms by (auto simp: lock_inv_def)
  moreover have "H = {}" using assms by (auto simp: lock_inv_def)
  ultimately show ?thesis using assms by (auto simp: lock_inv_def)
qed

definition queries :: "(phase \<Rightarrow> bool) \<Rightarrow> (nat, phase) dict \<Rightarrow> nat set" where
  "queries P ps = {q. \<exists>p. dict_get ps q = Some p \<and> P p}"

lemma queries_set [simp]: "queries P (dict_set q p ps) = (if P p then insert q (queries P ps) else queries P ps - {q})"
  by (auto simp: queries_def)

lemma queries_pop [simp]: "queries P (dict_pop q ps) = queries P ps - {q}"
  by (auto simp: queries_def)

lemma queries_iff: "dict_get ps q = Some p \<Longrightarrow> q \<in> queries P ps \<longleftrightarrow> P p"
  by (simp add: queries_def)

lemma queries_new: "q \<notin> set (keys ps) \<Longrightarrow> q \<notin> queries P ps"
  by (auto simp: queries_def dest: dict_get_mem_keys)

definition lock_ok :: "tcp_forwarder \<Rightarrow> bool" where
  "lock_ok f \<longleftrightarrow> lock_inv (queries locking (phases f)) (queries holding (phases f)) (queries releasing (phases f))
     (lockq f) (tclosed f) (pool f = []) (closer f = [])"

lemma lock_ok_irrelevant [simp]:
  "lock_ok (f\<lparr>tmetrics := M\<rparr>) \<longleftrightarrow> lock_ok f" "lock_ok (f\<lparr>tgate := g\<rparr>) \<longleftrightarrow> lock_ok f"
  "lock_ok (f\<lparr>treturned := l\<rparr>) \<longleftrightarrow> lock_ok f" "lock_ok (f\<lparr>conns := k\<rparr>) \<longleftrightarrow> lock_ok f"
  "lock_ok (f\<lparr>leaked := x\<rparr>) \<longleftrightarrow> lock_ok f"
  by (simp_all add: lock_ok_def)

lemma queries_locking: "q \<notin> queries locking ps \<Longrightarrow> q \<notin> queries holding ps \<and> q \<notin> queries releasing ps"
proof -
  have "holding p \<Longrightarrow> locking p" "releasing p \<Longrightarrow> locking p" for p by (cases p; simp)+
  then show "q \<notin> queries locking ps \<Longrightarrow> ?thesis" by (auto simp: queries_def)
qed

lemma lock_goto:
  assumes "lock_ok f" and "q \<notin> queries locking (phases f)" and "\<not> locking p"
  shows "lock_ok (goto q p f)"
proof -
  have "\<not> holding p \<and> \<not> releasing p" using assms(3) by (cases p) simp_all
  with assms queries_locking [OF assms(2)] show ?thesis by (simp add: lock_ok_def)
qed

lemma lock_leave:
  assumes "lock_ok f" shows "lock_ok (tcp_leave q r e (give_up q f))"
  using lock_inv_leave [OF assms [unfolded lock_ok_def]] by (simp add: lock_ok_def tcp_leave_def give_up_def)

lemma give_up_absent: "lock_ok f \<Longrightarrow> q \<notin> queries locking (phases f) \<Longrightarrow> give_up q f = f"
  by (auto simp: lock_ok_def lock_inv_def give_up_def remove1_idem)

text \<open>A query that has just got the lock, whatever its phase says.\<close>

definition held :: "nat \<Rightarrow> tcp_forwarder \<Rightarrow> bool" where
  "held q f \<longleftrightarrow> lockq f \<noteq> [] \<and> hd (lockq f) = ForQuery q \<and>
     lock_inv (insert q (queries locking (phases f))) (queries holding (phases f) - {q}) (queries releasing (phases f) - {q})
       (lockq f) (tclosed f) (pool f = []) (closer f = [])"

lemma held_first:
  "lock_ok f \<Longrightarrow> lockq f = [] \<Longrightarrow> q \<notin> queries locking (phases f) \<Longrightarrow> held q (f\<lparr>lockq := [ForQuery q]\<rparr>)"
  using lock_inv_enqueue [of _ _ _ "[]"] by (auto simp: lock_ok_def held_def lock_inv_def)

lemma held_head: "lock_ok f \<Longrightarrow> lockq f \<noteq> [] \<Longrightarrow> hd (lockq f) = ForQuery q \<Longrightarrow> held q f"
proof -
  assume f: "lock_ok f" "lockq f \<noteq> []" "hd (lockq f) = ForQuery q"
  then have "ForQuery q \<in> set (lockq f)" using hd_in_set by metis
  with f(1) have "insert q (queries locking (phases f)) = queries locking (phases f)"
    by (auto simp: lock_ok_def lock_inv_def)
  with f show ?thesis by (auto simp: lock_ok_def held_def lock_inv_def)
qed

lemma held_unlock:
  assumes "held q f" and "phases f' = dict_set q p (phases f) \<or> phases f' = dict_pop q (phases f)" and "\<not> locking p"
    and "lockq f' = tl (lockq f)" and "tclosed f' = tclosed f" and "closer f' = closer f"
    and "pool f' = butlast (pool f) \<or> pool f' = pool f \<or> (tclosed f \<longrightarrow> ForClose \<in> set (lockq f))"
  shows "lock_ok f'"
proof -
  have "\<not> holding p \<and> \<not> releasing p" using assms(3) by (cases p) simp_all
  then have s: "queries locking (phases f') = insert q (queries locking (phases f)) - {q}"
    "queries holding (phases f') = queries holding (phases f) - {q} - {q}"
    "queries releasing (phases f') = queries releasing (phases f) - {q} - {q}"
    using assms(2,3) by auto
  have t: "tl (lockq f) = remove1 (ForQuery q) (lockq f)" using assms(1) by (cases "lockq f") (auto simp: held_def)
  have e: "tclosed f \<longrightarrow> ForClose \<notin> set (lockq f) \<longrightarrow> pool f = [] \<longrightarrow> pool f' = []" using assms(7) by auto
  have "lock_inv (insert q (queries locking (phases f))) (queries holding (phases f) - {q})
      (queries releasing (phases f) - {q}) (lockq f) (tclosed f) (pool f = []) (closer f = [])"
    using assms(1) by (simp add: held_def)
  from lock_inv_leave [OF this e, of q] show ?thesis unfolding lock_ok_def s t assms(4-6) .
qed

lemma held_stay:
  assumes "held q f" and "phases f' = dict_set q p (phases f)" and "holding p"
    and "lockq f' = lockq f" and "tclosed f' = tclosed f" and "closer f' = closer f"
    and "pool f' = butlast (pool f) \<or> pool f' = pool f"
  shows "lock_ok f'"
proof -
  have "locking p \<and> \<not> releasing p" using assms(3) by (cases p) simp_all
  with assms show ?thesis by (auto simp: held_def lock_ok_def lock_inv_def split: if_splits)
qed

section \<open>Invariant\<close>

lemma close_writer_frame [simp]:
  "phases (close_writer c f) = phases f" "tgate (close_writer c f) = tgate f" "tcfg (close_writer c f) = tcfg f"
  "tmetrics (close_writer c f) = tmetrics f" "treturned (close_writer c f) = treturned f"
  "tclosed (close_writer c f) = tclosed f" "pool (close_writer c f) = pool f" "lockq (close_writer c f) = lockq f"
  "closer (close_writer c f) = closer f" "leaked (close_writer c f) = leaked f"
  "length (conns (close_writer c f)) = length (conns f)"
  by (auto simp: close_writer_def)

lemma unlock_frame [simp]:
  "phases (unlock f) = phases f" "tgate (unlock f) = tgate f" "tcfg (unlock f) = tcfg f" "tmetrics (unlock f) = tmetrics f"
  "tclosed (unlock f) = tclosed f" "pool (unlock f) = pool f" "closer (unlock f) = closer f" "leaked (unlock f) = leaked f"
  "lockq (unlock f) = tl (lockq f)" "conns (unlock f) = conns f"
  by (simp_all add: unlock_def)

lemma give_up_frame [simp]:
  "phases (give_up q f) = phases f" "tgate (give_up q f) = tgate f" "tcfg (give_up q f) = tcfg f"
  "tmetrics (give_up q f) = tmetrics f" "leaked (give_up q f) = leaked f"
  by (simp_all add: give_up_def)

lemma leave_frame [simp]:
  "phases (tcp_leave q r e f) = dict_pop q (phases f)" "tcfg (tcp_leave q r e f) = tcfg f"
  "tclosed (tcp_leave q r e f) = tclosed f" "pool (tcp_leave q r e f) = pool f" "closer (tcp_leave q r e f) = closer f"
  "leaked (tcp_leave q r e f) = leaked f" "lockq (tcp_leave q r e f) = lockq f" "conns (tcp_leave q r e f) = conns f"
  "gate_max (tgate (tcp_leave q r e f)) = gate_max (tgate f)" "metered (tmetrics (tcp_leave q r e f)) = metered (tmetrics f)"
  by (simp_all add: tcp_leave_def Let_def)

lemma send_frame [simp]:
  "tgate (tcp_send q c wire f) = tgate f" "tcfg (tcp_send q c wire f) = tcfg f" "tclosed (tcp_send q c wire f) = tclosed f"
  "pool (tcp_send q c wire f) = pool f" "closer (tcp_send q c wire f) = closer f" "leaked (tcp_send q c wire f) = leaked f"
  "lockq (tcp_send q c wire f) = lockq f" "metered (tmetrics (tcp_send q c wire f)) = metered (tmetrics f)"
  by (simp_all add: tcp_send_def tcp_fail_def split: sum.split)

lemma send_phase:
  obtains p where "phases (tcp_send q c wire f) = dict_set q p (phases f)" and "\<not> locking p"
  by (cases "frame wire") (auto simp: tcp_send_def tcp_fail_def)

subsection \<open>Counter of the queries in progress\<close>

definition gate_ok :: "tcp_forwarder \<Rightarrow> bool" where
  "gate_ok f \<longleftrightarrow> dict_ok (phases f) \<and> gate_tracks (tgate f) (length (phases f))"

lemma gate_ok_goto:
  "gate_ok f \<Longrightarrow> q \<in> set (keys (phases f)) \<Longrightarrow> phases f' = dict_set q p (phases f) \<Longrightarrow> tgate f' = tgate f \<Longrightarrow> gate_ok f'"
  by (auto simp: gate_ok_def length_dict_set)

lemma gate_ok_cong: "phases f' = phases f \<Longrightarrow> tgate f' = tgate f \<Longrightarrow> gate_ok f' \<longleftrightarrow> gate_ok f"
  by (simp add: gate_ok_def)

lemma gate_ok_irrelevant [simp]:
  "gate_ok (f\<lparr>conns := k\<rparr>) \<longleftrightarrow> gate_ok f" "gate_ok (f\<lparr>tmetrics := M\<rparr>) \<longleftrightarrow> gate_ok f"
  "gate_ok (f\<lparr>treturned := l\<rparr>) \<longleftrightarrow> gate_ok f"
  by (simp_all add: gate_ok_def)

lemma gate_ok_leave:
  assumes "gate_ok f" and "q \<in> set (keys (phases f))" shows "gate_ok (tcp_leave q r e f)"
proof -
  have "gate_tracks (tgate f) (Suc (length (dict_pop q (phases f))))"
    using assms length_pop_present [of "phases f" q] by (simp add: gate_ok_def)
  with assms show ?thesis by (simp add: gate_ok_def tcp_leave_def Let_def gate_tracks_leave)
qed

text \<open>Taking a connection gives the query one phase and leaves the counter alone.\<close>

lemma acquire_step_frame [simp]:
  "tgate (acquire_step q wire now f) = tgate f" "tcfg (acquire_step q wire now f) = tcfg f"
  "tclosed (acquire_step q wire now f) = tclosed f" "closer (acquire_step q wire now f) = closer f"
  "leaked (acquire_step q wire now f) = leaked f" "metered (tmetrics (acquire_step q wire now f)) = metered (tmetrics f)"
  by (simp_all add: acquire_step_def Let_def)

lemma acquire_frame [simp]:
  "tgate (acquire_from_pool q wire now f) = tgate f" "tcfg (acquire_from_pool q wire now f) = tcfg f"
  "leaked (acquire_from_pool q wire now f) = leaked f"
  "metered (tmetrics (acquire_from_pool q wire now f)) = metered (tmetrics f)"
  by (simp_all add: acquire_from_pool_def)

lemma acquire_step_phase: "\<exists>p. phases (acquire_step q wire now f) = dict_set q p (phases f)"
  using send_phase [of q "fst (last (pool f))" wire
      "unlock (count ''upstream_tcp_reuses_total'' (f\<lparr>pool := butlast (pool f)\<rparr>))"]
  by (auto simp: acquire_step_def Let_def)

lemma acquire_phase: "\<exists>p. phases (acquire_from_pool q wire now f) = dict_set q p (phases f)"
  using acquire_step_phase [of q wire now "f\<lparr>lockq := [ForQuery q]\<rparr>"] by (auto simp: acquire_from_pool_def)

lemma gate_ok_release_locked:
  assumes "gate_ok f" and "q \<in> set (keys (phases f))" shows "gate_ok (release_locked now q c r f)"
proof -
  have "gate_ok (unlock (f\<lparr>pool := ps\<rparr>))" for ps using assms(1) by (simp add: gate_ok_def)
  with assms show ?thesis
    using gate_ok_goto [OF assms] gate_ok_leave by (auto simp: release_locked_def)
qed

lemma gate_ok_release:
  assumes "gate_ok f" and "q \<in> set (keys (phases f))" shows "gate_ok (release_to_pool now q c r f)"
proof -
  have "gate_ok (release_locked now q c r (f\<lparr>lockq := L\<rparr>))" for L
    using assms by (intro gate_ok_release_locked) (simp_all add: gate_ok_def)
  then show ?thesis using gate_ok_goto [OF assms] by (simp add: release_to_pool_def)
qed

subsection \<open>Operations under the lock\<close>

lemma lock_acquire_step:
  assumes "held q f" shows "lock_ok (acquire_step q wire now f)"
proof (cases "pool f = []")
  case True
  with assms show ?thesis
    by (auto simp: acquire_step_def intro!: held_unlock [OF assms, where p = "Connecting wire"])
next
  case False
  let ?p = "last (pool f)" and ?f1 = "f\<lparr>pool := butlast (pool f)\<rparr>"
  let ?g = "tcp_send q (fst ?p) wire (unlock (count ''upstream_tcp_reuses_total'' ?f1))"
  let ?h = "goto q (AcquireClosing wire now) (close_writer (fst ?p) ?f1)"
  have "lock_ok ?g"
  proof (rule send_phase [of q "fst ?p" wire "unlock (count ''upstream_tcp_reuses_total'' ?f1)"])
    fix p
    assume "phases ?g = dict_set q p (phases (unlock (count ''upstream_tcp_reuses_total'' ?f1)))" and "\<not> locking p"
    then show ?thesis by (intro held_unlock [OF assms, where p = p]) simp_all
  qed
  moreover have "lock_ok ?h" by (rule held_stay [OF assms, where p = "AcquireClosing wire now"]) simp_all
  ultimately show ?thesis using False by (simp add: acquire_step_def Let_def)
qed

lemma lock_acquire:
  assumes "lock_ok f" and "q \<notin> queries locking (phases f)"
  shows "lock_ok (acquire_from_pool q wire now f)"
proof -
  have "lock_ok (goto q (AcquireWait wire now) (f\<lparr>lockq := lockq f @ [ForQuery q]\<rparr>))"
    using assms queries_locking [OF assms(2)] lock_inv_enqueue [OF assms(1) [unfolded lock_ok_def] assms(2)]
    by (simp add: lock_ok_def)
  moreover have "lock_ok (goto q (Connecting wire) f)" using assms by (rule lock_goto) simp
  moreover have "lock_ok (acquire_step q wire now (f\<lparr>lockq := [ForQuery q]\<rparr>))" if "lockq f = []"
    using held_first [OF assms(1) that assms(2)] by (rule lock_acquire_step)
  ultimately show ?thesis by (simp add: acquire_from_pool_def)
qed

lemma lock_release_locked:
  assumes "held q f" and "tclosed f \<longrightarrow> ForClose \<in> set (lockq f)"
  shows "lock_ok (release_locked now q c r f)"
proof -
  let ?f1 = "unlock (f\<lparr>pool := pool f @ [(c, now)]\<rparr>)"
  have "lock_ok (tcp_leave q r False ?f1)"
    by (rule held_unlock [OF assms(1), where p = "Connecting []"]) (use assms(2) in auto)
  moreover have "lock_ok (goto q (ReleaseClosing r) (close_writer c f))"
    by (rule held_stay [OF assms(1), where p = "ReleaseClosing r"]) simp_all
  ultimately show ?thesis by (simp add: release_locked_def)
qed

lemma lock_release:
  assumes "lock_ok f" and "q \<notin> queries locking (phases f)"
  shows "lock_ok (release_to_pool now q c r f)"
proof -
  have "lock_ok (goto q (ReleaseWait c r) (f\<lparr>lockq := lockq f @ [ForQuery q]\<rparr>))" if "\<not> tclosed f"
    using that assms queries_locking [OF assms(2)] lock_inv_enqueue [OF assms(1) [unfolded lock_ok_def] assms(2)]
    by (simp add: lock_ok_def)
  moreover have "lock_ok (goto q (Ending r False) (close_writer c f))"
    using assms by (intro lock_goto) (simp_all add: close_writer_def)
  moreover have "lock_ok (release_locked now q c r (f\<lparr>lockq := [ForQuery q]\<rparr>))" if "lockq f = []" "\<not> tclosed f"
    using held_first [OF assms(1) that(1) assms(2)] that(2) by (intro lock_release_locked) simp_all
  ultimately show ?thesis by (simp add: release_to_pool_def)
qed

text \<open>A query at the head that waits to release its connection can do so before \<open>close\<close> has its turn.\<close>

lemma releasing_before_close:
  assumes "lock_ok f" and "dict_get (phases f) q = Some (ReleaseWait c r)" and "tclosed f"
  shows "ForClose \<in> set (lockq f)"
proof -
  have "q \<in> queries releasing (phases f)" using assms(2) by (simp add: queries_def)
  with assms(1,3) show ?thesis by (auto simp: lock_ok_def lock_inv_def split: if_splits)
qed

subsection \<open>Steps\<close>

definition tcp_ok :: "tcp_forwarder \<Rightarrow> bool" where
  "tcp_ok f \<longleftrightarrow> own {} f \<and> gate_ok f \<and> lock_ok f"

lemma tcp_ok_init [simp]: "tcp_ok (tcp_init cfg M)"
proof -
  have "uses [] = Map.empty" "queries P [] = {}" for P by (auto simp: uses_def queries_def)
  then show ?thesis
    by (simp add: tcp_ok_def own_def gate_ok_def tcp_init_def pool_ok_def rest_def ownership_def lock_ok_def lock_inv_def)
qed

lemma tcp_ok_metrics [simp]: "tcp_ok (f\<lparr>tmetrics := M\<rparr>) \<longleftrightarrow> tcp_ok f" "tcp_ok (f\<lparr>treturned := l\<rparr>) \<longleftrightarrow> tcp_ok f"
  by (simp_all add: tcp_ok_def gate_ok_def)

lemma tcp_okD:
  assumes "tcp_ok f" and "dict_get (phases f) q = Some p"
  shows "own {} f" and "gate_ok f" and "lock_ok f" and "uses (phases f) q = phase_conn p" and "q \<in> set (keys (phases f))"
    and "q \<in> queries locking (phases f) \<longleftrightarrow> locking p"
  using assms uses_SomeD [OF assms(2)] queries_iff [OF assms(2)] by (simp_all add: tcp_ok_def)

lemma tcp_ok_fail:
  assumes "tcp_ok f" and "dict_get (phases f) q = Some p" and "phase_conn p = Some c" and "\<not> locking p"
  shows "tcp_ok (tcp_fail q c f)"
proof -
  note f = tcp_okD [OF assms(1,2)]
  have "gate_ok (tcp_fail q c f)" 
    by (rule gate_ok_goto [OF f(2,5), where p = "Ending (Inr None) True"]) (simp_all add: tcp_fail_def)
  moreover have "lock_ok (tcp_fail q c f)"
    using lock_goto [of f q "Ending (Inr None) True"] f assms(4) by (simp add: tcp_fail_def close_writer_def)
  ultimately show ?thesis using own_fail [of f q c] f assms(3) by (simp add: tcp_ok_def)
qed

lemma tcp_ok_release:
  assumes "tcp_ok f" and "dict_get (phases f) q = Some p" and "phase_conn p = Some c" and "\<not> locking p"
  shows "tcp_ok (release_to_pool now q c r f)"
  using tcp_okD [OF assms(1,2)] assms(3,4) own_release [of f q c] gate_ok_release [of f q] lock_release [of f q]
  by (simp add: tcp_ok_def)

lemma tcp_ok_give_up:
  assumes "tcp_ok f" and "dict_get (phases f) q = Some p" and "phase_conn p = None"
  shows "tcp_ok (tcp_leave q r e (give_up q f))"
proof -
  note f = tcp_okD [OF assms(1,2)]
  have "gate_ok (give_up q f)" using f(2) by (simp add: gate_ok_def)
  then show ?thesis
    using f assms(3) own_leave [of "give_up q f" q] gate_ok_leave [of "give_up q f" q] lock_leave [of f q] by (simp add: tcp_ok_def)
qed

lemma tcp_ok_leave:
  assumes "tcp_ok f" and "dict_get (phases f) q = Some p" and "phase_conn p = None" and "\<not> locking p"
  shows "tcp_ok (tcp_leave q r e f)"
  using tcp_ok_give_up [OF assms(1-3), of r e] tcp_okD [OF assms(1,2)] assms(4) give_up_absent [of f q] by simp

lemma tcp_ok_abandon:
  assumes "tcp_ok f" and "dict_get (phases f) q = Some p" and "phase_conn p = Some c"
  shows "tcp_ok (tcp_leave q r e ((give_up q f)\<lparr>leaked := insert c (leaked f)\<rparr>))"
proof -
  note f = tcp_okD [OF assms(1,2)]
  let ?g = "(give_up q f)\<lparr>leaked := insert c (leaked f)\<rparr>"
  have "gate_ok ?g" using f(2) by (simp add: gate_ok_def)
  moreover have "lock_ok (tcp_leave q r e ?g)"
    using lock_leave [OF f(3), of q r e] by (simp add: lock_ok_def give_up_def)
  ultimately show ?thesis
    using f assms(3) own_abandon [of f q c] gate_ok_leave [of ?g q] by (simp add: tcp_ok_def)
qed

lemma tcp_ok_goto:
  assumes "tcp_ok f" and "dict_get (phases f) q = Some p" and "phase_conn p' = phase_conn p"
    and "\<not> locking p" and "\<not> locking p'"
  shows "tcp_ok (goto q p' f)"
  using tcp_okD [OF assms(1,2)] assms(3-5) own_same [of "{}" f q p'] gate_ok_goto [of f q "goto q p' f" p'] lock_goto [of f q p']
  by (simp add: tcp_ok_def)

lemma tcp_ok_conn:
  assumes "tcp_ok f" and "\<And>k. cclosing k \<Longrightarrow> cclosing (g k)"
  shows "tcp_ok (f\<lparr>conns := (conns f)[c := g (conns f ! c)]\<rparr>)"
  using assms own_conn_update [of "{}" f g c] by (simp add: tcp_ok_def gate_ok_def)

lemma tcp_ok_reader: "tcp_ok f \<Longrightarrow> tcp_ok (set_reader c r f)"
  using tcp_ok_conn [of f "\<lambda>k. k\<lparr>cin := r\<rparr>"] by simp

lemma tcp_ok_query:
  assumes "tcp_ok f" and "q \<notin> set (keys (phases f))"
  shows "tcp_ok (tcp_query q wire now f)"
proof -
  obtain ok g where g: "gate_enter (tgate f) = (ok, g)" by fastforce
  let ?f1 = "count ''upstream_requests_total'' (f\<lparr>tgate := g\<rparr>)"
  let ?f2 = "acquire_from_pool q wire now ?f1"
  have f: "own {} f" "dict_ok (phases f)" "lock_ok f" using assms(1) by (simp_all add: tcp_ok_def gate_ok_def)
  have t: "gate_tracks g (if ok then Suc (length (phases f)) else length (phases f))"
    using assms(1) g by (intro gate_tracks_enter) (simp_all add: tcp_ok_def gate_ok_def)
  have "uses (phases f) q = None" using assms(2) by (auto simp: uses_def dest!: dict_get_mem_keys split: bind_splits)
  then have "own {} ?f2" using f(1) by (intro own_acquire) simp_all
  moreover have "lock_ok ?f2" using f(3) queries_new [OF assms(2)] by (intro lock_acquire) simp_all
  moreover have "gate_ok ?f2" if ok
    using acquire_phase [of q wire now ?f1] that t f(2) assms(2) by (auto simp: gate_ok_def length_dict_set)
  ultimately show ?thesis using assms(1) g by (auto simp: tcp_query_def tcp_ok_def split: bool.splits)
qed

lemma tcp_ok_connect:
  assumes "tcp_ok f" shows "tcp_ok (tcp_connect q out f)"
proof (cases "\<exists>wire. dict_get (phases f) q = Some (Connecting wire) \<and> out = Connected")
  case True
  then obtain wire where w: "dict_get (phases f) q = Some (Connecting wire)" "out = Connected" by blast
  note f = tcp_okD [OF assms w(1)]
  let ?f1 = "f\<lparr>conns := conns f @ [\<lparr>cin = new_reader, cout = [], cclosing = False\<rparr>]\<rparr>"
  let ?c = "length (conns f)"
  let ?f2 = "tcp_send q ?c wire ?f1"
  obtain p where p: "phases ?f2 = dict_set q p (phases f)" "\<not> locking p" using send_phase [of q ?c wire ?f1] by auto
  have "closing_set (conns f) \<subseteq> closing_set (conns ?f1)" by (auto simp: closing_set_def nth_append)
  then have "own {?c} ?f1"
    using f(1) ownership_closing [OF ownership_open] by (auto simp: own_def pool_ok_def rest_def)
  then have "own {} ?f2" using f(4) by (intro own_send) simp_all
  moreover have "gate_ok ?f2" by (rule gate_ok_goto [OF f(2,5) p(1)]) simp
  moreover have "lock_ok ?f2" using lock_goto [of f q p] f p by (simp add: lock_ok_def)
  ultimately show ?thesis by (simp add: tcp_connect_def w tcp_ok_def)
next
  case False
  then show ?thesis using assms
    by (auto simp: tcp_connect_def intro!: tcp_ok_leave split: option.splits phase.splits connect_outcome.splits)
qed

lemma tcp_ok_wake:
  assumes "tcp_ok f" shows "tcp_ok (tcp_wake q now f)"
proof (cases "dict_get (phases f) q")
  case (Some p)
  have fail: "tcp_ok (tcp_fail q c f')" if "phase_conn p = Some c" "\<not> locking p" "tcp_ok f'" "phases f' = phases f" for c f'
    using that Some by (intro tcp_ok_fail [where p = p]) simp_all
  have go: "tcp_ok (f'\<lparr>phases := dict_set q p' (phases f)\<rparr>)"
    if "phase_conn p' = phase_conn p" "\<not> locking p" "\<not> locking p'" "tcp_ok f'" "phases f' = phases f" for p' f'
    using that Some tcp_ok_goto [of f' q p p'] by simp
  have fin: "tcp_ok (release_to_pool now q c r f')" if "phase_conn p = Some c" "\<not> locking p" "tcp_ok f'" "phases f' = phases f" for c r f'
    using that Some by (intro tcp_ok_release [where p = p]) simp_all
  note r = tcp_ok_reader [OF assms]
  show ?thesis
  proof (cases p)
    case (ReadLength c)
    then show ?thesis using Some assms r
      by (auto simp: tcp_wake_def tcp_oversize_def tcp_broken_def Let_def split: read.split intro!: fail go)
  next
    case (ReadMessage c n)
    then show ?thesis using Some assms r
      by (auto simp: tcp_wake_def tcp_oversize_def tcp_broken_def Let_def split: read.split intro!: fail fin)
  qed (use Some assms in \<open>simp_all add: tcp_wake_def\<close>)
qed (use assms in \<open>simp add: tcp_wake_def\<close>)

lemma give_up_head: "lockq f \<noteq> [] \<Longrightarrow> hd (lockq f) = ForQuery q \<Longrightarrow> unlock f = give_up q f"
  by (cases "lockq f") (simp_all add: unlock_def give_up_def)

lemma tcp_ok_lock:
  assumes "tcp_ok f" shows "tcp_ok (lock_proceed q now f)"
proof (cases "lockq f \<noteq> [] \<and> hd (lockq f) = ForQuery q")
  case True
  with assms have h: "held q f" by (intro held_head) (simp_all add: tcp_ok_def)
  have acq: "tcp_ok (acquire_step q wire t f)" if "dict_get (phases f) q = Some p" "phase_conn p = None" for wire t p
  proof -
    note f = tcp_okD [OF assms that(1)]
    have "gate_ok (acquire_step q wire t f)"
      using acquire_step_phase [of q wire t f] gate_ok_goto [OF f(2,5)] by auto
    with f that(2) own_acquire_step [of f q] lock_acquire_step [OF h] show ?thesis by (simp add: tcp_ok_def)
  qed
  have rel: "tcp_ok (release_locked now q c r f)" if "dict_get (phases f) q = Some (ReleaseWait c r)" for c r
  proof -
    note f = tcp_okD [OF assms that]
    have "lock_ok (release_locked now q c r f)"
      using h releasing_before_close [OF f(3) that] by (intro lock_release_locked) simp_all
    with f own_release_locked [of f q c] gate_ok_release_locked [of f q] show ?thesis by (simp add: tcp_ok_def)
  qed
  have "tcp_ok (tcp_leave q r False (unlock f))" if "dict_get (phases f) q = Some (ReleaseClosing r)" for r
    using tcp_ok_give_up [OF assms that] True by (simp add: give_up_head)
  with True assms acq rel show ?thesis by (auto simp: lock_proceed_def split: option.split phase.split)
next
  case False
  then have "lock_proceed q now f = f" by (auto simp: lock_proceed_def)
  with assms show ?thesis by simp
qed

lemma tcp_ok_cancel: "tcp_ok f \<Longrightarrow> tcp_ok (tcp_cancel q now f)"
  by (auto simp: tcp_cancel_def split: option.splits phase.splits
      intro!: tcp_ok_release tcp_ok_leave tcp_ok_give_up tcp_ok_abandon)

lemma tcp_ok_close_locked:
  assumes "own {} f" and "gate_ok f" and "lock_ok f" and "lockq f = ForClose # L"
  shows "tcp_ok (close_locked f)"
proof -
  have "closer f = []" using assms(3,4) by (simp add: lock_ok_def lock_inv_def)
  moreover have "lock_ok (close_locked f)"
    using lock_inv_closed [of _ _ _ L] assms(3) by (auto simp: lock_ok_def close_locked_def assms(4))
  moreover have "gate_ok (close_locked f)" using assms(2) by (simp add: close_locked_def gate_ok_def)
  ultimately show ?thesis using own_close_locked [OF assms(1)] by (simp add: tcp_ok_def)
qed

lemma tcp_ok_close:
  assumes "tcp_ok f" shows "tcp_ok (tcp_close f)"
proof (cases "tclosed f")
  case False
  let ?f1 = "f\<lparr>tclosed := True, lockq := lockq f @ [ForClose]\<rparr>"
  have f1: "own {} ?f1" "gate_ok ?f1" "lock_ok ?f1"
    using assms False lock_inv_close by (simp_all add: tcp_ok_def gate_ok_def lock_ok_def)
  with False tcp_ok_close_locked [of ?f1 "[]"] show ?thesis by (simp add: tcp_close_def tcp_ok_def)
qed (use assms in \<open>simp add: tcp_close_def\<close>)

lemma tcp_ok_close_next:
  assumes "tcp_ok f" shows "tcp_ok (close_next f)"
proof -
  have "lock_ok (close_next f)"
    using assms by (auto simp: tcp_ok_def close_next_def lock_ok_def lock_inv_def split: list.split if_splits)
  moreover have "gate_ok (close_next f)" using assms by (simp add: tcp_ok_def close_next_def gate_ok_def split: list.split)
  ultimately show ?thesis using assms own_close_next [of f] by (simp add: tcp_ok_def)
qed

lemma tcp_ok_step: "tcp_ok f \<Longrightarrow> tcp_ok (tcp_step e f)"
proof (cases e)
  case (TQuery q wire now)
  assume "tcp_ok f"
  with TQuery show ?thesis by (auto intro: tcp_ok_query)
next
  case (TDrained q x)
  assume "tcp_ok f"
  with TDrained show ?thesis
    by (auto simp: tcp_drained_def split: option.splits phase.splits intro!: tcp_ok_fail tcp_ok_goto)
next
  case (TTimeout q)
  assume "tcp_ok f"
  with TTimeout show ?thesis
    by (auto simp: tcp_timeout_def split: option.splits phase.splits intro!: tcp_ok_fail)
next
  case (TFinish q)
  assume "tcp_ok f"
  with TFinish show ?thesis
    by (auto simp: tcp_finish_def split: option.splits phase.splits intro!: tcp_ok_leave)
next
  case (TDeliver c bs)
  assume "tcp_ok f"
  with TDeliver tcp_ok_conn [of f "\<lambda>k. k\<lparr>cin := feed bs (cin k)\<rparr>" c] show ?thesis by (simp add: conn_update_def)
next
  case (TEof c)
  assume "tcp_ok f"
  with TEof tcp_ok_conn [of f "\<lambda>k. k\<lparr>cin := (cin k)\<lparr>reof := True\<rparr>\<rparr>" c] show ?thesis by (simp add: conn_update_def)
next
  case (TLost c x)
  assume "tcp_ok f"
  with TLost tcp_ok_conn [of f "\<lambda>k. k\<lparr>cin := reader_lost x (cin k), cclosing := True\<rparr>" c] show ?thesis
    by (simp add: conn_update_def)
next
  case TCloseLock
  assume f: "tcp_ok f"
  then have "tcp_ok (close_locked f)" if "lockq f = ForClose # L" for L
    using that by (intro tcp_ok_close_locked) (simp_all add: tcp_ok_def)
  with f TCloseLock show ?thesis by (cases "lockq f") (simp_all add: close_proceed_def)
qed (auto intro: tcp_ok_connect tcp_ok_wake tcp_ok_lock tcp_ok_cancel tcp_ok_close tcp_ok_close_next)

lemma tcp_ok_run: "tcp_ok f \<Longrightarrow> tcp_ok (tcp_run evs f)"
  unfolding tcp_run_def by (induction evs arbitrary: f) (auto intro: tcp_ok_step)

section \<open>Properties\<close>

lemma release_frame [simp]:
  "tcfg (release_to_pool now q c r f) = tcfg f" "gate_max (tgate (release_to_pool now q c r f)) = gate_max (tgate f)"
  "leaked (release_to_pool now q c r f) = leaked f" "metered (tmetrics (release_to_pool now q c r f)) = metered (tmetrics f)"
  "tcfg (release_locked now q c r f) = tcfg f" "gate_max (tgate (release_locked now q c r f)) = gate_max (tgate f)"
  "leaked (release_locked now q c r f) = leaked f" "metered (tmetrics (release_locked now q c r f)) = metered (tmetrics f)"
  by (auto simp: release_to_pool_def release_locked_def)

lemmas tcp_step_defs = tcp_connect_def tcp_drained_def tcp_wake_def tcp_timeout_def tcp_cancel_def tcp_finish_def
  lock_proceed_def tcp_close_def close_proceed_def close_locked_def close_next_def conn_update_def tcp_fail_def
  tcp_oversize_def tcp_broken_def Let_def

lemma tcp_query_frame [simp]:
  "tcfg (tcp_query q wire now f) = tcfg f" "gate_max (tgate (tcp_query q wire now f)) = gate_max (tgate f)"
  "leaked (tcp_query q wire now f) = leaked f" "metered (tmetrics (tcp_query q wire now f)) = metered (tmetrics f)"
  by (auto simp: tcp_query_def count_refused_def split: prod.splits bool.splits dest!: gate_max_entered)

lemma tcp_step_frame [simp]:
  "tcfg (tcp_step e f) = tcfg f" "gate_max (tgate (tcp_step e f)) = gate_max (tgate f)"
  "metered (tmetrics (tcp_step e f)) = metered (tmetrics f)"
  by (cases e;
      auto simp: tcp_step_defs split: option.split phase.split connect_outcome.split read.split list.split)+

lemma tcp_step_leaked: "\<forall>q now. TCancel q now \<noteq> e \<Longrightarrow> leaked (tcp_step e f) = leaked f"
  by (cases e;
      auto simp: tcp_step_defs split: option.split phase.split connect_outcome.split read.split list.split)

lemma tcp_run_frame [simp]:
  "tcfg (tcp_run evs f) = tcfg f" "gate_max (tgate (tcp_run evs f)) = gate_max (tgate f)"
  unfolding tcp_run_def by (induction evs arbitrary: f) simp_all

lemma tcp_run_leaked: "\<forall>q now. TCancel q now \<notin> set evs \<Longrightarrow> leaked (tcp_run evs f) = leaked f"
  unfolding tcp_run_def by (induction evs arbitrary: f) (auto simp: tcp_step_leaked)

text \<open>
  C4. Whatever the order in which queries, answers, timeouts, lost connections, cancellations, hand-overs
  of the lock and the closing of the forwarder interleave: the pool holds distinct connections, no more
  than configured, and none once \<open>close\<close> has had the lock; a connection is used by at most one query and
  never while it is in the pool; every connection ever opened is closing, in the pool, in use, or about to
  be closed by \<open>close\<close>, unless it was given up by a query that was cancelled; and with a bound on the
  queries in progress their counter is exact and never exceeds it.
\<close>

theorem tcp_forwarder_invariant:
  fixes evs cfg M
  defines "f \<equiv> tcp_run evs (tcp_init cfg M)"
  shows "distinct (map fst (pool f)) \<and> int (length (pool f)) \<le> max 0 (tcp_pool_max_conns cfg) \<and>
    (tclosed f \<and> ForClose \<notin> set (lockq f) \<longrightarrow> pool f = []) \<and>
    (\<forall>q q' c. uses (phases f) q = Some c \<longrightarrow> c \<notin> fst ` set (pool f) \<and> (uses (phases f) q' = Some c \<longrightarrow> q' = q)) \<and>
    (\<forall>c < length (conns f). cclosing (conns f ! c) \<or> c \<in> fst ` set (pool f) \<or> (\<exists>q. uses (phases f) q = Some c) \<or>
      c \<in> set (closer f) \<or> c \<in> leaked f) \<and>
    ((\<forall>q now. TCancel q now \<notin> set evs) \<longrightarrow> leaked f = {}) \<and>
    (0 < tcp_max_inflight cfg \<longrightarrow>
      gate_used (tgate f) = int (length (phases f)) \<and> int (length (phases f)) \<le> tcp_max_inflight cfg)"
proof -
  have ok: "tcp_ok f" unfolding f_def by (rule tcp_ok_run) simp
  have c: "tcfg f = cfg" "gate_max (tgate f) = max 0 (tcp_max_inflight cfg)"
    unfolding f_def by (simp_all add: tcp_init_def)
  have o: "pool_ok f" "ownership {} (rest f) (uses (phases f)) (closing_set (conns f)) (length (conns f))"
    and g: "gate_tracks (tgate f) (length (phases f))" and l: "tclosed f \<and> ForClose \<notin> set (lockq f) \<longrightarrow> pool f = []"
    using ok by (simp_all add: tcp_ok_def own_def gate_ok_def lock_ok_def lock_inv_def)
  have excl: "c \<notin> idle f \<and> (uses (phases f) q' = Some c \<longrightarrow> q' = q)" if "uses (phases f) q = Some c" for q q' c
    using that o(2) by (auto simp: ownership_def inj_on_def ran_def dom_def rest_def)
  have kept: "cclosing (conns f ! c) \<or> c \<in> idle f \<or> (\<exists>q. uses (phases f) q = Some c) \<or> c \<in> set (closer f) \<or> c \<in> leaked f"
    if "c < length (conns f)" for c
  proof -
    from that o(2) have "c \<in> closing_set (conns f) \<union> rest f \<union> ran (uses (phases f))" by (auto simp: ownership_def)
    then show ?thesis by (auto simp: closing_set_def ran_def rest_def)
  qed
  have "(\<forall>q now. TCancel q now \<notin> set evs) \<longrightarrow> leaked f = {}"
    unfolding f_def by (simp add: tcp_run_leaked tcp_init_def)
  moreover have "0 < tcp_max_inflight cfg \<longrightarrow>
      gate_used (tgate f) = int (length (phases f)) \<and> int (length (phases f)) \<le> tcp_max_inflight cfg"
    using g by (auto simp: gate_tracks_def c)
  ultimately show ?thesis
    using o(1) excl kept l by (simp add: pool_ok_def c)
qed

text \<open>Evaluation of runs.\<close>

lemmas tcp_run_simps = tcp_run_def tcp_init_def tcp_query_def gate_enter_def gate_init_def gate_leave_def
  acquire_from_pool_def acquire_step_def default_tcp_config_def tcp_connect_def tcp_send_def tcp_drained_def tcp_cancel_def
  release_to_pool_def release_locked_def unlock_def give_up_def lock_proceed_def new_reader_def at_eof_def tcp_finish_def
  tcp_leave_def usable_def close_writer_def tcp_close_def close_locked_def

lemma tcp_forwarder_invariant_witness:
  defines "evs \<equiv> [TQuery 0 [1] 0, TConnect 0 Connected, TDrained 0 None, TCancel 0 1, TClose]"
  shows "tclosed (tcp_run evs (tcp_init default_tcp_config None)) \<and> pool (tcp_run evs (tcp_init default_tcp_config None)) = []"
proof -
  have "tclosed (tcp_run evs (tcp_init default_tcp_config None))" "lockq (tcp_run evs (tcp_init default_tcp_config None)) = []"
    by (simp_all add: evs_def tcp_run_simps frame_def to_bytes2_def)
  with tcp_forwarder_invariant [of evs default_tcp_config None] show ?thesis by simp
qed

text \<open>
  The errors that have a cause (a timeout, a failed connection, a protocol error) and those that were
  counted as errors or will be when their query ends.
\<close>

fun ends_in_error :: "phase \<Rightarrow> bool" where
  "ends_in_error (Ending r e) \<longleftrightarrow> e"
| "ends_in_error _ \<longleftrightarrow> False"

definition tcp_causes :: "metrics option \<Rightarrow> int" where
  "tcp_causes M = mval M ''upstream_tcp_timeouts_total'' + mval M ''upstream_tcp_connect_errors_total'' +
     mval M ''upstream_tcp_protocol_errors_total''"

definition tcp_balance :: "tcp_forwarder \<Rightarrow> int" where
  "tcp_balance f = tcp_causes (tmetrics f) - mval (tmetrics f) ''upstream_tcp_errors_total'' -
     int (tally ends_in_error (phases f))"

lemma tcp_causes_inc:
  "metered M \<Longrightarrow> tcp_causes (inc k M) = tcp_causes M +
     of_bool (k \<in> {''upstream_tcp_timeouts_total'', ''upstream_tcp_connect_errors_total'', ''upstream_tcp_protocol_errors_total''})"
  by (auto simp: tcp_causes_def metric_simps)

lemma causes_refused [simp]:
  "tcp_causes (count_refused M) = tcp_causes M"
  "mval (count_refused M) ''upstream_tcp_errors_total'' = mval M ''upstream_tcp_errors_total''"
  by (simp_all add: count_refused_def tcp_causes_def metric_simps)

lemma tally_goto:
  assumes "gate_ok f" and "dict_get (phases f) q = Some p" and "\<not> ends_in_error p"
  shows "tally ends_in_error (dict_set q p' (phases f)) = tally ends_in_error (phases f) + of_bool (ends_in_error p')"
  using tally_set [of "phases f" q p ends_in_error p'] assms by (simp add: gate_ok_def)

lemma tally_new: "q \<notin> set (keys d) \<Longrightarrow> tally P (dict_set q p d) = tally P d + of_bool (P p)"
  by (induction d) auto

lemma balance_leave:
  assumes "gate_ok f" and "metered (tmetrics f)" and "dict_get (phases f) q = Some p"
  shows "tcp_balance (tcp_leave q r e f) = tcp_balance f + of_bool (ends_in_error p) - of_bool e"
  using assms tally_pop [of "phases f" q p ends_in_error]
  by (simp add: gate_ok_def tcp_leave_def Let_def tcp_balance_def tcp_causes_def metric_simps)

lemma balance_fail:
  assumes "gate_ok f" and "metered (tmetrics f)" and "dict_get (phases f) q = Some p" and "\<not> ends_in_error p"
  shows "tcp_balance (tcp_fail q c f) = tcp_balance f - 1"
  using tally_goto [OF assms(1,3,4), of "Ending (Inr None) True"] by (simp add: tcp_balance_def tcp_fail_def)

lemma balance_count:
  "metered (tmetrics f) \<Longrightarrow> k \<noteq> ''upstream_tcp_errors_total'' \<Longrightarrow> tcp_balance (count k f) = tcp_balance f +
     of_bool (k \<in> {''upstream_tcp_timeouts_total'', ''upstream_tcp_connect_errors_total'', ''upstream_tcp_protocol_errors_total''})"
  by (simp add: tcp_balance_def tcp_causes_inc mval_inc)

lemma balance_irrelevant [simp]: "tcp_balance (f\<lparr>conns := k\<rparr>) = tcp_balance f" "tcp_balance (f\<lparr>tgate := g\<rparr>) = tcp_balance f"
  "tcp_balance (f\<lparr>treturned := l\<rparr>) = tcp_balance f" "tcp_balance (f\<lparr>lockq := L\<rparr>) = tcp_balance f"
  "tcp_balance (f\<lparr>pool := ps\<rparr>) = tcp_balance f" "tcp_balance (unlock f) = tcp_balance f"
  by (simp_all add: tcp_balance_def)

lemma balance_close:
  "tcp_balance (tcp_close f) = tcp_balance f" "tcp_balance (close_proceed f) = tcp_balance f"
  "tcp_balance (close_next f) = tcp_balance f"
  by (simp_all add: tcp_balance_def tcp_close_def close_proceed_def close_locked_def close_next_def split: list.split)

lemma balance_leave_ok:
  assumes "gate_ok f" and "dict_get (phases f) q = Some p" and "\<not> ends_in_error p"
    and "phases f' = phases f" and "tmetrics f' = tmetrics f"
  shows "tcp_balance (tcp_leave q r False f') = tcp_balance f"
  using assms tally_pop [of "phases f" q p ends_in_error] by (simp add: gate_ok_def tcp_leave_def tcp_balance_def)

lemma balance_goto:
  assumes "gate_ok f" and "dict_get (phases f) q = Some p" and "\<not> ends_in_error p" and "\<not> ends_in_error p'"
    and "phases f' = dict_set q p' (phases f)" and "tmetrics f' = tmetrics f"
  shows "tcp_balance f' = tcp_balance f"
  using tally_goto [OF assms(1-3), of p'] assms(4-6) by (simp add: tcp_balance_def)

lemma balance_release_locked:
  assumes "gate_ok f" and "dict_get (phases f) q = Some p" and "\<not> ends_in_error p"
  shows "tcp_balance (release_locked now q c r f) = tcp_balance f"
  using balance_leave_ok [OF assms] balance_goto [OF assms, of "ReleaseClosing r"] by (simp add: release_locked_def)

lemma balance_release:
  assumes "gate_ok f" and "dict_get (phases f) q = Some p" and "\<not> ends_in_error p"
  shows "tcp_balance (release_to_pool now q c r f) = tcp_balance f"
proof -
  have "tcp_balance (release_locked now q c r (f\<lparr>lockq := L\<rparr>)) = tcp_balance (f\<lparr>lockq := L\<rparr>)" for L
    using assms by (intro balance_release_locked) (simp_all add: gate_ok_def)
  then show ?thesis
    using balance_goto [OF assms, of "Ending r False"] balance_goto [OF assms, of "ReleaseWait c r"]
    by (simp add: release_to_pool_def)
qed

lemma balance_send:
  assumes "dict_ok (phases f)" and "metered (tmetrics f)"
    and "q \<notin> set (keys (phases f)) \<or> (\<exists>p. dict_get (phases f) q = Some p \<and> \<not> ends_in_error p)"
  shows "tcp_balance (tcp_send q c wire f) = tcp_balance f"
proof -
  have t: "tally ends_in_error (dict_set q p (phases f)) = tally ends_in_error (phases f) + of_bool (ends_in_error p)" for p
    using assms(3) tally_new [of q "phases f" ends_in_error p] tally_set [OF assms(1), of q _ ends_in_error p] by fastforce
  show ?thesis
    by (simp add: tcp_send_def tcp_fail_def tcp_balance_def t tcp_causes_inc assms(2) mval_inc split: sum.split)
qed

lemma balance_acquire_step:
  assumes "dict_ok (phases f)" and "metered (tmetrics f)"
    and "q \<notin> set (keys (phases f)) \<or> (\<exists>p. dict_get (phases f) q = Some p \<and> \<not> ends_in_error p)"
  shows "tcp_balance (acquire_step q wire now f) = tcp_balance f"
proof -
  have t: "tally ends_in_error (dict_set q p (phases f)) = tally ends_in_error (phases f)" if "\<not> ends_in_error p" for p
    using that assms(3) tally_new [of q "phases f" ends_in_error p] tally_set [OF assms(1), of q _ ends_in_error p] by fastforce
  have "tcp_balance (tcp_send q c wire (unlock (count ''upstream_tcp_reuses_total'' (f\<lparr>pool := ps\<rparr>)))) = tcp_balance f" for c ps
    using balance_send [of "unlock (count ''upstream_tcp_reuses_total'' (f\<lparr>pool := ps\<rparr>))" q c wire] assms
      balance_count [of "f\<lparr>pool := ps\<rparr>" "''upstream_tcp_reuses_total''"] by simp
  then show ?thesis by (simp add: acquire_step_def Let_def tcp_balance_def t)
qed

lemma balance_query:
  assumes "gate_ok f" and "metered (tmetrics f)" and "q \<notin> set (keys (phases f))"
  shows "tcp_balance (tcp_query q wire now f) = tcp_balance f"
proof -
  let ?f0 = "\<lambda>g. count ''upstream_requests_total'' (f\<lparr>tgate := g\<rparr>)"
  have b: "tcp_balance (?f0 g) = tcp_balance f" for g
    using assms(2) by (simp add: tcp_balance_def tcp_causes_inc mval_inc)
  have "tcp_balance (goto q p (?f0 g)) = tcp_balance f" if "\<not> ends_in_error p" for p g
    using that b tally_new [of q "phases f" ends_in_error p] assms(3) by (simp add: tcp_balance_def)
  moreover have "tcp_balance (acquire_step q wire now ((?f0 g)\<lparr>lockq := L\<rparr>)) = tcp_balance f" for g L
    using balance_acquire_step [of "(?f0 g)\<lparr>lockq := L\<rparr>" q wire now] assms b by (simp add: gate_ok_def)
  ultimately have "tcp_balance (acquire_from_pool q wire now (?f0 g)) = tcp_balance f" for g
    by (simp add: acquire_from_pool_def tcp_balance_def)
  then show ?thesis
    by (auto simp: tcp_query_def tcp_balance_def split: prod.split bool.split)
qed

lemma balance_wake:
  assumes "gate_ok f" and "metered (tmetrics f)"
  shows "tcp_balance (tcp_wake q now f) = tcp_balance f"
proof (cases "dict_get (phases f) q")
  case (Some p)
  have fail: "tcp_balance (tcp_fail q c (count k f')) = tcp_balance f"
    if "k \<in> {''upstream_tcp_timeouts_total'', ''upstream_tcp_protocol_errors_total''}" "gate_ok f'"
      "metered (tmetrics f')" "phases f' = phases f" "tcp_balance f' = tcp_balance f" "\<not> ends_in_error p" for c k f'
    using that Some balance_fail [of "count k f'" q p c] balance_count [of f' k] by auto
  have over: "tcp_balance (tcp_oversize q c (f\<lparr>conns := ks\<rparr>)) = tcp_balance f" if "\<not> ends_in_error p" for c ks
    unfolding tcp_oversize_def using assms that by (intro fail) (simp_all add: tcp_balance_def tcp_causes_inc mval_inc)
  have brk: "tcp_balance (tcp_broken q c x f) = tcp_balance f" if "\<not> ends_in_error p" for c x
    using that assms unfolding tcp_broken_def by (auto intro!: fail)
  have inc: "tcp_balance (tcp_fail q c (count ''upstream_tcp_protocol_errors_total'' (f\<lparr>conns := ks\<rparr>))) = tcp_balance f"
    if "\<not> ends_in_error p" for c ks using that assms by (intro fail) simp_all
  have fin: "tcp_balance (release_to_pool now q c r (f\<lparr>conns := ks\<rparr>)) = tcp_balance f" if "\<not> ends_in_error p" for c r ks
    using that assms Some balance_release [of "f\<lparr>conns := ks\<rparr>" q p now c r] by simp
  have go: "tcp_balance (f\<lparr>conns := ks, phases := dict_set q p' (phases f)\<rparr>) = tcp_balance f"
    if "\<not> ends_in_error p" "\<not> ends_in_error p'" for ks p'
    using tally_goto [OF assms(1) Some that(1), of p'] that(2) by (simp add: tcp_balance_def)
  show ?thesis
  proof (cases p)
    case (ReadLength c)
    with Some over brk inc go show ?thesis by (simp add: tcp_wake_def Let_def split: read.split)
  next
    case (ReadMessage c n)
    with Some over brk inc fin show ?thesis by (simp add: tcp_wake_def Let_def split: read.split)
  qed (use Some in \<open>simp_all add: tcp_wake_def\<close>)
qed (simp add: tcp_wake_def)

lemma balance_connect:
  assumes "gate_ok f" and "metered (tmetrics f)"
  shows "tcp_balance (tcp_connect q out f) = tcp_balance f"
proof (cases "\<exists>wire. dict_get (phases f) q = Some (Connecting wire)")
  case True
  then obtain wire where w: "dict_get (phases f) q = Some (Connecting wire)" by blast
  have "tcp_balance (tcp_leave q (Inr None) True (count k f)) = tcp_balance f"
    if "k \<in> {''upstream_tcp_timeouts_total'', ''upstream_tcp_connect_errors_total''}" for k
    using that balance_leave [of "count k f" q "Connecting wire"] balance_count [of f k] assms w by auto
  moreover have "tcp_balance (tcp_send q c wire (f\<lparr>conns := ks\<rparr>)) = tcp_balance f" for c ks
    using balance_send [of "f\<lparr>conns := ks\<rparr>" q c wire] assms w by (simp add: gate_ok_def)
  ultimately show ?thesis by (simp add: tcp_connect_def w split: connect_outcome.split)
next
  case False
  then show ?thesis by (auto simp: tcp_connect_def split: option.split phase.split)
qed

lemma balance_step:
  assumes "tcp_ok f" and "metered (tmetrics f)"
  shows "tcp_balance (tcp_step e f) = tcp_balance f"
proof -
  have g: "gate_ok f" using assms(1) by (simp add: tcp_ok_def)
  have fail: "tcp_balance (tcp_fail q c (count k f)) = tcp_balance f"
    if "k \<in> {''upstream_tcp_timeouts_total'', ''upstream_tcp_protocol_errors_total''}"
      "dict_get (phases f) q = Some p" "\<not> ends_in_error p" for c k q p
    using that g assms(2) balance_fail [of "count k f" q p c] balance_count [of f k] by auto
  have go: "tcp_balance (goto q (ReadLength c) f) = tcp_balance f" if "dict_get (phases f) q = Some (Draining c)" for q c
    using balance_goto [OF g that, of "ReadLength c"] by simp
  show ?thesis
  proof (cases e)
    case (TDrained q x)
    then show ?thesis
      by (auto simp: tcp_drained_def go intro!: fail split: option.splits phase.splits)
  next
    case (TTimeout q)
    then show ?thesis by (auto simp: tcp_timeout_def intro!: fail split: option.splits phase.splits)
  next
    case (TCancel q now)
    then show ?thesis
      using balance_leave [OF g assms(2)] balance_leave_ok [OF g] balance_release [OF g]
      by (auto simp: tcp_cancel_def split: option.splits phase.splits)
  next
    case (TLock q now)
    have "tcp_balance (acquire_step q wire t f) = tcp_balance f"
      if "dict_get (phases f) q = Some p" "\<not> ends_in_error p" for wire t p
      using that g assms(2) by (intro balance_acquire_step) (auto simp: gate_ok_def)
    then show ?thesis
      using TLock balance_leave_ok [OF g] balance_release_locked [OF g]
      by (auto simp: lock_proceed_def split: option.split phase.split)
  next
    case (TFinish q)
    then show ?thesis
      using balance_leave [OF g assms(2)] by (auto simp: tcp_finish_def split: option.splits phase.splits)
  qed (auto simp: balance_query balance_connect balance_wake balance_close g assms conn_update_def)
qed

text \<open>
  C39. Error accounting: in every state of the forwarder, the timeouts, failed connections and protocol
  errors that their own counters show add up to the errors counted so far and the queries that one of
  them has ended and that have not left yet; those are counted when they leave.
\<close>

theorem tcp_error_accounting:
  fixes evs cfg m
  defines "f \<equiv> tcp_run evs (tcp_init cfg (Some m))"
  shows "tcp_causes (tmetrics f) - tcp_causes (Some m) =
    mval (tmetrics f) ''upstream_tcp_errors_total'' - mval (Some m) ''upstream_tcp_errors_total'' +
    int (tally ends_in_error (phases f))"
proof -
  have "tcp_ok g \<Longrightarrow> metered (tmetrics g) \<Longrightarrow> tcp_balance (tcp_run evs g) = tcp_balance g" for evs g
    unfolding tcp_run_def by (induction evs arbitrary: g) (simp_all add: tcp_ok_step balance_step)
  from this [of "tcp_init cfg (Some m)" evs]
  have "tcp_balance f = tcp_balance (tcp_init cfg (Some m))" unfolding f_def using tcp_ok_init [of cfg "Some m"] by (simp add: tcp_init_def)
  then show ?thesis by (simp add: tcp_balance_def tcp_init_def)
qed

section \<open>Reading an answer\<close>

text \<open>Nothing but the connections and the phases of the queries differs.\<close>

definition alike :: "tcp_forwarder \<Rightarrow> tcp_forwarder \<Rightarrow> bool" where
  "alike f g \<longleftrightarrow> tmetrics g = tmetrics f \<and> tcfg g = tcfg f \<and> tclosed g = tclosed f \<and> lockq g = lockq f \<and>
     pool g = pool f \<and> treturned g = treturned f"

text \<open>Connection \<open>c\<close> is open, and \<open>bs\<close> is what it has received and no one has read.\<close>

definition unread :: "nat \<Rightarrow> bytes \<Rightarrow> tcp_forwarder \<Rightarrow> bool" where
  "unread c bs f \<longleftrightarrow> c < length (conns f) \<and> \<not> cclosing (conns f ! c) \<and> rexc (cin (conns f ! c)) = None \<and>
     \<not> reof (cin (conns f ! c)) \<and> rbuf (cin (conns f ! c)) = bs"

text \<open>
  The states of a query that has received the part \<open>a\<close> of the framed answer: it reads the length, or
  the message, or it has read all of it and has gone on to release its connection at time \<open>now\<close>.
\<close>

definition reading :: "tcp_forwarder \<Rightarrow> nat \<Rightarrow> nat \<Rightarrow> time \<Rightarrow> bytes \<Rightarrow> bytes \<Rightarrow> tcp_forwarder \<Rightarrow> bool" where
  "reading f0 q c now answer a f \<longleftrightarrow>
     alike f0 f \<and> dict_get (phases f) q = Some (ReadLength c) \<and> unread c a f \<or>
     alike f0 f \<and> dict_get (phases f) q = Some (ReadMessage c (length answer)) \<and> 2 \<le> length a \<and> unread c (drop 2 a) f \<or>
     frame answer = Inr a \<and> (\<exists>g. alike f0 g \<and> unread c [] g \<and> f = release_to_pool now q c (Inr (Some answer)) g)"

lemma unread_deliver: "unread c bs f \<Longrightarrow> unread c (bs @ b) (tcp_step (TDeliver c b) f)"
  by (simp add: unread_def conn_update_def feed_def)

lemma alike_conns [simp]: "alike f (g\<lparr>conns := k\<rparr>) \<longleftrightarrow> alike f g" "alike f (g\<lparr>phases := ps\<rparr>) \<longleftrightarrow> alike f g"
  by (simp_all add: alike_def)

lemma wake_length:
  assumes "dict_get (phases f) q = Some (ReadLength c)" and "unread c a f" and "2 \<le> length a" and "n = from_bytes (take 2 a)"
  obtains g where "alike f g" and "unread c (drop 2 a) g"
    and "tcp_step (TWake q now) f = (if oversize (tcfg f) n then tcp_oversize q c g else goto q (ReadMessage c n) g)"
proof (rule that [of "set_reader c ((cin (conns f ! c))\<lparr>rbuf := drop 2 a\<rparr>) f"])
  show "tcp_step (TWake q now) f =
      (if oversize (tcfg f) n then tcp_oversize q c (set_reader c ((cin (conns f ! c))\<lparr>rbuf := drop 2 a\<rparr>) f)
       else goto q (ReadMessage c n) (set_reader c ((cin (conns f ! c))\<lparr>rbuf := drop 2 a\<rparr>) f))"
    using assms by (simp add: unread_def tcp_wake_def readexactly_def Let_def)
qed (use assms in \<open>simp_all add: alike_def unread_def\<close>)

lemma wake_message:
  assumes "dict_get (phases f) q = Some (ReadMessage c n)" and "unread c bs f" and "length bs = n" and "\<not> oversize (tcfg f) n"
  obtains g where "alike f g" and "unread c [] g" and "tcp_step (TWake q now) f = release_to_pool now q c (Inr (Some bs)) g"
proof -
  let ?r = "cin (conns f ! c)"
  define r where "r = (if n = 0 then ?r else ?r\<lparr>rbuf := []\<rparr>)"
  have r: "readexactly n ?r = Got bs r" "rbuf r = []" "rexc r = None" "\<not> reof r"
    using assms(2,3) by (auto simp: unread_def readexactly_def r_def)
  show thesis
  proof (rule that [of "set_reader c r f"])
    show "tcp_step (TWake q now) f = release_to_pool now q c (Inr (Some bs)) (set_reader c r f)"
      using assms by (simp add: tcp_wake_def r(1) Let_def)
  qed (use assms(2) r in \<open>simp_all add: alike_def unread_def\<close>)
qed

lemma alike_trans: "alike f g \<Longrightarrow> alike g h \<Longrightarrow> alike f h"
  by (simp add: alike_def)

lemma released_deliver: "tcp_step (TDeliver c []) f = f"
  by (simp add: conn_update_def feed_def)

lemma released_wake:
  assumes "f = release_to_pool now q c r g"
  shows "tcp_step (TWake q now') f = f"
proof -
  have "dict_get (phases f) q \<in> {None, Some (Ending r False), Some (ReleaseWait c r), Some (ReleaseClosing r)}"
    by (simp add: assms release_to_pool_def release_locked_def tcp_leave_def)
  then show ?thesis by (auto simp: tcp_wake_def)
qed

lemma reading_deliver:
  assumes "reading f0 q c now answer a f" and "frame answer = Inr (a @ b @ d)"
  shows "reading f0 q c now answer (a @ b) (tcp_step (TDeliver c b) f)"
proof -
  from assms(1) consider (len) "alike f0 f" "dict_get (phases f) q = Some (ReadLength c)" "unread c a f"
    | (msg) "alike f0 f" "dict_get (phases f) q = Some (ReadMessage c (length answer))" "2 \<le> length a" "unread c (drop 2 a) f"
    | (fin) "frame answer = Inr a"
    by (auto simp: reading_def)
  then show ?thesis
  proof cases
    case fin
    with assms(2) have "b = []" by simp
    with assms(1) show ?thesis by (simp only: released_deliver append_Nil2)
  qed (use unread_deliver [of c _ f b] in \<open>auto simp: reading_def conn_update_def\<close>)
qed

lemma wake_pending:
  "dict_get (phases f) q = Some (ReadLength c) \<Longrightarrow> unread c a f \<Longrightarrow> length a < 2 \<Longrightarrow> tcp_step (TWake q now) f = f"
  "dict_get (phases f) q = Some (ReadMessage c n) \<Longrightarrow> unread c a f \<Longrightarrow> length a < n \<Longrightarrow> tcp_step (TWake q now) f = f"
  by (simp_all add: unread_def tcp_wake_def readexactly_def)

lemma reading_wake:
  assumes r: "reading f0 q c now answer a f" and fr: "frame answer = Inr (a @ d)"
    and sz: "\<not> oversize (tcfg f0) (length answer)"
  shows "reading f0 q c now answer a (tcp_step (TWake q now) f)"
proof -
  obtain p where p: "a @ d = p @ answer" "length p = 2" "from_bytes p = length answer" using fr by (rule frame_split)
  from r consider (len) "alike f0 f" "dict_get (phases f) q = Some (ReadLength c)" "unread c a f" "2 \<le> length a"
    | (msg) "alike f0 f" "dict_get (phases f) q = Some (ReadMessage c (length answer))" "2 \<le> length a" "unread c (drop 2 a) f"
        "length answer \<le> length (drop 2 a)"
    | (wait) "tcp_step (TWake q now) f = f"
  proof -
    note pending = wake_pending(1) [of f q c a now] wake_pending(2) [of f q c "length answer" "drop 2 a" now]
    from r show thesis unfolding reading_def
    proof (elim disjE conjE exE)
      assume "alike f0 f" "dict_get (phases f) q = Some (ReadLength c)" "unread c a f"
      then show thesis using len wait pending(1) by (cases "2 \<le> length a") auto
    next
      assume "alike f0 f" "dict_get (phases f) q = Some (ReadMessage c (length answer))" "2 \<le> length a" "unread c (drop 2 a) f"
      then show thesis using msg wait pending(2) by (cases "length answer \<le> length (drop 2 a)") auto
    next
      fix g assume "f = release_to_pool now q c (Inr (Some answer)) g"
      then show thesis by (intro wait released_wake)
    qed
  qed
  then show ?thesis
  proof cases
    case len
    then have "take 2 a = p" using p by (metis append_eq_conv_conj append_eq_append_conv_if)
    with len p obtain g where g: "alike f g" "unread c (drop 2 a) g" "tcp_step (TWake q now) f =
        (if oversize (tcfg f) (length answer) then tcp_oversize q c g else goto q (ReadMessage c (length answer)) g)"
      using wake_length [OF len(2-4), of "length answer" now] by auto
    moreover have "\<not> oversize (tcfg f) (length answer)" using len(1) sz by (simp add: alike_def)
    ultimately show ?thesis using len(1,4) alike_trans [OF len(1) g(1)] by (simp add: reading_def unread_def)
  next
    case msg
    have "drop 2 a @ d = answer" using p msg(3) by (metis append_eq_conv_conj append_eq_append_conv_if)
    with msg(5) have d: "d = []" "drop 2 a = answer" by (metis append_eq_append_conv_if append_eq_conv_conj append_self_conv take_all)+
    have "\<not> oversize (tcfg f) (length answer)" using msg(1) sz by (simp add: alike_def)
    with msg d obtain g where "alike f g" "unread c [] g" "tcp_step (TWake q now) f = release_to_pool now q c (Inr (Some answer)) g"
      using wake_message [OF msg(2), of answer now] by auto
    with fr d(1) alike_trans [OF msg(1)] show ?thesis unfolding reading_def by auto
  next
    case wait
    with r show ?thesis by simp
  qed
qed

text \<open>The deliveries of an answer in chunks, the query waking up after each.\<close>

definition deliveries :: "nat \<Rightarrow> nat \<Rightarrow> time \<Rightarrow> bytes list \<Rightarrow> tcp_event list" where
  "deliveries q c now chunks = concat (map (\<lambda>ch. [TDeliver c ch, TWake q now]) chunks)"

lemma reading_deliveries:
  assumes "reading f0 q c now answer a f" and "frame answer = Inr (a @ concat chunks)"
    and "\<not> oversize (tcfg f0) (length answer)"
  shows "reading f0 q c now answer (a @ concat chunks) (tcp_run (deliveries q c now chunks) f)"
  using assms(1,2)
proof (induction chunks arbitrary: a f)
  case (Cons ch chunks)
  have "reading f0 q c now answer (a @ ch) (tcp_step (TDeliver c ch) f)"
    using Cons.prems by (intro reading_deliver [where d = "concat chunks"]) simp_all
  then have "reading f0 q c now answer (a @ ch) (tcp_step (TWake q now) (tcp_step (TDeliver c ch) f))"
    using Cons.prems assms(3) by (intro reading_wake [where d = "concat chunks"]) simp_all
  from Cons.IH [OF this] Cons.prems show ?case by (simp add: deliveries_def tcp_run_def)
qed (simp add: deliveries_def tcp_run_def)

text \<open>Once all of the answer has arrived, two more wake-ups finish the reading.\<close>

lemma reading_all:
  assumes "reading f0 q c now answer a f" and "frame answer = Inr a" and sz: "\<not> oversize (tcfg f0) (length answer)"
  shows "\<exists>g. alike f0 g \<and> unread c [] g \<and>
    tcp_run [TWake q now, TWake q now] f = release_to_pool now q c (Inr (Some answer)) g" (is "\<exists>g. ?done g (tcp_run _ f)")
proof -
  let ?w = "tcp_step (TWake q now)"
  obtain p where p: "a = p @ answer" "length p = 2" "from_bytes p = length answer" using assms(2) by (rule frame_split)
  have stay: "?w f = f" if "?done g f" for f g using that released_wake by blast
  have msg: "\<exists>g. ?done g (?w f)"
    if "alike f0 f" "dict_get (phases f) q = Some (ReadMessage c (length answer))" "unread c answer f" for f
  proof -
    have "\<not> oversize (tcfg f) (length answer)" using that(1) sz by (simp add: alike_def)
    with wake_message [OF that(2,3) refl] alike_trans [OF that(1)] show ?thesis by metis
  qed
  have len: "\<exists>g. ?done g (?w (?w f))"
    if st: "alike f0 f" "dict_get (phases f) q = Some (ReadLength c)" "unread c a f" for f
  proof -
    have "\<not> oversize (tcfg f) (length answer)" using st(1) sz by (simp add: alike_def)
    moreover have "2 \<le> length a" "length answer = from_bytes (take 2 a)" "drop 2 a = answer" using p by simp_all
    with wake_length [OF st(2,3), of "length answer" now]
    obtain g where g: "alike f g" "unread c answer g" "?w f =
        (if oversize (tcfg f) (length answer) then tcp_oversize q c g else goto q (ReadMessage c (length answer)) g)"
      by metis
    ultimately show ?thesis using alike_trans [OF st(1) g(1)] by (intro msg) (simp_all add: unread_def)
  qed
  have "\<exists>g. ?done g (?w (?w f))"
    using assms(1) unfolding reading_def
  proof (elim disjE conjE exE)
    assume "alike f0 f" "dict_get (phases f) q = Some (ReadMessage c (length answer))" "unread c (drop 2 a) f"
    then obtain g where "?done g (?w f)" using msg [of f] p by auto
    with stay show ?thesis by metis
  next
    fix g assume "alike f0 g" "unread c [] g" "f = release_to_pool now q c (Inr (Some answer)) g"
    with stay show ?thesis by metis
  qed (rule len)
  then show ?thesis by (simp add: tcp_run_def)
qed

text \<open>
  A query that reads an answer of the right size comes to release its connection, which is open and has
  nothing unread, with the answer as its result.
\<close>

lemma answer_released:
  assumes "dict_get (phases f) q = Some (Draining c)" and "c < length (conns f)" and "\<not> cclosing (conns f ! c)"
    and "cin (conns f ! c) = new_reader" and "\<not> oversize (tcfg f) (length answer)"
    and "frame answer = Inr (concat chunks)"
    and "f' = tcp_run (TDrained q None # deliveries q c now chunks @ [TWake q now, TWake q now]) f"
  obtains g where "alike f g" and "unread c [] g" and "f' = release_to_pool now q c (Inr (Some answer)) g"
proof -
  let ?f1 = "tcp_step (TDrained q None) f"
  let ?f2 = "tcp_run (deliveries q c now chunks) ?f1"
  have "reading f q c now answer [] ?f1"
    using assms(1-4) by (simp add: reading_def alike_def unread_def tcp_drained_def new_reader_def)
  from reading_deliveries [OF this _ assms(5)] assms(6)
  have "reading f q c now answer (concat chunks) ?f2" by simp
  from reading_all [OF this assms(6,5)] that show thesis by (auto simp: assms(7) tcp_run_def)
qed

lemma answer_read:
  assumes "dict_get (phases f) q = Some (Draining c)" and "c < length (conns f)" and "\<not> cclosing (conns f ! c)"
    and "cin (conns f ! c) = new_reader" and "\<not> tclosed f" and "lockq f = []"
    and "\<not> oversize (tcfg f) (length answer)" and "int (length (pool f)) < tcp_pool_max_conns (tcfg f)"
    and "frame answer = Inr (concat chunks)"
    and "f' = tcp_run (TDrained q None # deliveries q c now chunks @ [TWake q now, TWake q now]) f"
  shows "treturned f' = (q, Inr (Some answer)) # treturned f \<and> tmetrics f' = tmetrics f \<and>
    pool f' = pool f @ [(c, now)] \<and> rbuf (cin (conns f' ! c)) = []"
proof -
  obtain g where g: "alike f g" "unread c [] g" "f' = release_to_pool now q c (Inr (Some answer)) g"
    by (rule answer_released [OF assms(1-4,7,9,10)])
  then show ?thesis
    using assms(5,6,8) by (auto simp: alike_def unread_def release_to_pool_def release_locked_def tcp_leave_def unlock_def at_eof_def)
qed

text \<open>The states of a query that meets an answer over the size limit: it reads the length, or it has failed.\<close>

definition refusing :: "tcp_forwarder \<Rightarrow> nat \<Rightarrow> nat \<Rightarrow> bytes \<Rightarrow> tcp_forwarder \<Rightarrow> bool" where
  "refusing f0 q c a f \<longleftrightarrow>
     alike f0 f \<and> dict_get (phases f) q = Some (ReadLength c) \<and> unread c a f \<or>
     dict_get (phases f) q = Some (Ending (Inr None) True) \<and> c < length (conns f) \<and> cclosing (conns f ! c) \<and>
       pool f = pool f0 \<and> treturned f = treturned f0 \<and>
       tmetrics f = inc ''upstream_tcp_protocol_errors_total'' (inc ''dropped_oversize_total'' (inc ''dropped_total'' (tmetrics f0)))"

lemma refusing_deliver: "refusing f0 q c a f \<Longrightarrow> refusing f0 q c (a @ b) (tcp_step (TDeliver c b) f)"
  using unread_deliver [of c a f b] by (auto simp: refusing_def conn_update_def)

lemma refusing_wake:
  assumes r: "refusing f0 q c a f" and fr: "frame answer = Inr (a @ d)" and sz: "oversize (tcfg f0) (length answer)"
  shows "refusing f0 q c a (tcp_step (TWake q now) f)"
    and "2 \<le> length a \<Longrightarrow> dict_get (phases (tcp_step (TWake q now) f)) q = Some (Ending (Inr None) True)"
proof -
  obtain p where p: "a @ d = p @ answer" "length p = 2" "from_bytes p = length answer" using fr by (rule frame_split)
  from r consider (len) "alike f0 f" "dict_get (phases f) q = Some (ReadLength c)" "unread c a f" "2 \<le> length a"
    | (short) "tcp_step (TWake q now) f = f" "length a < 2"
    | (over) "tcp_step (TWake q now) f = f" "dict_get (phases f) q = Some (Ending (Inr None) True)"
    using wake_pending(1) [of f q c a now] by (cases "2 \<le> length a") (auto simp: refusing_def tcp_wake_def)
  then have "refusing f0 q c a (tcp_step (TWake q now) f) \<and>
      (2 \<le> length a \<longrightarrow> dict_get (phases (tcp_step (TWake q now) f)) q = Some (Ending (Inr None) True))"
  proof cases
    case len
    then have "take 2 a = p" using p by (metis append_eq_conv_conj append_eq_append_conv_if)
    moreover have o: "oversize (tcfg f) (length answer)" using len(1) sz by (simp add: alike_def)
    ultimately obtain g where g: "alike f g" "unread c (drop 2 a) g" "tcp_step (TWake q now) f = tcp_oversize q c g"
      using wake_length [OF len(2-4), of "length answer" now] p by auto
    then show ?thesis using alike_trans [OF len(1) g(1)]
      by (simp add: refusing_def tcp_oversize_def tcp_fail_def close_writer_def alike_def unread_def)
  qed (use r in simp_all)
  then show "refusing f0 q c a (tcp_step (TWake q now) f)"
    and "2 \<le> length a \<Longrightarrow> dict_get (phases (tcp_step (TWake q now) f)) q = Some (Ending (Inr None) True)" by blast+
qed

lemma refusing_deliveries:
  assumes "refusing f0 q c a f" and "frame answer = Inr (a @ concat chunks)" and "oversize (tcfg f0) (length answer)"
  shows "refusing f0 q c (a @ concat chunks) (tcp_run (deliveries q c now chunks) f)"
  using assms(1,2)
proof (induction chunks arbitrary: a f)
  case (Cons ch chunks)
  have "refusing f0 q c (a @ ch) (tcp_step (TWake q now) (tcp_step (TDeliver c ch) f))"
    using Cons.prems by (intro refusing_wake(1) [OF refusing_deliver _ assms(3), where d = "concat chunks"]) simp_all
  from Cons.IH [OF this] Cons.prems show ?case by (simp add: deliveries_def tcp_run_def)
qed (simp add: deliveries_def tcp_run_def)

lemma answer_refused:
  assumes "dict_get (phases f) q = Some (Draining c)" and "c < length (conns f)" and "\<not> cclosing (conns f ! c)"
    and "cin (conns f ! c) = new_reader" and sz: "oversize (tcfg f) (length answer)"
    and fr: "frame answer = Inr (concat chunks)"
    and f': "f' = tcp_run (TDrained q None # deliveries q c now chunks @ [TWake q now, TWake q now]) f"
  shows "refusing f q c (concat chunks) f'" and "dict_get (phases f') q = Some (Ending (Inr None) True)"
proof -
  let ?f1 = "tcp_step (TDrained q None) f"
  let ?f2 = "tcp_run (deliveries q c now chunks) ?f1"
  have "refusing f q c [] ?f1"
    using assms(1-4) by (simp add: refusing_def alike_def unread_def tcp_drained_def new_reader_def)
  from refusing_deliveries [OF this _ sz] fr have r2: "refusing f q c (concat chunks) ?f2" by simp
  have fr': "frame answer = Inr (concat chunks @ [])" using fr by simp
  have len: "2 \<le> length (concat chunks)" using fr by (auto elim: frame_split)
  have "f' = tcp_step (TWake q now) (tcp_step (TWake q now) ?f2)" by (simp add: f' tcp_run_def)
  with refusing_wake [OF refusing_wake(1) [OF r2 fr' sz] fr' sz] len
  show "refusing f q c (concat chunks) f'" and "dict_get (phases f') q = Some (Ending (Inr None) True)" by simp_all
qed

text \<open>A query that finds the pool empty: it opens a connection and writes its message.\<close>

lemma query_on_new_connection:
  assumes "\<not> tclosed f" and "lockq f = []" and "pool f = []" and "q \<notin> set (keys (phases f))"
    and "fst (gate_enter (tgate f))" and "frame wire = Inr bs"
    and "f' = tcp_run [TQuery q wire now, TConnect q Connected] f"
  shows "dict_get (phases f') q = Some (Draining (length (conns f)))"
    and "conns f' = conns f @ [\<lparr>cin = new_reader, cout = bs, cclosing = False\<rparr>]"
    and "\<not> tclosed f'" and "lockq f' = []" and "pool f' = []" and "tcfg f' = tcfg f" and "treturned f' = treturned f"
proof -
  obtain g where g: "gate_enter (tgate f) = (True, g)" using assms(5) by (cases "gate_enter (tgate f)") auto
  let ?h = "tcp_query q wire now f"
  have "f' = tcp_connect q Connected ?h" using assms(4,7) by (simp add: tcp_run_def)
  moreover have "dict_get (phases ?h) q = Some (Connecting wire)" "conns ?h = conns f" "\<not> tclosed ?h" "lockq ?h = []"
    "pool ?h = []" "tcfg ?h = tcfg f" "treturned ?h = treturned f"
    using assms(1-3) g by (simp_all add: tcp_query_def acquire_from_pool_def acquire_step_def unlock_def)
  ultimately show "dict_get (phases f') q = Some (Draining (length (conns f)))"
    and "conns f' = conns f @ [\<lparr>cin = new_reader, cout = bs, cclosing = False\<rparr>]"
    and "\<not> tclosed f'" and "lockq f' = []" and "pool f' = []" and "tcfg f' = tcfg f" and "treturned f' = treturned f"
    using assms(6) by (simp_all add: tcp_connect_def tcp_send_def)
qed

text \<open>
  C14. A query on an open connection with nothing unread, to which the upstream answers in time with
  one message behind its length prefix, however the bytes are split into chunks. If the message is over
  the configured size, it is refused: the query fails, the connection is closed and the message is
  counted as dropped and as a protocol error. Otherwise its bytes are the result of the query and no
  counter moves; what becomes of the connection depends on the pool. With an open forwarder, nobody at
  the lock and room in the pool, the connection is the newest one of the pool with nothing left unread,
  and the query has returned. With a full pool, with no pool, or with a closed forwarder the connection
  is closed, and the next step of the query returns the answer. With somebody at the lock the query,
  holding the answer, takes its place in the queue.
\<close>

theorem tcp_answer_roundtrip:
  assumes "dict_get (phases f) q = Some (Draining c)" and "c < length (conns f)" and "\<not> cclosing (conns f ! c)"
    and "cin (conns f ! c) = new_reader" and "frame answer = Inr (concat chunks)"
    and "f' = tcp_run (TDrained q None # deliveries q c now chunks @ [TWake q now, TWake q now]) f"
  shows "if oversize (tcfg f) (length answer) then
      pool f' = pool f \<and> cclosing (conns f' ! c) \<and> treturned (tcp_step (TFinish q) f') = (q, Inr None) # treturned f \<and>
      tmetrics f' = inc ''upstream_tcp_protocol_errors_total'' (inc ''dropped_oversize_total'' (inc ''dropped_total'' (tmetrics f)))
    else tmetrics f' = tmetrics f \<and> rbuf (cin (conns f' ! c)) = [] \<and>
      (if tclosed f \<or> tcp_pool_max_conns (tcfg f) \<le> 0 then
         pool f' = pool f \<and> cclosing (conns f' ! c) \<and>
         treturned (tcp_step (TFinish q) f') = (q, Inr (Some answer)) # treturned f
       else if lockq f \<noteq> [] then
         pool f' = pool f \<and> \<not> cclosing (conns f' ! c) \<and> lockq f' = lockq f @ [ForQuery q] \<and>
         dict_get (phases f') q = Some (ReleaseWait c (Inr (Some answer)))
       else if int (length (pool f)) \<ge> tcp_pool_max_conns (tcfg f) then
         pool f' = pool f \<and> cclosing (conns f' ! c) \<and>
         treturned (tcp_step (TLock q now) f') = (q, Inr (Some answer)) # treturned f
       else
         pool f' = pool f @ [(c, now)] \<and> \<not> cclosing (conns f' ! c) \<and>
         treturned f' = (q, Inr (Some answer)) # treturned f)"
proof (cases "oversize (tcfg f) (length answer)")
  case True
  from answer_refused [OF assms(1-4) True assms(5,6)] True show ?thesis
    by (auto simp: refusing_def tcp_finish_def tcp_leave_def)
next
  case False
  obtain g where g: "alike f g" "unread c [] g" "f' = release_to_pool now q c (Inr (Some answer)) g"
    by (rule answer_released [OF assms(1-4) False assms(5,6)])
  have "tclosed g = tclosed f" "tcfg g = tcfg f" "lockq g = lockq f" "pool g = pool f" "tmetrics g = tmetrics f"
    "treturned g = treturned f" using g(1) by (simp_all add: alike_def)
  note simps = this g(3) release_to_pool_def release_locked_def tcp_leave_def unlock_def at_eof_def tcp_finish_def
    lock_proceed_def close_writer_def
  from g(2) False show ?thesis by (auto simp: unread_def simps)
qed

text \<open>A first query on a new connection.\<close>

definition first_query :: "bytes \<Rightarrow> tcp_forwarder" where
  "first_query wire = tcp_run [TQuery 0 wire 0, TConnect 0 Connected] (tcp_init default_tcp_config None)"

lemma first_query_state:
  assumes "frame wire = Inr bs"
  shows "first_query wire =
    (tcp_init default_tcp_config None)\<lparr>phases := [(0, Draining 0)],
      conns := [\<lparr>cin = new_reader, cout = bs, cclosing = False\<rparr>]\<rparr>"
  by (simp add: first_query_def tcp_run_simps assms)

lemma tcp_answer_roundtrip_witness:
  "\<exists>f'. f' = tcp_run (TDrained 0 None # deliveries 0 0 1 [[0], [1, 9]] @ [TWake 0 1, TWake 0 1]) (first_query [5])
     \<and> treturned f' = [(0, Inr (Some [9]))]"
proof -
  have w: "frame [5] = Inr [0, 1, 5]" and a: "frame [9] = Inr (concat [[0], [1, 9]])"
    by (simp_all add: frame_def to_bytes2_def)
  note f = first_query_state [OF w]
  have "dict_get (phases (first_query [5])) 0 = Some (Draining 0)" "0 < length (conns (first_query [5]))"
    "\<not> cclosing (conns (first_query [5]) ! 0)" "cin (conns (first_query [5]) ! 0) = new_reader"
    by (simp_all add: f)
  note r = tcp_answer_roundtrip [OF this a refl, of 1]
  have "\<not> tclosed (first_query [5])" "lockq (first_query [5]) = []"
    "\<not> oversize (tcfg (first_query [5])) (length [9 :: byte])"
    "int (length (pool (first_query [5]))) < tcp_pool_max_conns (tcfg (first_query [5]))"
    "0 < tcp_pool_max_conns (tcfg (first_query [5]))" "treturned (first_query [5]) = []"
    by (simp_all add: f tcp_init_def default_tcp_config_def oversize_def)
  with r show ?thesis by simp
qed

text \<open>
  C27. A cancelled query poisons its connection. When a query is cancelled after it was sent, its
  connection goes back to the pool although its answer is still to come; the next query takes the same
  connection, and when the upstream then answers the first query, the second one returns that answer as
  its own.
\<close>

theorem cancelled_query_poisons_pool:
  assumes "frame wire = Inr bs" and "frame wire' = Inr bs'" and "frame answer = Inr (concat chunks)"
    and "f = tcp_run [TDrained 0 None, TCancel 0 1, TQuery 1 wire' 2] (first_query wire)"
    and "f' = tcp_run (TDrained 1 None # deliveries 1 0 3 chunks @ [TWake 1 3, TWake 1 3]) f"
  shows "cout (conns f ! 0) = bs @ bs' \<and> treturned f' = [(1, Inr (Some answer)), (0, Inl CancelledError)]"
proof -
  have f: "f = (tcp_init default_tcp_config None)\<lparr>phases := [(1, Draining 0)], treturned := [(0, Inl CancelledError)],
      conns := [\<lparr>cin = new_reader, cout = bs @ bs', cclosing = False\<rparr>]\<rparr>"
    unfolding assms(4) first_query_state [OF assms(1)] by (simp add: tcp_run_simps assms(2))
  have len: "length answer < 65536" using assms(3) frame_Inr_iff by blast
  have "dict_get (phases f) 1 = Some (Draining 0)" "0 < length (conns f)"
    "\<not> cclosing (conns f ! 0)" "cin (conns f ! 0) = new_reader" "\<not> tclosed f" "lockq f = []"
    "\<not> oversize (tcfg f) (length answer)"
    "int (length (pool f)) < tcp_pool_max_conns (tcfg f)"
    using len by (simp_all add: f tcp_init_def default_tcp_config_def oversize_def)
  from answer_read [OF this assms(3,5)] show ?thesis by (simp add: f)
qed

lemma cancelled_query_poisons_pool_witness:
  "treturned (tcp_run (TDrained 1 None # deliveries 1 0 3 [[0, 1, 9]] @ [TWake 1 3, TWake 1 3])
     (tcp_run [TDrained 0 None, TCancel 0 1, TQuery 1 [6] 2] (first_query [5]))) =
   [(1, Inr (Some [9])), (0, Inl CancelledError)]"
proof -
  have "frame [5] = Inr [0, 1, 5]" "frame [6] = Inr [0, 1, 6]" "frame [9] = Inr (concat [[0, 1, 9]])"
    by (simp_all add: frame_def to_bytes2_def)
  from cancelled_query_poisons_pool [OF this refl refl] show ?thesis by simp
qed

section \<open>A connection that was given up\<close>

lemma conn_kept:
  assumes "d \<noteq> c"
  shows "conns (close_writer d f) ! c = conns f ! c" and "conns (tcp_fail q d f) ! c = conns f ! c"
    and "conns (tcp_send q d wire f) ! c = conns f ! c" and "conns (release_locked now q d r f) ! c = conns f ! c"
    and "conns (release_to_pool now q d r f) ! c = conns f ! c" and "conns (set_reader d rd f) ! c = conns f ! c"
  using assms by (auto simp: close_writer_def tcp_fail_def tcp_send_def release_locked_def release_to_pool_def split: sum.split)

lemma conn_kept_acquire:
  assumes "c \<notin> idle f"
  shows "conns (acquire_step q wire now f) ! c = conns f ! c" and "conns (acquire_from_pool q wire now f) ! c = conns f ! c"
proof -
  have n: "fst (last (pool f)) \<noteq> c" if "pool f \<noteq> []" using that assms by fastforce
  have "conns (acquire_step q wire now (f\<lparr>lockq := L\<rparr>)) ! c = conns f ! c" for L
    by (auto simp: acquire_step_def Let_def conn_kept n)
  from this [of "lockq f"] this show "conns (acquire_step q wire now f) ! c = conns f ! c"
    and "conns (acquire_from_pool q wire now f) ! c = conns f ! c"
    by (simp_all add: acquire_from_pool_def)
qed

lemma leaked_unused:
  assumes "tcp_ok f" and "c \<in> leaked f"
  shows "c < length (conns f)" and "c \<notin> idle f" and "c \<notin> set (closer f)" and "uses (phases f) q \<noteq> Some c"
  using assms by (auto simp: tcp_ok_def own_def pool_ok_def rest_def ownership_def ran_def)

lemma leaked_phase:
  assumes "tcp_ok f" and "c \<in> leaked f" and "dict_get (phases f) q = Some p" and "phase_conn p = Some d"
  shows "d \<noteq> c"
  using leaked_unused(4) [OF assms(1,2), of q] assms(3,4) by (auto simp: uses_def)

lemma leaked_wake:
  assumes "tcp_ok f" and "c \<in> leaked f"
  shows "conns (tcp_wake q now f) ! c = conns f ! c"
proof (cases "dict_get (phases f) q")
  case (Some p)
  note d = leaked_phase [OF assms Some]
  show ?thesis
  proof (cases p)
    case (ReadLength d)
    with Some d show ?thesis
      by (auto simp: tcp_wake_def tcp_oversize_def tcp_broken_def Let_def conn_kept split: read.split)
  next
    case (ReadMessage d n)
    with Some d show ?thesis
      by (auto simp: tcp_wake_def tcp_oversize_def tcp_broken_def Let_def conn_kept split: read.split)
  qed (use Some in \<open>simp_all add: tcp_wake_def\<close>)
qed (simp add: tcp_wake_def)

lemma leaked_step:
  assumes "tcp_ok f" and "c \<in> leaked f" and "\<forall>x. TLost c x \<noteq> e"
  shows "cclosing (conns (tcp_step e f) ! c) = cclosing (conns f ! c) \<and> c \<in> leaked (tcp_step e f)"
proof -
  note u = leaked_unused [OF assms(1,2)] and d = leaked_phase [OF assms(1,2)]
  have "leaked f \<subseteq> leaked (tcp_step e f)"
  proof (cases "\<exists>q now. e = TCancel q now")
    case True
    then show ?thesis by (auto simp: tcp_cancel_def split: option.split phase.split)
  next
    case False
    then show ?thesis using tcp_step_leaked [of e f] by auto
  qed
  moreover have "cclosing (conns (tcp_step e f) ! c) = cclosing (conns f ! c)"
  proof (cases e)
    case (TQuery q wire now)
    with u show ?thesis by (auto simp: tcp_query_def conn_kept_acquire split: prod.split bool.split)
  next
    case (TConnect q out)
    with u show ?thesis
      by (auto simp: tcp_connect_def conn_kept nth_append split: option.split phase.split connect_outcome.split)
  next
    case (TDrained q x)
    with d show ?thesis by (auto simp: tcp_drained_def conn_kept split: option.split phase.split)
  next
    case (TWake q now)
    with assms show ?thesis by (simp add: leaked_wake)
  next
    case (TTimeout q)
    with d show ?thesis by (auto simp: tcp_timeout_def conn_kept split: option.split phase.split)
  next
    case (TCancel q now)
    with d show ?thesis by (auto simp: tcp_cancel_def conn_kept give_up_def split: option.split phase.split)
  next
    case (TLock q now)
    with d u show ?thesis by (auto simp: lock_proceed_def conn_kept conn_kept_acquire split: option.split phase.split)
  next
    case (TFinish q)
    then show ?thesis by (auto simp: tcp_finish_def split: option.split phase.split)
  next
    case TCloseNext
    with u show ?thesis by (auto simp: close_next_def conn_kept split: list.split)
  qed (use assms(3) in \<open>auto simp: conn_update_def nth_list_update tcp_close_def close_proceed_def close_locked_def\<close>)
  ultimately show ?thesis using assms(2) by blast
qed

lemma leaked_run:
  "tcp_ok f \<Longrightarrow> c \<in> leaked f \<Longrightarrow> \<forall>x. TLost c x \<notin> set evs \<Longrightarrow>
     cclosing (conns (tcp_run evs f) ! c) = cclosing (conns f ! c) \<and> c \<in> leaked (tcp_run evs f)"
  unfolding tcp_run_def by (induction evs arbitrary: f) (auto simp: leaked_step tcp_ok_step)

text \<open>
  C29. A query that is cancelled while it waits for the lock to return its connection loses it for good:
  whatever happens afterwards, the connection stays open until the upstream drops it, yet it is not in the
  pool, no query uses it, and \<open>close\<close> never closes it.
\<close>

theorem cancelled_release_leaks:
  assumes "f = tcp_run evs (tcp_init cfg M)" and "dict_get (phases f) q = Some (ReleaseWait c r)"
    and "g = tcp_run (TCancel q now # evs') f" and "\<forall>x. TLost c x \<notin> set evs'"
  shows "cclosing (conns g ! c) = cclosing (conns f ! c) \<and> c \<notin> fst ` set (pool g) \<and> c \<notin> set (closer g) \<and>
    (\<forall>q'. uses (phases g) q' \<noteq> Some c)"
proof -
  let ?f1 = "tcp_step (TCancel q now) f"
  have f: "tcp_ok f" unfolding assms(1) by (rule tcp_ok_run) simp
  have f1: "tcp_ok ?f1" by (rule tcp_ok_step [OF f])
  have l: "c \<in> leaked ?f1" "conns ?f1 = conns f" using assms(2) by (simp_all add: tcp_cancel_def give_up_def)
  have g: "g = tcp_run evs' ?f1" by (simp add: assms(3) tcp_run_def)
  have "tcp_ok g" unfolding g by (rule tcp_ok_run [OF f1])
  with leaked_run [OF f1 l(1) assms(4)] l(2) leaked_unused [of g c] show ?thesis by (simp add: g)
qed

text \<open>
  Two queries have connections; the first one is released, has expired when a third query comes, and is
  being closed under the lock when the second query has read its answer and wants to release its own.
\<close>

definition contended :: "tcp_event list" where
  "contended = [TQuery 0 [5] 0, TConnect 0 Connected, TQuery 1 [6] 0, TConnect 1 Connected, TCancel 0 1,
     TQuery 2 [7] 100, TDrained 1 None, TDeliver 1 [0, 1, 9], TWake 1 100, TWake 1 100]"

lemma contended_state:
  "dict_get (phases (tcp_run contended (tcp_init default_tcp_config None))) 1 = Some (ReleaseWait 1 (Inr (Some [9]))) \<and>
   \<not> cclosing (conns (tcp_run contended (tcp_init default_tcp_config None)) ! 1)"
  by (simp add: contended_def tcp_run_simps frame_def to_bytes2_def tcp_wake_def readexactly_def conn_update_def feed_def
      oversize_def from_bytes_def Let_def)

lemma cancelled_release_leaks_witness:
  "\<exists>g. g = tcp_run [TCancel 1 101, TClose, TLock 2 101, TCloseLock]
       (tcp_run contended (tcp_init default_tcp_config None)) \<and>
     \<not> cclosing (conns g ! 1) \<and> 1 \<notin> fst ` set (pool g) \<and> 1 \<notin> set (closer g)"
  using cancelled_release_leaks [OF refl contended_state [THEN conjunct1] refl, of "[TClose, TLock 2 101, TCloseLock]" 101]
    contended_state by simp

section \<open>The lock is never stuck\<close>

text \<open>One who has the lock gives it back after closing at most the connections of the pool.\<close>

lemma acquire_step_progress:
  "lockq (acquire_step q wire t f) = tl (lockq f) \<or>
   lockq (acquire_step q wire t f) = lockq f \<and> length (pool (acquire_step q wire t f)) < length (pool f) \<and>
     dict_get (phases (acquire_step q wire t f)) q = Some (AcquireClosing wire t)"
  by (auto simp: acquire_step_def Let_def)

lemma acquire_frees:
  assumes "lockq f = ForQuery q # L" and "dict_get (phases f) q \<in> {Some (AcquireWait wire t), Some (AcquireClosing wire t)}"
  shows "\<exists>n \<le> Suc (length (pool f)). lockq (tcp_run (replicate n (TLock q now)) f) = L"
  using assms
proof (induction "length (pool f)" arbitrary: f rule: less_induct)
  case less
  let ?f1 = "tcp_step (TLock q now) f"
  have f1: "?f1 = acquire_step q wire t f" using less.prems by (auto simp: lock_proceed_def)
  from acquire_step_progress [of q wire t f] consider "lockq ?f1 = L"
    | "lockq ?f1 = ForQuery q # L" "length (pool ?f1) < length (pool f)" "dict_get (phases ?f1) q = Some (AcquireClosing wire t)"
    unfolding f1 using less.prems(1) by auto
  then show ?case
  proof cases
    case 1
    then show ?thesis by (intro exI [of _ 1]) (simp add: tcp_run_def)
  next
    case 2
    then obtain n where "n \<le> Suc (length (pool ?f1))" "lockq (tcp_run (replicate n (TLock q now)) ?f1) = L"
      using less.hyps [of ?f1] by auto
    with 2(2) show ?thesis by (intro exI [of _ "Suc n"]) (simp add: tcp_run_def)
  qed
qed

lemma release_frees:
  assumes "lockq f = ForQuery q # L"
    and "dict_get (phases f) q = Some (ReleaseWait c r) \<or> dict_get (phases f) q = Some (ReleaseClosing r)"
  shows "\<exists>n \<le> k + 2. lockq (tcp_run (replicate n (TLock q now)) f) = L"
proof (cases "lockq (tcp_step (TLock q now) f) = L")
  case True
  then show ?thesis by (intro exI [of _ 1]) (simp add: tcp_run_def)
next
  case False
  with assms have "lockq (tcp_step (TLock q now) (tcp_step (TLock q now) f)) = L"
    by (auto simp: lock_proceed_def release_locked_def split: if_splits)
  then show ?thesis by (intro exI [of _ 2]) (simp add: tcp_run_def numeral_2_eq_2)
qed

definition lock_event :: "tcp_event \<Rightarrow> bool" where
  "lock_event e = (case e of TLock q now \<Rightarrow> True | TCloseLock \<Rightarrow> True | _ \<Rightarrow> False)"

lemma lock_head_leaves:
  assumes "tcp_ok f" and "lockq f = t # L"
  shows "\<exists>evs. length evs \<le> length (pool f) + 2 \<and> list_all lock_event evs \<and> lockq (tcp_run evs f) = L"
proof (cases t)
  case ForClose
  with assms(2) have "lockq (tcp_run [TCloseLock] f) = L" by (simp add: tcp_run_def close_proceed_def close_locked_def)
  then show ?thesis by (intro exI [of _ "[TCloseLock]"]) (simp add: lock_event_def)
next
  case (ForQuery q)
  then have "q \<in> queries locking (phases f)" using assms by (auto simp: tcp_ok_def lock_ok_def lock_inv_def)
  then obtain p where p: "dict_get (phases f) q = Some p" "locking p" by (auto simp: queries_def)
  have "\<exists>n \<le> length (pool f) + 2. lockq (tcp_run (replicate n (TLock q 0)) f) = L"
  proof (cases p)
    case (AcquireWait wire t')
    with p assms(2) ForQuery acquire_frees [of f q L wire t' 0] show ?thesis by (auto intro: le_SucI)
  next
    case (AcquireClosing wire t')
    with p assms(2) ForQuery acquire_frees [of f q L wire t' 0] show ?thesis by (auto intro: le_SucI)
  next
    case (ReleaseWait c r)
    with p assms(2) ForQuery release_frees [of f q L c r] show ?thesis by simp
  next
    case (ReleaseClosing r)
    with p assms(2) ForQuery release_frees [of f q L 0 r] show ?thesis by simp
  qed (use p in simp_all)
  then obtain n where "n \<le> length (pool f) + 2" "lockq (tcp_run (replicate n (TLock q 0)) f) = L" by blast
  then show ?thesis by (intro exI [of _ "replicate n (TLock q 0)"]) (simp add: lock_event_def list_all_iff)
qed

text \<open>
  C28. The lock of the pool is never stuck: from every state that the forwarder can reach, steps of those
  who hold the lock or wait for it, and of nobody else, bring it back to being free, and then a closed
  forwarder has an empty pool.
\<close>

theorem pool_lock_drains:
  "\<exists>evs'. list_all lock_event evs' \<and>
     (let f = tcp_run (evs @ evs') (tcp_init cfg M) in lockq f = [] \<and> (tclosed f \<longrightarrow> pool f = []))"
proof -
  have "\<exists>evs'. list_all lock_event evs' \<and> lockq (tcp_run evs' f) = []" if "tcp_ok f" for f
    using that
  proof (induction "lockq f" arbitrary: f)
    case Nil
    then show ?case by (intro exI [of _ "[]"]) (simp add: tcp_run_def)
  next
    case (Cons t L)
    obtain a where a: "list_all lock_event a" "lockq (tcp_run a f) = L"
      using lock_head_leaves [OF Cons.prems, of t L] Cons.hyps(2) by auto
    obtain b where "list_all lock_event b" "lockq (tcp_run b (tcp_run a f)) = []"
      using Cons.hyps(1) [of "tcp_run a f"] a(2) tcp_ok_run [OF Cons.prems] by auto
    with a(1) show ?case by (intro exI [of _ "a @ b"]) (simp add: tcp_run_def)
  qed
  from this [of "tcp_run evs (tcp_init cfg M)"] obtain evs'
    where e: "list_all lock_event evs'" "lockq (tcp_run evs' (tcp_run evs (tcp_init cfg M))) = []"
    using tcp_ok_run [OF tcp_ok_init] by blast
  let ?f = "tcp_run (evs @ evs') (tcp_init cfg M)"
  have l: "lockq ?f = []" using e(2) by (simp add: tcp_run_def)
  have "lock_ok ?f" using tcp_ok_run [OF tcp_ok_init] by (simp add: tcp_ok_def)
  with l have "tclosed ?f \<longrightarrow> pool ?f = []" by (simp add: lock_ok_def lock_inv_def)
  with e(1) l show ?thesis by (intro exI [of _ evs']) (simp add: Let_def)
qed

lemma pool_lock_drains_witness:
  "\<exists>evs'. list_all lock_event evs' \<and> lockq (tcp_run (contended @ TClose # evs') (tcp_init default_tcp_config None)) = []"
  using pool_lock_drains [of "contended @ [TClose]" default_tcp_config None] by (auto simp: Let_def)

end
