(* ===== verification/Relay_Forwarder.thy ===== *)
theory Relay_Forwarder
  imports Relay_Types Metrics
begin

text \<open>
  The relay client of \<^verbatim>\<open>relay_forwarder.py\<close>. A query is one HTTP exchange: the request that is posted
  (if any) is computed first, then the outcome of the exchange, which is an argument, is turned into an
  answer, no answer or an exception. The HTTP library is third-party code; an outcome is what its
  \<^verbatim>\<open>post\<close> and \<^verbatim>\<open>read\<close> calls return or raise.
\<close>

section \<open>State and HTTP interface\<close>

record relay_forwarder =
  relay_cfg :: relay_config
  relay_closed :: bool

definition relay_init :: "relay_config \<Rightarrow> relay_forwarder" where
  "relay_init cfg = \<lparr>relay_cfg = cfg, relay_closed = False\<rparr>"

text \<open>The flag says whether the HTTP session has to be closed.\<close>

definition relay_close :: "relay_forwarder \<Rightarrow> bool \<times> relay_forwarder" where
  "relay_close f = (if relay_closed f then (False, f) else (True, f\<lparr>relay_closed := True\<rparr>))"

datatype transport_error = TimedOut | ClientError | OtherFailure exn

datatype http_outcome = NoResponse transport_error | Status int "transport_error + bytes"

record http_request =
  http_url :: string
  http_body :: bytes
  http_headers :: "(string, string) dict"

section \<open>Query\<close>

definition relay_payload :: "bytes \<Rightarrow> ustr \<Rightarrow> relay_request" where
  "relay_payload wire_query request_id =
     \<lparr>req_v = 1, req_id = request_id, req_items = [\<lparr>ireq_id = ustr ''0'', q_b64 = b64encode wire_query\<rparr>]\<rparr>"

definition relay_body :: "bytes \<Rightarrow> ustr \<Rightarrow> bytes" where
  "relay_body wire_query request_id = ascii_bytes (dumps (to_dict (relay_payload wire_query request_id)))"

definition auth_headers :: "relay_config \<Rightarrow> (string, string) dict" where
  "auth_headers cfg =
     (case auth_token cfg of
        None \<Rightarrow> []
      | Some t \<Rightarrow> if t = [] then [] else [(''Authorization'', ''Bearer '' @ t)])"

definition relay_http_request :: "relay_config \<Rightarrow> bytes \<Rightarrow> ustr \<Rightarrow> http_request" where
  "relay_http_request cfg wire_query request_id =
     \<lparr>http_url = dns_url cfg, http_body = relay_body wire_query request_id,
      http_headers =
        [(''Content-Type'', ''application/json''), (''Accept'', ''application/json''), (''Accept-Encoding'', ''gzip'')] @
        auth_headers cfg\<rparr>"

definition count_oversize :: "metrics option \<Rightarrow> metrics option" where
  "count_oversize M = inc ''dropped_oversize_total'' (inc ''dropped_total'' M)"

abbreviation client_error :: "metrics option \<Rightarrow> metrics option" where
  "client_error M \<equiv> inc ''upstream_relay_client_errors_total'' M"

abbreviation protocol_error :: "metrics option \<Rightarrow> metrics option" where
  "protocol_error M \<equiv> inc ''upstream_relay_protocol_errors_total'' M"

text \<open>\<open>_parse_json\<close>: a UnicodeDecodeError is not caught.\<close>

definition relay_parse_json :: "bytes \<Rightarrow> metrics option \<Rightarrow> json result \<times> metrics option" where
  "relay_parse_json raw M =
     (case utf8_decode raw of
        None \<Rightarrow> (Inl UnicodeDecodeError, M)
      | Some s \<Rightarrow>
          (case loads s of
             None \<Rightarrow> (Inl (ValueError ''relay response invalid JSON''), client_error M)
           | Some (JObj ms) \<Rightarrow> (Inr (JObj ms), M)
           | Some _ \<Rightarrow> (Inl (ValueError ''relay response must be an object''), protocol_error M)))"

definition relay_parse_response :: "json \<Rightarrow> metrics option \<Rightarrow> relay_response result \<times> metrics option" where
  "relay_parse_response data M =
     (case from_dict data of
        Inl x \<Rightarrow> (Inl x, protocol_error M)
      | Inr r \<Rightarrow> (Inr r, M))"

text \<open>What is done with the bytes of a complete response of status 200.\<close>

definition relay_read_item :: "relay_response \<Rightarrow> metrics option \<Rightarrow> bytes option result \<times> metrics option" where
  "relay_read_item r M =
     (if resp_v r \<noteq> 1 then (Inl (ValueError ''relay response version mismatch''), protocol_error M)
      else
        (case find (\<lambda>it. iresp_id it = ustr ''0'') (resp_items r) of
           None \<Rightarrow> (Inl (ValueError ''relay response missing item''), protocol_error M)
         | Some it \<Rightarrow>
             if iresp_ok it then
               (case a_b64 it of
                  None \<Rightarrow> (Inl (ValueError ''relay response missing payload''), protocol_error M)
                | Some a \<Rightarrow>
                    (case b64decode a of
                       None \<Rightarrow> (Inl (ValueError ''relay response payload invalid base64''), protocol_error M)
                     | Some w \<Rightarrow> (Inr (Some w), M)))
             else (Inr None, M)))"

definition relay_finish :: "relay_config \<Rightarrow> bytes \<Rightarrow> metrics option \<Rightarrow> bytes option result \<times> metrics option" where
  "relay_finish cfg raw M =
     (if int (length raw) > max_response_bytes (limits cfg)
      then (Inl (ValueError ''relay response exceeds max_response_bytes''), client_error M)
      else
        (case relay_parse_json raw M of
           (Inl x, M1) \<Rightarrow> (Inl x, M1)
         | (Inr data, M1) \<Rightarrow>
             (case relay_parse_response data M1 of
                (Inl x, M2) \<Rightarrow> (Inl x, M2)
              | (Inr r, M2) \<Rightarrow> relay_read_item r M2)))"

definition transport_failed :: "transport_error \<Rightarrow> metrics option \<Rightarrow> bytes option result \<times> metrics option" where
  "transport_failed e M =
     (case e of
        TimedOut \<Rightarrow> (Inl TimeoutError, client_error (inc ''upstream_relay_timeouts_total'' M))
      | ClientError \<Rightarrow> (Inr None, client_error M)
      | OtherFailure x \<Rightarrow> (Inl x, M))"

definition relay_exchange :: "relay_config \<Rightarrow> http_outcome \<Rightarrow> metrics option \<Rightarrow> bytes option result \<times> metrics option" where
  "relay_exchange cfg outcome M =
     (case outcome of
        NoResponse e \<Rightarrow> transport_failed e M
      | Status status body \<Rightarrow>
          if status \<noteq> 200 then
            (let M1 = client_error M in
             (Inr None,
              if 400 \<le> status \<and> status < 500 then inc ''upstream_relay_http_4xx_total'' M1
              else if 500 \<le> status \<and> status < 600 then inc ''upstream_relay_http_5xx_total'' M1
              else M1))
          else (case body of Inl e \<Rightarrow> transport_failed e M | Inr raw \<Rightarrow> relay_finish cfg raw M))"

text \<open>
  The whole of \<open>query\<close>: the result, the metrics, and the request that was posted, if one was. The
  outcome is that of the exchange the request starts.
\<close>

definition relay_query ::
  "relay_forwarder \<Rightarrow> bytes \<Rightarrow> ustr \<Rightarrow> http_outcome \<Rightarrow> metrics option
     \<Rightarrow> bytes option result \<times> metrics option \<times> http_request option" where
  "relay_query f wire_query request_id outcome M =
     (let cfg = relay_cfg f in
      if relay_closed f then (Inr None, M, None)
      else if int (length wire_query) > per_item_max_wire_bytes (limits cfg) then (Inr None, count_oversize M, None)
      else if int (length (relay_body wire_query request_id)) > max_request_bytes (limits cfg)
      then (Inr None, count_oversize M, None)
      else
        (case relay_exchange cfg outcome
                (inc ''upstream_relay_requests_total'' (inc ''upstream_requests_total'' M)) of
           (r, M') \<Rightarrow> (r, M', Some (relay_http_request cfg wire_query request_id))))"

section \<open>Properties\<close>

lemma base64_scalar: "list_all scalar (b64encode bs)"
proof -
  have "\<forall>b \<in> set (map unat bs). b < 256" by (simp add: unat_byte_less)
  then show ?thesis
    using encode_bytes_ascii [of "map unat bs"] by (force simp: b64encode_def list_all_iff scalar_def)
qed

lemma ustr_scalar: "list_all scalar (ustr s)"
proof -
  have "code c < 55296" for c :: char by (rule less_trans [OF nat_of_char_less_256]) simp
  then show ?thesis by (auto simp: ustr_def list_all_iff scalar_def)
qed

lemma payload_printable: "list_all scalar request_id \<Longrightarrow> printable (to_dict (relay_payload wire request_id))"
  by (simp add: to_dict_def relay_payload_def base64_scalar ustr_scalar del: ustr_Cons) (simp add: scalar_def)

text \<open>
  C16. Every request that is posted says what it should: its size and the size of the wire query respect
  the configured limits, its body is JSON text that reads back as version 1 with the caller's request
  id and one item named 0, whose payload decodes to exactly the wire query; and a client that is closed
  or over a limit posts nothing and returns no answer.
\<close>

theorem relay_request_faithful:
  assumes "list_all scalar request_id"
    and "relay_query f wire request_id outcome M = (r, M', sent)"
  shows "case sent of
      None \<Rightarrow> r = Inr None
    | Some rq \<Rightarrow> \<not> relay_closed f \<and> int (length wire) \<le> per_item_max_wire_bytes (limits (relay_cfg f)) \<and>
        int (length (http_body rq)) \<le> max_request_bytes (limits (relay_cfg f)) \<and>
        http_url rq = dns_url (relay_cfg f) \<and>
        (\<exists>q. Option.bind (utf8_decode (http_body rq)) loads =
             Some (JObj [(ustr ''v'', JInt 1), (ustr ''id'', JStr request_id),
               (ustr ''items'', JList [JObj [(ustr ''id'', JStr (ustr ''0'')), (ustr ''q'', JStr q)]])]) \<and>
           b64decode q = Some wire)"
proof (cases sent)
  case None
  with assms(2) show ?thesis by (auto simp: relay_query_def Let_def split: if_splits prod.splits)
next
  case (Some rq)
  with assms(2) have rq: "rq = relay_http_request (relay_cfg f) wire request_id"
    and lim: "\<not> relay_closed f" "int (length wire) \<le> per_item_max_wire_bytes (limits (relay_cfg f))"
      "int (length (relay_body wire request_id)) \<le> max_request_bytes (limits (relay_cfg f))"
    by (auto simp: relay_query_def Let_def split: if_splits prod.splits)
  have "Option.bind (utf8_decode (relay_body wire request_id)) loads =
      Some (JObj [(ustr ''v'', JInt 1), (ustr ''id'', JStr request_id),
        (ustr ''items'', JList [JObj [(ustr ''id'', JStr (ustr ''0'')), (ustr ''q'', JStr (b64encode wire))]])])"
    using json_wire_roundtrip [OF payload_printable [OF assms(1)], of wire]
    by (simp add: relay_body_def to_dict_def relay_payload_def del: ustr_Cons)
  moreover have "b64decode (b64encode wire) = Some wire" by (rule b64_roundtrip)
  ultimately show ?thesis using lim by (auto simp: Some rq relay_http_request_def)
qed

definition sample_outcome :: http_outcome where
  "sample_outcome = Status 503 (Inr [])"

lemma relay_request_faithful_witness:
  "\<exists>rq. snd (snd (relay_query (relay_init sample_relay) [1, 2, 3] (ustr ''7'') sample_outcome None)) = Some rq \<and>
     http_url rq = dns_url sample_relay"
proof -
  have "int (length (relay_body [1, 2, 3] (ustr ''7''))) \<le> 65536" by code_simp
  then have "\<exists>rq r M. relay_query (relay_init sample_relay) [1, 2, 3] (ustr ''7'') sample_outcome None = (r, M, Some rq)"
    by (auto simp: relay_query_def relay_init_def sample_relay_def default_relay_limits_def Let_def split: prod.split)
  then obtain rq r M where q: "relay_query (relay_init sample_relay) [1, 2, 3] (ustr ''7'') sample_outcome None = (r, M, Some rq)"
    by blast
  from relay_request_faithful [OF ustr_scalar q] show ?thesis unfolding q by (simp add: relay_init_def)
qed

text \<open>
  C15. Round trip through the relay. If the relay answers with status 200 and the JSON of a response of
  version 1, within the size limit, whose first item named 0 carries an answer in base64, then the query
  returns exactly that answer.
\<close>

theorem relay_answer_roundtrip:
  assumes "resp_v resp = 1" and "\<forall>it \<in> set (resp_items resp). item_ok it"
    and "printable (response_json resp)"
    and "find (\<lambda>it. iresp_id it = ustr ''0'') (resp_items resp) = Some it"
    and "a_b64 it = Some (b64encode answer)"
    and "raw = ascii_bytes (dumps (response_json resp))" and "int (length raw) \<le> max_response_bytes (limits cfg)"
  shows "relay_exchange cfg (Status 200 (Inr raw)) M = (Inr (Some answer), M)"
proof -
  obtain s where s: "utf8_decode raw = Some s" and l: "loads s = Some (response_json resp)"
    using json_wire_roundtrip [OF assms(3)] assms(6) by (auto simp: bind_eq_Some_conv)
  have j: "relay_parse_json raw M = (Inr (response_json resp), M)"
    by (simp add: relay_parse_json_def s l response_json_def)
  have "it \<in> set (resp_items resp)" using assms(4) by (auto simp: find_Some_iff)
  then have "iresp_ok it" using assms(2,5) by (auto simp: item_ok_def split: if_splits)
  then have "relay_read_item resp M = (Inr (Some answer), M)"
    by (simp add: relay_read_item_def assms(1,4,5) b64_roundtrip del: ustr_Cons)
  moreover have "relay_parse_response (response_json resp) M = (Inr resp, M)"
    by (simp add: relay_parse_response_def from_dict_json [OF assms(2)])
  ultimately show ?thesis
    using assms(7) by (simp add: relay_exchange_def relay_finish_def j)
qed

definition sample_response :: "bytes \<Rightarrow> relay_response" where
  "sample_response answer =
     \<lparr>resp_v = 1, resp_id = ustr ''7'',
      resp_items = [\<lparr>iresp_id = ustr ''0'', iresp_ok = True, a_b64 = Some (b64encode answer), iresp_err = None\<rparr>]\<rparr>"

lemma relay_answer_roundtrip_witness:
  "relay_exchange sample_relay (Status 200 (Inr (ascii_bytes (dumps (response_json (sample_response [9, 8])))))) None =
     (Inr (Some [9, 8]), None)"
proof -
  let ?r = "sample_response [9, 8]"
  have f: "resp_v ?r = 1" "\<forall>it \<in> set (resp_items ?r). item_ok it"
    "find (\<lambda>it. iresp_id it = ustr ''0'') (resp_items ?r) = Some (hd (resp_items ?r))"
    "a_b64 (hd (resp_items ?r)) = Some (b64encode [9, 8])"
    by (simp_all add: sample_response_def item_ok_def)
  have p: "printable (response_json ?r)"
    by (simp add: sample_response_def response_json_def item_json_def base64_scalar) (simp add: scalar_def)
  have "int (length (ascii_bytes (dumps (response_json ?r)))) \<le> max_response_bytes (limits sample_relay)"
    by code_simp
  from relay_answer_roundtrip [OF f(1,2) p f(3,4) refl this] show ?thesis .
qed

text \<open>
  How an exchange is booked: by how much the client errors and the protocol errors move.
\<close>

definition booked :: "metrics option \<Rightarrow> metrics option \<Rightarrow> int \<Rightarrow> int \<Rightarrow> bool" where
  "booked M M' client protocol \<longleftrightarrow>
     mval M' ''upstream_relay_client_errors_total'' = mval M ''upstream_relay_client_errors_total'' + client \<and>
     mval M' ''upstream_relay_protocol_errors_total'' = mval M ''upstream_relay_protocol_errors_total'' + protocol"

lemma booked_none [simp]: "booked M M 0 0"
  by (simp add: booked_def)











end
