(* ===== verification/Relay_Startup.thy ===== *)
theory Relay_Startup
  imports Relay_Forwarder Stats_Report
begin

text \<open>
  The startup check of \<^verbatim>\<open>relay_startup_check.py\<close>: one request to the information endpoint of the relay,
  whose outcome is an argument, the validation of the advertised version and limits, the comparison with
  the client's limits, and what each mode makes of a failure.
\<close>

section \<open>Definitions\<close>

text \<open>\<open>RelayStartupCheckError\<close> with its message, or any other exception.\<close>

datatype startup_error = StartupCheckError string | StartupRaised exn

definition info_request :: "relay_config \<Rightarrow> string \<times> (string, string) dict" where
  "info_request cfg =
     (info_url cfg, [(''Accept'', ''application/json''), (''Accept-Encoding'', ''gzip'')] @ auth_headers cfg)"

definition limit_names :: "string list" where
  "limit_names = [''max_items'', ''max_request_bytes'', ''per_item_max_wire_bytes'', ''max_response_bytes'']"

fun parse_limit_values :: "string list \<Rightarrow> (ustr \<times> json) list \<Rightarrow> startup_error + (string, int) dict" where
  "parse_limit_values [] ms = Inr []"
| "parse_limit_values (key # ks) ms =
     (case json_int (the (obj_get ms key)) of
        None \<Rightarrow> Inl (StartupCheckError (''relay /info limit '' @ single key @ '' must be an int''))
      | Some v \<Rightarrow>
          if v \<le> 0 then Inl (StartupCheckError (''relay /info limit '' @ single key @ '' must be > 0''))
          else (case parse_limit_values ks ms of Inl x \<Rightarrow> Inl x | Inr d \<Rightarrow> Inr ((key, v) # d)))"

definition parse_limits :: "(ustr \<times> json) list \<Rightarrow> startup_error + relay_limits" where
  "parse_limits ms =
     (let missing = filter (\<lambda>k. obj_get ms k = None) limit_names in
      if missing \<noteq> [] then
        Inl (StartupCheckError (''relay /info missing limits fields: '' @ join '', '' missing))
      else
        (case parse_limit_values limit_names ms of
           Inl x \<Rightarrow> Inl x
         | Inr d \<Rightarrow>
             (let get = (\<lambda>k. the (dict_get d k)) in
              Inr \<lparr>max_items = get ''max_items'', max_request_bytes = get ''max_request_bytes'',
                   per_item_max_wire_bytes = get ''per_item_max_wire_bytes'',
                   max_response_bytes = get ''max_response_bytes''\<rparr>)))"

definition limit_pairs :: "relay_limits \<Rightarrow> relay_limits \<Rightarrow> (string \<times> int \<times> int) list" where
  "limit_pairs client relay =
     [(''max_items'', max_items client, max_items relay),
      (''max_request_bytes'', max_request_bytes client, max_request_bytes relay),
      (''per_item_max_wire_bytes'', per_item_max_wire_bytes client, per_item_max_wire_bytes relay),
      (''max_response_bytes'', max_response_bytes client, max_response_bytes relay)]"

text \<open>
  A limit advertised as the JSON value true counts as the number 1 but is printed as True, so the texts of
  the relay's limits by their names are an argument.
\<close>

definition mismatch_text :: "(string \<Rightarrow> string) \<Rightarrow> string \<times> int \<times> int \<Rightarrow> string" where
  "mismatch_text shown m =
     (case m of (name, c, r) \<Rightarrow> name @ '' (client='' @ str_int c @ '', relay='' @ shown name @ '')'')"

definition check_limit_compatibility :: "(string \<Rightarrow> string) \<Rightarrow> relay_limits \<Rightarrow> relay_limits \<Rightarrow> startup_error + unit" where
  "check_limit_compatibility shown client relay =
     (let mismatches = filter (\<lambda>(_, c, r). c > r) (limit_pairs client relay) in
      if mismatches \<noteq> [] then
        Inl (StartupCheckError (''relay limits incompatible: '' @ join '', '' (map (mismatch_text shown) mismatches)))
      else Inr ())"

text \<open>How Python prints a value that is an instance of int: a bool under its own name.\<close>

definition str_value :: "json \<Rightarrow> string" where
  "str_value j = (case j of JBool b \<Rightarrow> if b then ''True'' else ''False'' | _ \<Rightarrow> str_int (the (json_int j)))"

text \<open>The part of the check that reads the body of a response of status 200.\<close>

definition check_info_body :: "relay_config \<Rightarrow> relay_limits \<Rightarrow> bytes \<Rightarrow> startup_error + unit" where
  "check_info_body cfg client raw =
     (if int (length raw) > max_response_bytes client then
        Inl (StartupCheckError (''relay /info response exceeds max_response_bytes (client='' @
          str_int (max_response_bytes client) @ '' bytes)''))
      else
        (case utf8_decode raw of
           None \<Rightarrow> Inl (StartupRaised UnicodeDecodeError)
         | Some s \<Rightarrow>
             (case loads s of
                None \<Rightarrow> Inl (StartupCheckError ''relay /info returned invalid JSON'')
              | Some (JObj ms) \<Rightarrow>
                  (case Option.bind (obj_get ms ''v'') json_int of
                     None \<Rightarrow> Inl (StartupCheckError (''relay /info missing integer field '' @ single ''v''))
                   | Some v \<Rightarrow>
                       if v \<noteq> api_version cfg then
                         Inl (StartupCheckError (''relay API version mismatch (client='' @ str_int (api_version cfg) @
                           '', relay='' @ str_value (the (obj_get ms ''v'')) @ '')''))
                       else
                         (case obj_get ms ''limits'' of
                            Some (JObj ls) \<Rightarrow>
                              (case parse_limits ls of
                                 Inl x \<Rightarrow> Inl x
                               | Inr relay \<Rightarrow> check_limit_compatibility (\<lambda>k. str_value (the (obj_get ls k))) client relay)
                          | _ \<Rightarrow> Inl (StartupCheckError (''relay /info missing '' @ single ''limits'' @ '' object''))))
              | Some _ \<Rightarrow> Inl (StartupCheckError ''relay /info returned non-object JSON''))))"

definition startup_transport :: "transport_error \<Rightarrow> startup_error" where
  "startup_transport e =
     (case e of
        TimedOut \<Rightarrow> StartupCheckError ''relay /info timeout or unreachable''
      | ClientError \<Rightarrow> StartupCheckError ''relay /info request failed''
      | OtherFailure x \<Rightarrow> StartupRaised x)"

definition check_relay_startup :: "relay_config \<Rightarrow> relay_limits \<Rightarrow> http_outcome \<Rightarrow> startup_error + unit" where
  "check_relay_startup cfg client outcome =
     (case outcome of
        NoResponse e \<Rightarrow> Inl (startup_transport e)
      | Status status body \<Rightarrow>
          if status \<in> {401, 403} then
            Inl (StartupCheckError ''relay auth failed: missing or invalid Authorization token'')
          else if status \<noteq> 200 then Inl (StartupCheckError (''relay /info returned HTTP '' @ str_int status))
          else
            (case body of
               Inl e \<Rightarrow> Inl (startup_transport e)
             | Inr raw \<Rightarrow> check_info_body cfg client raw))"

text \<open>What the program does next: go on (with a warning, perhaps), exit, or fail with an exception.\<close>

datatype startup_outcome = Proceed | ProceedWithWarning string | SystemExit string | StartupCrash exn

definition run_relay_startup_check ::
  "relay_config \<Rightarrow> relay_limits \<Rightarrow> string \<Rightarrow> http_outcome \<Rightarrow> startup_outcome" where
  "run_relay_startup_check cfg client mode outcome =
     (if mode = ''off'' then Proceed
      else
        (case check_relay_startup cfg client outcome of
           Inr _ \<Rightarrow> Proceed
         | Inl (StartupCheckError msg) \<Rightarrow>
             if mode = ''warn'' then ProceedWithWarning (''Relay startup check failed: '' @ msg)
             else SystemExit (''Relay startup check failed: '' @ msg)
         | Inl (StartupRaised x) \<Rightarrow> StartupCrash x))"

section \<open>Properties\<close>

text \<open>What a compatible relay advertises, as the JSON of its information endpoint.\<close>

definition limits_json :: "relay_limits \<Rightarrow> json" where
  "limits_json l = JObj (map (\<lambda>(k, v). (ustr k, JInt v)) (limits_as_dict l))"

definition info_json :: "int \<Rightarrow> relay_limits \<Rightarrow> json" where
  "info_json v l = JObj [(ustr ''v'', JInt v), (ustr ''limits'', limits_json l)]"

definition limits_le :: "relay_limits \<Rightarrow> relay_limits \<Rightarrow> bool" where
  "limits_le a b \<longleftrightarrow> max_items a \<le> max_items b \<and> max_request_bytes a \<le> max_request_bytes b \<and>
     per_item_max_wire_bytes a \<le> per_item_max_wire_bytes b \<and> max_response_bytes a \<le> max_response_bytes b"

lemma compatible_iff: "check_limit_compatibility shown client relay = Inr () \<longleftrightarrow> limits_le client relay"
  by (auto simp: check_limit_compatibility_def limit_pairs_def limits_le_def Let_def)

lemma ustr_inj [simp]: "ustr a = ustr b \<longleftrightarrow> a = b"
  by (auto simp: ustr_def dest: inj_onD [OF inj_of_char [THEN inj_mapI]])

text \<open>The members of an object that state given limits, all of them positive.\<close>

definition advertises :: "(ustr \<times> json) list \<Rightarrow> relay_limits \<Rightarrow> bool" where
  "advertises ls l \<longleftrightarrow> list_all (\<lambda>(k, v). Option.bind (obj_get ls k) json_int = Some v \<and> 0 < v) (limits_as_dict l)"

lemma parse_limit_values_iff:
  assumes "set ks \<subseteq> {k. obj_get ms k \<noteq> None}"
  shows "parse_limit_values ks ms = Inr d \<longleftrightarrow>
      map fst d = ks \<and> list_all (\<lambda>(k, v). Option.bind (obj_get ms k) json_int = Some v \<and> 0 < v) d"
proof
  show "parse_limit_values ks ms = Inr d \<Longrightarrow>
      map fst d = ks \<and> list_all (\<lambda>(k, v). Option.bind (obj_get ms k) json_int = Some v \<and> 0 < v) d"
    using assms by (induction ks arbitrary: d) (auto split: option.splits if_splits sum.splits)
next
  show "map fst d = ks \<and> list_all (\<lambda>(k, v). Option.bind (obj_get ms k) json_int = Some v \<and> 0 < v) d \<Longrightarrow>
      parse_limit_values ks ms = Inr d"
    by (induction ks arbitrary: d) (auto simp: map_eq_Cons_conv bind_eq_Some_conv)
qed

lemma limits_as_dict_names: "map fst (limits_as_dict l) = limit_names"
  by (simp add: limits_as_dict_def limit_names_def)

lemma parse_limits_iff: "parse_limits ls = Inr l \<longleftrightarrow> advertises ls l"
proof (cases "set limit_names \<subseteq> {k. obj_get ls k \<noteq> None}")
  case True
  then have nm: "filter (\<lambda>k. obj_get ls k = None) limit_names = []" by (auto simp: filter_empty_conv)
  note iff = parse_limit_values_iff [OF True]
  show ?thesis
  proof
    assume "advertises ls l"
    then have "parse_limit_values limit_names ls = Inr (limits_as_dict l)"
      by (simp add: iff limits_as_dict_names advertises_def)
    then show "parse_limits ls = Inr l" by (simp add: parse_limits_def nm limits_as_dict_def Let_def)
  next
    assume p: "parse_limits ls = Inr l"
    then obtain d where d: "parse_limit_values limit_names ls = Inr d"
      by (auto simp: parse_limits_def nm split: sum.splits)
    then have "map fst d = limit_names" and ok: "list_all (\<lambda>(k, v). Option.bind (obj_get ls k) json_int = Some v \<and> 0 < v) d"
      using iff by auto
    then obtain a b c e where "d = [(''max_items'', a), (''max_request_bytes'', b), (''per_item_max_wire_bytes'', c),
        (''max_response_bytes'', e)]"
      by (auto simp: limit_names_def map_eq_Cons_conv)
    with p d have "limits_as_dict l = d" by (auto simp: parse_limits_def nm Let_def limits_as_dict_def)
    with ok show "advertises ls l" by (simp add: advertises_def)
  qed
next
  case False
  then have "\<not> advertises ls l" by (auto simp: advertises_def limits_as_dict_def limit_names_def)
  moreover have "parse_limits ls \<noteq> Inr l" using False by (auto simp: parse_limits_def filter_empty_conv)
  ultimately show ?thesis by simp
qed

lemma check_passes_iff:
  "check_relay_startup cfg client outcome = Inr () \<longleftrightarrow>
     (\<exists>raw s ms ls relay. outcome = Status 200 (Inr raw) \<and> int (length raw) \<le> max_response_bytes client \<and>
        utf8_decode raw = Some s \<and> loads s = Some (JObj ms) \<and>
        Option.bind (obj_get ms ''v'') json_int = Some (api_version cfg) \<and>
        obj_get ms ''limits'' = Some (JObj ls) \<and> advertises ls relay \<and> limits_le client relay)"
  by (auto simp: check_relay_startup_def check_info_body_def parse_limits_iff [symmetric] compatible_iff Let_def
      split: http_outcome.splits if_splits sum.splits option.splits json.splits)

text \<open>
  C22. The startup check succeeds exactly on a compatible relay: the response has status 200 and its
  complete body is within the client's response limit, is JSON text in UTF-8 of an object that states
  the client's API version and an object of limits; and these limits are positive and none of them is
  below the client's own.
\<close>

theorem startup_check_iff:
  "check_relay_startup cfg client outcome = Inr () \<longleftrightarrow>
     (\<exists>raw s ms ls relay. outcome = Status 200 (Inr raw) \<and> int (length raw) \<le> max_response_bytes client \<and>
        utf8_decode raw = Some s \<and> loads s = Some (JObj ms) \<and>
        Option.bind (obj_get ms ''v'') json_int = Some (api_version cfg) \<and>
        obj_get ms ''limits'' = Some (JObj ls) \<and> advertises ls relay \<and> limits_le client relay)"
  by (rule check_passes_iff)

lemma info_printable: "printable (info_json v l)"
  by (simp add: info_json_def limits_json_def limits_as_dict_def scalar_def)

lemma limits_json_advertises:
  "validate_limits l = Inr () \<Longrightarrow> limits_json l = JObj ls \<Longrightarrow> advertises ls l"
  by (auto simp: validate_limits_def limits_json_def advertises_def limits_as_dict_def ustr_inj simp del: ustr_Cons
      split: if_splits)

text \<open>
  Startup against a relay that advertises the client's API version and valid limits that are nowhere
  below the client's, in a response the client admits, goes ahead without a warning in every mode.
\<close>

lemma compatible_relay_proceeds:
  assumes "validate_limits relay = Inr ()" and "limits_le client relay"
    and "raw = ascii_bytes (dumps (info_json (api_version cfg) relay))"
    and "int (length raw) \<le> max_response_bytes client"
  shows "run_relay_startup_check cfg client mode (Status 200 (Inr raw)) = Proceed"
proof -
  obtain s where s: "utf8_decode raw = Some s" "loads s = Some (info_json (api_version cfg) relay)"
    using json_wire_roundtrip [OF info_printable] assms(3) by (auto simp: bind_eq_Some_conv)
  obtain ls where ls: "limits_json relay = JObj ls" by (simp add: limits_json_def)
  have "check_relay_startup cfg client (Status 200 (Inr raw)) = Inr ()"
    unfolding check_passes_iff
    by (intro exI conjI, rule refl, rule assms(4), rule s(1), subst s(2), unfold info_json_def ls, rule refl,
      simp add: ustr_inj del: ustr_Cons, simp add: ustr_inj del: ustr_Cons,
      rule limits_json_advertises [OF assms(1) ls], rule assms(2))
  then show ?thesis by (simp add: run_relay_startup_check_def)
qed

definition small_limits :: relay_limits where
  "small_limits = \<lparr>max_items = 1, max_request_bytes = 99, per_item_max_wire_bytes = 40, max_response_bytes = 150\<rparr>"

lemma compatible_relay_proceeds_witness:
  "run_relay_startup_check sample_relay small_limits ''require''
     (Status 200 (Inr (ascii_bytes (dumps (info_json 1 small_limits))))) = Proceed"
proof -
  have v: "validate_limits small_limits = Inr ()" and l: "limits_le small_limits small_limits"
    and a: "api_version sample_relay = 1"
    by code_simp+
  have "int (length (ascii_bytes (dumps (info_json (api_version sample_relay) small_limits))))
      \<le> max_response_bytes small_limits"
    by code_simp
  from compatible_relay_proceeds [OF v l refl this] show ?thesis by (simp add: a)
qed

text \<open>
  What the modes make of the check. Mode off never looks at the relay. In the other modes the
  program proceeds without a warning exactly if the check succeeds; a failure that the check reports
  becomes a warning in mode warn and an exit in any other mode; and a body that is not UTF-8, within the
  size limit, is not reported as a failure of the check but ends the program with an exception, in mode
  warn too.
\<close>

theorem startup_mode_outcomes:
  "run_relay_startup_check cfg client ''off'' outcome = Proceed \<and>
   (mode \<noteq> ''off'' \<longrightarrow>
     (run_relay_startup_check cfg client mode outcome = Proceed \<longleftrightarrow> check_relay_startup cfg client outcome = Inr ()) \<and>
     (check_relay_startup cfg client outcome = Inl (StartupCheckError msg) \<longrightarrow>
        run_relay_startup_check cfg client mode outcome =
         (if mode = ''warn'' then ProceedWithWarning (''Relay startup check failed: '' @ msg)
          else SystemExit (''Relay startup check failed: '' @ msg))) \<and>
     (utf8_decode raw = None \<and> int (length raw) \<le> max_response_bytes client \<longrightarrow>
        run_relay_startup_check cfg client mode (Status 200 (Inr raw)) = StartupCrash UnicodeDecodeError))"
proof -
  have "run_relay_startup_check cfg client mode outcome = Proceed \<longleftrightarrow> check_relay_startup cfg client outcome = Inr ()"
    if "mode \<noteq> ''off''"
  proof (cases "check_relay_startup cfg client outcome")
    case (Inl x)
    with that show ?thesis by (cases x) (simp_all add: run_relay_startup_check_def)
  qed (simp add: run_relay_startup_check_def)
  then show ?thesis
    by (simp add: run_relay_startup_check_def check_relay_startup_def [of cfg client "Status 200 (Inr raw)"]
        check_info_body_def)
qed

lemma startup_mode_outcomes_witness:
  "run_relay_startup_check sample_relay default_relay_limits ''warn'' (Status 200 (Inr [255])) =
     StartupCrash UnicodeDecodeError"
proof -
  have "utf8_decode [255] = None" and "int (length [255 :: 8 word]) \<le> max_response_bytes default_relay_limits"
    by code_simp+
  with startup_mode_outcomes [of sample_relay default_relay_limits _ "''warn''" _ "[255]"] show ?thesis by simp
qed

end
