(* ===== verification/Http_Metrics.thy ===== *)
theory Http_Metrics
  imports Memory_Cache Stats_Report "HOL-Library.List_Lexorder" "HOL-Library.Char_ord"
begin

text \<open>
  The HTTP server for metrics and health of \<^verbatim>\<open>dns/server.py\<close>: readiness flag, request parsing, the
  four routes and the bytes of a response.
\<close>

section \<open>State\<close>

text \<open>\<open>ReadyState\<close> is an event that is set once.\<close>

type_synonym ready_state = bool

definition ready_init :: ready_state where
  "ready_init = False"

definition set_ready :: "ready_state \<Rightarrow> ready_state" where
  "set_ready r = True"

definition is_ready :: "ready_state \<Rightarrow> bool" where
  "is_ready r = r"

record http_config =
  hm_host :: string
  hm_port :: int
  hm_read_timeout_s :: time
  hm_max_header_bytes :: int

definition default_http_config :: http_config where
  "default_http_config = \<lparr>hm_host = ''127.0.0.1'', hm_port = 0, hm_read_timeout_s = 2, hm_max_header_bytes = 8192\<rparr>"

definition quote_char :: char where
  "quote_char = char_of (34 :: nat)"

text \<open>The version is what \<^verbatim>\<open>importlib.metadata\<close> knows, if anything.\<close>

definition build_info :: "string result \<Rightarrow> string" where
  "build_info version =
     (let v = (case version of Inl x \<Rightarrow> ''unknown'' | Inr v \<Rightarrow> v);
          safe_version = map (\<lambda>c. if c = quote_char then CHR ''_'' else c) v
      in ''resilientdns_build_info{version='' @ [quote_char] @ safe_version @ [quote_char] @ ''} 1'')"

record http_server =
  hcfg :: http_config
  hready :: ready_state
  hstats :: "(string, int) dict result option"
  hbuild :: string

section \<open>Text\<close>

definition crlf :: string where
  "crlf = [char_of (13 :: nat), line_feed]"

text \<open>\<^verbatim>\<open>encode("ascii")\<close>, which fails on other characters, and \<^verbatim>\<open>decode("ascii", errors="ignore")\<close>.\<close>

definition encode_ascii :: "string \<Rightarrow> bytes result" where
  "encode_ascii s = (if list_all (\<lambda>c. code c < 128) s then Inr (ascii s) else Inl OtherError)"

definition decode_ascii_ignore :: "bytes \<Rightarrow> string" where
  "decode_ascii_ignore bs = map (\<lambda>b. char_of (unat b)) (filter (\<lambda>b. unat b < 128) bs)"

text \<open>The bytes before the first line end.\<close>

fun first_line :: "bytes \<Rightarrow> bytes" where
  "first_line (b # c # bs) = (if b = 13 \<and> c = 10 then [] else b # first_line (c # bs))"
| "first_line bs = bs"

text \<open>\<^verbatim>\<open>f"{x:.3f}"\<close> for a number that is not negative: rounded to the nearest, ties to even.\<close>

definition round_even :: "real \<Rightarrow> int" where
  "round_even y =
     (let f = \<lfloor>y\<rfloor>; d = y - of_int f in
      if d < 1 / 2 then f else if d > 1 / 2 then f + 1 else if even f then f else f + 1)"

definition fixed3 :: "real \<Rightarrow> string" where
  "fixed3 x =
     (let n = round_even (x * 1000); m = n mod 1000 in
      str_int (n div 1000) @ ''.'' @ (if m < 10 then ''00'' else if m < 100 then ''0'' else []) @ str_int m)"

section \<open>Responses\<close>

definition reason_phrase :: "int \<Rightarrow> string" where
  "reason_phrase status_code =
     (if status_code = 200 then ''OK'' else if status_code = 503 then ''Service Unavailable'' else ''Not Found'')"

definition response_head :: "int \<Rightarrow> nat \<Rightarrow> string \<Rightarrow> string list" where
  "response_head status_code body_len content_type =
     [''HTTP/1.1 '' @ str_int status_code @ '' '' @ reason_phrase status_code,
      ''Content-Type: '' @ content_type,
      ''Content-Length: '' @ str_int (int body_len),
      ''Connection: close'', '''', '''']"

definition send_response :: "int \<Rightarrow> bytes \<Rightarrow> string \<Rightarrow> bytes" where
  "send_response status_code body content_type =
     ascii (join crlf (response_head status_code (length body) content_type)) @ body"

definition metrics_lines :: "metrics \<Rightarrow> string \<Rightarrow> real \<Rightarrow> string list" where
  "metrics_lines m build_info_line uptime_s =
     (let s = snapshot m in
      map (\<lambda>k. k @ '' '' @ str_int (the (dict_get s k))) (sort (keys s)) @
      [build_info_line, ''resilientdns_uptime_seconds '' @ fixed3 (max 0 uptime_s)])"

definition metrics_body :: "metrics \<Rightarrow> string \<Rightarrow> real \<Rightarrow> bytes result" where
  "metrics_body m build_info_line uptime_s =
     encode_ascii (join [line_feed] (metrics_lines m build_info_line uptime_s) @ [line_feed])"

text \<open>
  \<^verbatim>\<open>json.dumps\<close> with the separators comma and colon, for a dictionary of numbers whose keys need no
  escapes, which is what \<open>stats_snapshot\<close> returns.
\<close>

definition dumps_compact :: "(string, int) dict \<Rightarrow> string" where
  "dumps_compact d =
     ''{'' @ join '','' (map (\<lambda>kv. [quote_char] @ fst kv @ [quote_char] @ '':'' @ str_int (snd kv)) d) @ ''}''"

section \<open>Requests\<close>

text \<open>
  What reading the head of a request gives: its bytes, nothing (timeout, end of file, overrun), or
  another exception; and what the server does: write a response and close, close, or fail with an
  exception, in which case the connection is left to the event loop.
\<close>

datatype http_head = Head bytes | HeadLost | HeadFailed exn

datatype http_action = Respond bytes | CloseOnly | HttpRaise exn

definition not_found :: http_action where
  "not_found = Respond (send_response 404 (ascii ''not found'') ''text/plain'')"

definition http_get :: "http_server \<Rightarrow> metrics \<Rightarrow> real \<Rightarrow> string \<Rightarrow> http_action" where
  "http_get srv m uptime_s path =
     (if path = ''/metrics'' then
        (case metrics_body m (hbuild srv) uptime_s of
           Inl x \<Rightarrow> HttpRaise x
         | Inr body \<Rightarrow> Respond (send_response 200 body ''text/plain''))
      else if path = ''/healthz'' then Respond (send_response 200 (ascii ''ok'') ''text/plain'')
      else if path = ''/readyz'' then
        (if is_ready (hready srv) then Respond (send_response 200 (ascii ''ok'') ''text/plain'')
         else Respond (send_response 503 (ascii ''not ready'') ''text/plain''))
      else if path = ''/cache/stats'' then
        (case hstats srv of
           None \<Rightarrow> not_found
         | Some payload \<Rightarrow>
             (case (case payload of Inl x \<Rightarrow> Inl x | Inr d \<Rightarrow> encode_ascii (dumps_compact d)) of
                Inl x \<Rightarrow> Respond (send_response 500 (ascii ''error'') ''text/plain'')
              | Inr body \<Rightarrow> Respond (send_response 200 (body @ ascii [line_feed]) ''application/json'')))
      else not_found)"

definition http_handle_client :: "http_server \<Rightarrow> metrics \<Rightarrow> real \<Rightarrow> http_head \<Rightarrow> http_action" where
  "http_handle_client srv m uptime_s head =
     (case head of
        HeadLost \<Rightarrow> CloseOnly
      | HeadFailed x \<Rightarrow> HttpRaise x
      | Head data \<Rightarrow>
          if int (length data) > hm_max_header_bytes (hcfg srv) then CloseOnly
          else
            (case split (decode_ascii_ignore (first_line data)) of
               verb # path # _ \<Rightarrow> if verb \<noteq> ''GET'' then not_found else http_get srv m uptime_s path
             | _ \<Rightarrow> CloseOnly))"

section \<open>The metrics page\<close>

abbreviation one_line :: "string \<Rightarrow> bool" where
  "one_line s \<equiv> list_all (\<lambda>c. \<not> is_linebreak c \<and> code c < 128) s"

lemma splitlines_join:
  assumes "list_all one_line ls" and "ls \<noteq> []"
  shows "splitlines (join [line_feed] ls @ [line_feed]) = ls"
proof -
  have "splitlines_aux [] False (join [line_feed] ls @ [line_feed]) = ls"
    using assms
  proof (induction "[line_feed]" ls rule: join.induct)
    case (2 p)
    then show ?case using splitlines_aux_line [of p "[]" "[]"] by (auto simp: list_all_iff)
  next
    case (3 p q ps)
    then show ?case using splitlines_aux_line [of p "[]" "join [line_feed] (q # ps) @ [line_feed]"]
      by (auto simp: list_all_iff)
  qed simp
  then show ?thesis by (simp add: splitlines_def)
qed

lemma one_line_join: "list_all one_line ls \<Longrightarrow> list_all (\<lambda>c. code c < 128) (join [line_feed] ls)"
  by (induction "[line_feed]" ls rule: join.induct) (auto simp: list_all_iff line_feed_def)

lemma unat_of_char_byte [simp]: "unat (of_char c :: byte) = code c"
proof -
  have "(of_char c :: byte) = of_nat (code c)" by (rule of_nat_of_char [symmetric])
  moreover have "code c < 256" by (rule nat_of_char_less_256)
  ultimately show ?thesis by (simp add: unat_of_nat)
qed

lemma decode_ascii_roundtrip: "list_all (\<lambda>c. code c < 128) s \<Longrightarrow> decode_ascii_ignore (ascii s) = s"
  by (induction s) (auto simp: decode_ascii_ignore_def ascii_def)

lemma str_int_one_line: "one_line (str_int i)"
proof -
  have "one_line (str_nat n)" for n
    using str_nat_decimal [of n] by (rule list.pred_mono_strong) (auto simp: is_decimal_def is_linebreak_def Let_def)
  then show ?thesis by (simp add: str_int_def is_linebreak_def)
qed

lemma fixed3_one_line: "one_line (fixed3 x)"
proof -
  have "one_line ''.''" "one_line ''0''" "one_line ''00''" by (simp_all add: is_linebreak_def)
  then show ?thesis unfolding fixed3_def Let_def list_all_append using str_int_one_line by simp
qed

text \<open>
  C40. The metrics page. A GET request for \<^verbatim>\<open>/metrics\<close> whose head is not too long is answered with
  status 200, and the lines of the body are, in alphabetical order of the names, every counter with its
  value, then the build information and the uptime, provided that the names and the build information
  are ASCII text without line breaks.
\<close>

theorem metrics_page:
  assumes "split (decode_ascii_ignore (first_line data)) = ''GET'' # ''/metrics'' # extra"
    and "int (length data) \<le> hm_max_header_bytes (hcfg srv)"
    and "\<forall>k \<in> set (keys m). one_line k" and "one_line (hbuild srv)"
  shows "\<exists>body. http_handle_client srv m uptime_s (Head data) = Respond (send_response 200 body ''text/plain'') \<and>
    splitlines (decode_ascii_ignore body) =
      map (\<lambda>k. k @ '' '' @ str_int (metric m k)) (sort (keys m)) @
      [hbuild srv, ''resilientdns_uptime_seconds '' @ fixed3 (max 0 uptime_s)]"
proof -
  let ?ls = "metrics_lines m (hbuild srv) uptime_s"
  have val: "the (dict_get m k) = metric m k" if "k \<in> set (keys m)" for k
    using that by (auto simp: dict_get_default_def map_of_eq_None_iff split: option.split)
  have ls: "?ls = map (\<lambda>k. k @ '' '' @ str_int (metric m k)) (sort (keys m)) @
      [hbuild srv, ''resilientdns_uptime_seconds '' @ fixed3 (max 0 uptime_s)]"
    by (simp add: metrics_lines_def snapshot_def val)
  have u: "one_line (''resilientdns_uptime_seconds '' @ fixed3 (max 0 uptime_s))"
  proof -
    have "one_line ''resilientdns_uptime_seconds ''" by code_simp
    then show ?thesis unfolding list_all_append using fixed3_one_line by blast
  qed
  have one: "list_all one_line ?ls" and ne: "?ls \<noteq> []"
  proof -
    have "one_line '' ''" by code_simp
    with u assms(3,4) show "list_all one_line ?ls"
      unfolding ls using str_int_one_line by (auto simp: list_all_iff)
    show "?ls \<noteq> []" unfolding ls by simp
  qed
  let ?t = "join [line_feed] ?ls @ [line_feed]"
  have a: "list_all (\<lambda>c. code c < 128) ?t" using one_line_join [OF one] by (simp add: line_feed_def)
  then have "metrics_body m (hbuild srv) uptime_s = Inr (ascii ?t)" by (simp add: metrics_body_def encode_ascii_def)
  then have "http_handle_client srv m uptime_s (Head data) = Respond (send_response 200 (ascii ?t) ''text/plain'')"
    using assms(1,2) by (simp add: http_handle_client_def http_get_def)
  moreover have "splitlines (decode_ascii_ignore (ascii ?t)) = ?ls"
    unfolding decode_ascii_roundtrip [OF a] by (rule splitlines_join [OF one ne])
  ultimately show ?thesis unfolding ls by blast
qed

lemma metrics_page_witness:
  "\<exists>body. http_handle_client \<lparr>hcfg = default_http_config, hready = False, hstats = None, hbuild = ''b''\<rparr>
      [(''z'', 1), (''a'', 2)] 0 (Head (ascii (''GET /metrics'' @ crlf @ crlf))) =
        Respond (send_response 200 body ''text/plain'') \<and>
     splitlines (decode_ascii_ignore body) = [''a 2'', ''z 1'', ''b'', ''resilientdns_uptime_seconds 0.000'']"
proof -
  let ?srv = "\<lparr>hcfg = default_http_config, hready = False, hstats = None, hbuild = ''b''\<rparr>"
  let ?m = "[(''z'', 1), (''a'', 2)] :: metrics" and ?d = "ascii (''GET /metrics'' @ crlf @ crlf)"
  have 1: "split (decode_ascii_ignore (first_line ?d)) = ''GET'' # ''/metrics'' # []" by code_simp
  have 2: "int (length ?d) \<le> hm_max_header_bytes (hcfg ?srv)" by (simp add: default_http_config_def crlf_def)
  have 3: "\<forall>k \<in> set (keys ?m). one_line k" and 4: "one_line (hbuild ?srv)" by (simp_all add: is_linebreak_def)
  have "str_int 2 = ''2''" "str_int 1 = ''1''" "str_int 0 = ''0''" by code_simp+
  moreover have "sort [''z'', ''a''] = [''a'', ''z'']" by (simp add: less_list_code)
  ultimately show ?thesis
    using metrics_page [OF 1 2 3 4, of 0] by (simp add: fixed3_def round_even_def dict_get_default_def)
qed

end
