(* ===== verification/Refresh_Warmup.thy ===== *)
theory Refresh_Warmup
  imports Dns_Handler
begin

text \<open>
  The warmup loader of \<^verbatim>\<open>refresh_warmup.py\<close>: the parser of the warmup list and the loop that offers
  its items to the refresh queue. The loader only knows the function it is given to enqueue an item, so
  its effect is proved once against the interface of a bounded queue without duplicates and then
  carried over to the handler's \<open>enqueue_refresh\<close>.
\<close>

section \<open>Parser\<close>

text \<open>The source is a path, given by what reading it as UTF-8 returns or raises, or the text itself.\<close>

datatype warmup_source = SourcePath "string result" | SourceText string

definition normalize_qname :: "string \<Rightarrow> string" where
  "normalize_qname qname = lower (rstrip_char CHR ''.'' (strip qname))"

definition parse_qtype :: "dnslib \<Rightarrow> string \<Rightarrow> int option result" where
  "parse_qtype L token =
     (if isdigit token then
        (case int_of_digits token of
           Inl x \<Rightarrow> Inl x
         | Inr qtype_id \<Rightarrow> Inr (if qtype_known L qtype_id then Some qtype_id else None))
      else Inr (qtype_reverse L (upper token)))"

fun parse_lines :: "dnslib \<Rightarrow> string list \<Rightarrow> cache_key list \<Rightarrow> int \<Rightarrow> (cache_key list \<times> int) result" where
  "parse_lines L [] items invalid = Inr (items, invalid)"
| "parse_lines L (raw_line # rest) items invalid =
     (let line = strip raw_line in
      if line = [] \<or> hd line = CHR ''#'' then parse_lines L rest items invalid
      else
        (case split line of
           [qname_raw, qtype_raw] \<Rightarrow>
             (let qname = normalize_qname qname_raw in
              if qname = [] then parse_lines L rest items (invalid + 1)
              else
                (case parse_qtype L qtype_raw of
                   Inl x \<Rightarrow> Inl x
                 | Inr None \<Rightarrow> parse_lines L rest items (invalid + 1)
                 | Inr (Some qtype_id) \<Rightarrow>
                     parse_lines L rest (items @ [(qname, qtype_id, CLASS_IN L)]) invalid))
         | _ \<Rightarrow> parse_lines L rest items (invalid + 1)))"

definition parse_warmup_source :: "dnslib \<Rightarrow> warmup_source \<Rightarrow> (cache_key list \<times> int) result" where
  "parse_warmup_source L source =
     (case (case source of SourcePath r \<Rightarrow> r | SourceText s \<Rightarrow> Inr s) of
        Inl x \<Rightarrow> Inl x
      | Inr s \<Rightarrow> parse_lines L (splitlines s) [] 0)"

section \<open>Loader\<close>

text \<open>
  The state of the caller is threaded through: \<open>enqueue_fn\<close> is the function the loader is given,
  \<open>bump\<close> the increment of the metrics it is given.
\<close>

fun enqueue_items :: "(cache_key \<Rightarrow> string \<Rightarrow> 's \<Rightarrow> bool \<times> 's) \<Rightarrow> cache_key list \<Rightarrow> int \<Rightarrow> 's \<Rightarrow> int \<times> 's" where
  "enqueue_items enqueue_fn [] enqueued s = (enqueued, s)"
| "enqueue_items enqueue_fn (item # items) enqueued s =
     (case enqueue_fn item ''warmup'' s of
        (ok, s') \<Rightarrow> enqueue_items enqueue_fn items (if ok then enqueued + 1 else enqueued) s')"

definition enqueue_warmup_file ::
  "dnslib \<Rightarrow> warmup_source \<Rightarrow> (cache_key \<Rightarrow> string \<Rightarrow> 's \<Rightarrow> bool \<times> 's) \<Rightarrow> int
     \<Rightarrow> (string \<Rightarrow> int \<Rightarrow> 's \<Rightarrow> 's) \<Rightarrow> 's \<Rightarrow> (int \<times> int \<times> int) result \<times> 's"
where
  "enqueue_warmup_file L source enqueue_fn limit bump s =
     (case parse_warmup_source L source of
        Inl x \<Rightarrow> (Inl x, s)
      | Inr (items, invalid) \<Rightarrow>
          (let loaded = (if 0 < limit then min (int (length items)) limit else 0);
               s1 = bump ''cache_refresh_warmup_loaded_total'' loaded s;
               s2 = bump ''cache_refresh_warmup_invalid_lines_total'' invalid s1;
               (enqueued, s3) = enqueue_items enqueue_fn (take (nat loaded) items) 0 s2
           in (Inr (loaded, invalid, enqueued), s3)))"

section \<open>The loader against the queue interface\<close>

text \<open>A queue whose owner also has counters, the bumping of which leaves the queue alone.\<close>

locale metered_offering =
  offering items pending capacity offer
  for items :: "'s \<Rightarrow> (cache_key \<times> string) list" and pending and capacity and offer +
  fixes bump :: "string \<Rightarrow> int \<Rightarrow> 's \<Rightarrow> 's"
  assumes bump_items: "items (bump m n s) = items s"
    and bump_pending: "pending (bump m n s) = pending s"
    and bump_capacity: "capacity (bump m n s) = capacity s"
begin

abbreviation warm :: "cache_key list \<Rightarrow> (cache_key \<times> string) list" where
  "warm ks \<equiv> map (\<lambda>k. (k, ''warmup'')) ks"

lemma enqueue_items_offers:
  "enqueue_items offer ks n s =
     (n + int (length (items (offers (warm ks) s))) - int (length (items s)), offers (warm ks) s)"
proof (induction ks arbitrary: n s)
  case (Cons k ks)
  obtain ok s1 where o: "offer k ''warmup'' s = (ok, s1)" by (cases "offer k ''warmup'' s")
  have "int (length (items s1)) = int (length (items s)) + (if ok then 1 else 0)"
    using offer_items [of k "''warmup''" s] o by simp
  with Cons.IH [of "if ok then n + 1 else n" s1] show ?case by (simp add: o)
qed simp

lemma warmed:
  obtains new where "items (offers (warm ks) s) = items s @ warm new" and "distinct new"
    and "set new \<subseteq> set ks" and "set new \<inter> pending s = {}"
proof -
  obtain jobs where j: "items (offers (warm ks) s) = items s @ jobs" "distinct (map fst jobs)"
    "set jobs \<subseteq> set (warm ks)" "fst ` set jobs \<inter> pending s = {}"
    using offers_items [of "warm ks" s] by blast
  from j(3) have "jobs = warm (map fst jobs)" by (induction jobs) auto
  with j show thesis by (intro that [of "map fst jobs"]) auto
qed

lemma loader_effect:
  assumes "parse_warmup_source L source = Inr (found, invalid)"
    and "ks = take (nat limit) found"
  shows "\<exists>new s'. enqueue_warmup_file L source offer limit bump s =
      (Inr (int (length ks), invalid, int (length new)), s') \<and>
    items s' = items s @ warm new \<and> distinct new \<and> set new \<subseteq> set ks \<and> set new \<inter> pending s = {} \<and>
    (capacity s = None \<longrightarrow> set ks \<subseteq> pending s')"
proof -
  let ?loaded = "if 0 < limit then min (int (length found)) limit else 0"
  have len: "?loaded = int (length ks)" by (auto simp: assms(2) min_def)
  then have tk: "take (nat ?loaded) found = ks" by (simp add: assms(2) min_def)
  let ?s = "bump ''cache_refresh_warmup_invalid_lines_total'' invalid
    (bump ''cache_refresh_warmup_loaded_total'' ?loaded s)"
  obtain new where new: "items (offers (warm ks) ?s) = items ?s @ warm new" "distinct new"
    "set new \<subseteq> set ks" "set new \<inter> pending ?s = {}" by (rule warmed)
  have "set ks \<subseteq> pending (offers (warm ks) ?s)" if "capacity s = None"
    using offers_complete [of ?s "warm ks"] that by (simp add: bump_capacity image_image)
  moreover have "enqueue_warmup_file L source offer limit bump s =
      (Inr (int (length ks), invalid, int (length new)), offers (warm ks) ?s)"
    unfolding enqueue_warmup_file_def assms(1) sum.case prod.case Let_def tk
    by (simp add: enqueue_items_offers new(1) [unfolded len] bump_items len)
  ultimately show ?thesis using new by (auto simp: bump_items bump_pending)
qed

end

definition bump_metrics :: "string \<Rightarrow> int \<Rightarrow> handler \<Rightarrow> handler" where
  "bump_metrics key n h = h\<lparr>h_metrics := inc_by key n (h_metrics h)\<rparr>"

interpretation wq: metered_offering refresh_queue pending_keys queue_capacity enqueue_refresh bump_metrics
  by unfold_locales (simp_all add: bump_metrics_def pending_keys_def queue_capacity_def)

section \<open>Properties\<close>

text \<open>
  C35. Loading a warmup list that parses. The result counts the items taken (no more than the limit,
  none for a limit of zero or less), the invalid lines, and the items that entered the queue; exactly
  those are appended to the queue, in distinct keys that were not pending, each marked as warmup. With
  an unbounded queue every item taken is pending afterwards.
\<close>

theorem warmup_loads_queue:
  assumes "parse_warmup_source L source = Inr (found, invalid)"
  shows "\<exists>new h'. enqueue_warmup_file L source enqueue_refresh limit bump_metrics h =
      (Inr (int (length (take (nat limit) found)), invalid, int (length new)), h') \<and>
    refresh_queue h' = refresh_queue h @ map (\<lambda>k. (k, ''warmup'')) new \<and> distinct new \<and>
    set new \<subseteq> set (take (nat limit) found) \<and> set new \<inter> pending_keys h = {} \<and>
    (queue_capacity h = None \<longrightarrow> set (take (nat limit) found) \<subseteq> pending_keys h')"
  by (rule wq.loader_effect [OF assms refl])

text \<open>\<open>example.com A\<close>, a comment, and a line with a word too many.\<close>

definition sample_list :: string where
  "sample_list = ''Example.com. A'' @ [CHR 0x0A] @ ''# comment'' @ [CHR 0x0A] @ ''a b c'' @ [CHR 0x0A]"

lemma sample_list_parses: "parse_warmup_source sample_lib (SourceText sample_list) = Inr ([key1], 1)"
  by code_simp

lemma warmup_loads_queue_witness:
  "\<exists>new h'. enqueue_warmup_file sample_lib (SourceText sample_list) enqueue_refresh 10 bump_metrics (sample_handler []) =
      (Inr (1, 1, int (length new)), h') \<and> set new \<subseteq> {key1}"
  using warmup_loads_queue [OF sample_list_parses, of 10 "sample_handler []"] by auto

text \<open>
  A type token of digit characters that are not decimal digits (a superscript two) makes the whole
  load fail with ValueError, whatever else the list holds, instead of counting one invalid line: the
  digit test accepts the token and the conversion to an integer rejects it.
\<close>

lemma superscript_type_aborts_load:
  "parse_lines L ((''example.com '' @ [CHR 0xB2]) # rest) items invalid =
     Inl (ValueError ''invalid literal for int() with base 10'')"
proof -
  have "strip (''example.com '' @ [CHR 0xB2]) = ''example.com '' @ [CHR 0xB2]"
    and "split (''example.com '' @ [CHR 0xB2]) = [''example.com'', [CHR 0xB2]]"
    and "normalize_qname ''example.com'' = ''example.com''" by code_simp+
  moreover have "parse_qtype L [CHR 0xB2] = Inl (ValueError ''invalid literal for int() with base 10'')"
    by (simp add: parse_qtype_def isdigit_def is_digit_def int_of_digits_def is_decimal_def)
  ultimately show ?thesis by simp
qed

section \<open>Writing a list and reading it back\<close>

definition warmup_line :: "cache_key \<Rightarrow> string" where
  "warmup_line k = fst k @ '' '' @ str_nat (nat (fst (snd k)))"

abbreviation no_space :: "string \<Rightarrow> bool" where
  "no_space w \<equiv> list_all (\<lambda>c. \<not> is_space c) w"

lemma linebreak_space: "is_linebreak c \<Longrightarrow> is_space c"
  by (auto simp: is_linebreak_def is_space_def Let_def)

lemma splitlines_concat:
  "\<forall>w \<in> set ws. list_all (\<lambda>c. \<not> is_linebreak c) w \<Longrightarrow>
   splitlines (concat (map (\<lambda>w. w @ [line_feed]) ws)) = ws"
  unfolding splitlines_def by (induction ws) (simp_all add: splitlines_aux_line)

lemma str_nat_no_space: "no_space (str_nat n)"
  using str_nat_decimal [of n] by (rule list.pred_mono_strong) (auto simp: is_decimal_def is_space_def Let_def)

lemma isdigit_str_nat: "isdigit (str_nat n)"
  using str_nat_decimal [of n] by (auto simp: isdigit_def is_digit_def elim: list.pred_mono_strong)

lemma strip_id: "w \<noteq> [] \<Longrightarrow> \<not> is_space (hd w) \<Longrightarrow> \<not> is_space (last w) \<Longrightarrow> strip w = w"
  by (cases w) (simp_all add: strip_def rstrip_by_id)

lemma split_aux_append: "no_space w \<Longrightarrow> split_aux acc (w @ s) = split_aux (rev w @ acc) s"
  by (induction w arbitrary: acc) auto

lemma split_two: "no_space v \<Longrightarrow> v \<noteq> [] \<Longrightarrow> no_space w \<Longrightarrow> w \<noteq> [] \<Longrightarrow> split (v @ '' '' @ w) = [v, w]"
  using split_aux_append [of v "[]" "'' '' @ w"] split_aux_append [of w "[]" "[]"]
  by (simp add: split_def is_space_def)

text \<open>A key that the list format can express as the parser normalises it.\<close>

definition warmup_key :: "dnslib \<Rightarrow> cache_key \<Rightarrow> bool" where
  "warmup_key L k \<longleftrightarrow>
     (case k of (n, q, c) \<Rightarrow>
        n \<noteq> [] \<and> no_space n \<and> hd n \<noteq> CHR ''#'' \<and> last n \<noteq> CHR ''.'' \<and> lower n = n \<and>
        0 \<le> q \<and> qtype_known L q \<and> c = CLASS_IN L)"

lemma last_no_space: "w \<noteq> [] \<Longrightarrow> no_space w \<Longrightarrow> \<not> is_space (last w) \<and> \<not> is_space (hd w)"
  by (simp add: list_all_iff)

lemma warmup_line_parses:
  assumes "warmup_key L k"
  shows "parse_lines L (warmup_line k # rest) items invalid = parse_lines L rest (items @ [k]) invalid"
proof -
  obtain n q c where k: "k = (n, q, c)" by (cases k)
  let ?d = "str_nat (nat q)"
  from assms have n: "n \<noteq> []" "no_space n" "hd n \<noteq> CHR ''#''" "last n \<noteq> CHR ''.''" "lower n = n"
    and q: "0 \<le> q" "qtype_known L q" and c: "c = CLASS_IN L" by (simp_all add: warmup_key_def k)
  have line: "warmup_line k = n @ '' '' @ ?d" by (simp add: warmup_line_def k)
  have "strip (warmup_line k) = warmup_line k"
    using last_no_space [OF n(1,2)] last_no_space [OF str_nat_nonempty str_nat_no_space, of "nat q"] n(1)
    by (intro strip_id) (simp_all add: line)
  moreover have "split (warmup_line k) = [n, ?d]"
    unfolding line by (rule split_two [OF n(2,1) str_nat_no_space str_nat_nonempty])
  moreover have "strip n = n" using last_no_space [OF n(1,2)] n(1) by (simp add: strip_id)
  then have "normalize_qname n = n"
    using n(4,5) by (simp add: normalize_qname_def rstrip_char_def rstrip_by_id)
  moreover have "parse_qtype L ?d = Inr (Some q)"
    using q by (simp add: parse_qtype_def isdigit_str_nat)
  moreover have "warmup_line k \<noteq> []" "hd (warmup_line k) = hd n" using n(1) by (simp_all add: line)
  ultimately show ?thesis using n(1,3) by (simp add: k c)
qed

text \<open>
  C36. Round trip of the warmup list: writing keys one per line, name and numeric type, and parsing the
  text gives back the same keys in the same order and no invalid line, for every list of keys with
  normalised names and known types.
\<close>

theorem warmup_roundtrip:
  assumes "\<forall>k \<in> set ks. warmup_key L k"
  shows "parse_warmup_source L (SourceText (concat (map (\<lambda>k. warmup_line k @ [line_feed]) ks))) = Inr (ks, 0)"
proof -
  have "list_all (\<lambda>c. \<not> is_linebreak c) (warmup_line k)" if "k \<in> set ks" for k
  proof -
    obtain n q c where k: "k = (n, q, c)" by (cases k)
    from assms that have "no_space n" by (auto simp: warmup_key_def k)
    then have "list_all (\<lambda>c. \<not> is_linebreak c) n" "list_all (\<lambda>c. \<not> is_linebreak c) (str_nat (nat q))"
      using str_nat_no_space [of "nat q"] by (auto elim!: list.pred_mono_strong dest: linebreak_space)
    then show ?thesis by (simp add: warmup_line_def k is_linebreak_def)
  qed
  then have "splitlines (concat (map (\<lambda>w. w @ [line_feed]) (map warmup_line ks))) = map warmup_line ks"
    by (intro splitlines_concat) auto
  moreover have "parse_lines L (map warmup_line ks) items 0 = Inr (items @ ks, 0)" for items
    using assms by (induction ks arbitrary: items) (simp_all add: warmup_line_parses del: parse_lines.simps(2))
  ultimately show ?thesis by (simp add: parse_warmup_source_def comp_def)
qed

lemma warmup_roundtrip_witness:
  "parse_warmup_source sample_lib (SourceText (concat (map (\<lambda>k. warmup_line k @ [line_feed]) [key1, key2]))) =
     Inr ([key1, key2], 0)"
proof -
  have "\<forall>k \<in> set [key1, key2]. warmup_key sample_lib k" by code_simp
  then show ?thesis by (rule warmup_roundtrip)
qed

end
