(* ===== verification/App_Main.thy ===== *)
theory App_Main
  imports Command_Line Server_Run Front Udp_Forwarder Tcp_Forwarder Relay_Startup Http_Metrics Refresh_Warmup
begin

text \<open>
  The program of \<^verbatim>\<open>main.py\<close>: the configurations of the components it builds, the life of the process from
  the start of the servers to the shutdown, the signal handlers, and \<open>main\<close> itself. What servers,
  background tasks and the warmup file do is an argument; the life of the process is the list of the
  actions it takes.
\<close>

section \<open>Component configurations\<close>

definition build_relay_config :: "config \<Rightarrow> relay_config" where
  "build_relay_config c =
     \<lparr>base_url = (case cfg_relay_base_url c of None \<Rightarrow> [] | Some u \<Rightarrow> u), api_version = cfg_relay_api_version c,
      auth_token = cfg_relay_auth_token c, startup_check = cfg_relay_startup_check c, limits = relay_limits_of c\<rparr>"

text \<open>The upstream that \<open>_run\<close> creates.\<close>

datatype upstream_config = RelayUpstream relay_config time | TcpUpstream tcp_config | UdpUpstream udp_config

definition upstream_of :: "config \<Rightarrow> upstream_config" where
  "upstream_of c =
     (if cfg_upstream_transport c = ''relay'' then RelayUpstream (build_relay_config c) (cfg_upstream_timeout_s c)
      else if cfg_upstream_transport c = ''tcp'' then
        TcpUpstream (default_tcp_config\<lparr>tcp_host := cfg_upstream_host c, tcp_port := cfg_upstream_port c,
          tcp_connect_timeout_s := cfg_upstream_timeout_s c, tcp_read_timeout_s := cfg_upstream_timeout_s c,
          tcp_pool_max_conns := cfg_tcp_pool_max_conns c, tcp_pool_idle_timeout_s := cfg_tcp_pool_idle_timeout_s c\<rparr>)
      else
        UdpUpstream (default_udp_config\<lparr>udp_host := cfg_upstream_host c, udp_port := cfg_upstream_port c,
          udp_timeout_s := cfg_upstream_timeout_s c, udp_max_workers := cfg_udp_max_workers c\<rparr>))"

definition cache_config_of :: "config \<Rightarrow> cache_config" where
  "cache_config_of c =
     \<lparr>serve_stale_max_s = cfg_serve_stale_max_s c, negative_ttl_s = cfg_negative_ttl_s c, max_entries = cfg_cache_max_entries c\<rparr>"

definition handler_config_of :: "config \<Rightarrow> handler_config" where
  "handler_config_of c =
     \<lparr>upstream_timeout_s = cfg_upstream_timeout_s c, refresh_watch_timeout_s = 5,
      refresh_queue_max = cfg_refresh_queue_max c, refresh_enabled = cfg_refresh_enabled c,
      refresh_ahead_seconds = cfg_refresh_ahead_seconds c,
      refresh_popularity_threshold = cfg_refresh_popularity_threshold c,
      refresh_popularity_decay_seconds = cfg_refresh_popularity_decay_seconds c,
      refresh_tick_ms = cfg_refresh_tick_ms c, refresh_batch_size = cfg_refresh_batch_size c,
      refresh_concurrency = cfg_refresh_concurrency c\<rparr>"

definition udp_server_config_of :: "config \<Rightarrow> udp_server_config" where
  "udp_server_config_of c =
     default_udp_server_config\<lparr>us_host := cfg_listen_host c, us_port := cfg_listen_port c, us_max_inflight := cfg_max_inflight c\<rparr>"

definition tcp_server_config_of :: "config \<Rightarrow> tcp_server_config" where
  "tcp_server_config_of c =
     default_tcp_server_config\<lparr>ts_host := cfg_listen_host c, ts_port := cfg_listen_port c, ts_max_inflight := cfg_max_inflight c\<rparr>"

definition http_config_of :: "config \<Rightarrow> http_config option" where
  "http_config_of c =
     (if cfg_metrics_port c > 0 then Some (default_http_config\<lparr>hm_host := cfg_metrics_host c, hm_port := cfg_metrics_port c\<rparr>)
      else None)"

text \<open>The handler as \<open>_run\<close> sets it up, before and after the warmup list is loaded.\<close>

definition app_handler :: "config \<Rightarrow> handler" where
  "app_handler c = handler_init (handler_config_of c) (cache_init (cache_config_of c)) (Some metrics_init)"

definition load_warmup :: "dnslib \<Rightarrow> config \<Rightarrow> warmup_source \<Rightarrow> handler \<Rightarrow> unit result \<times> handler" where
  "load_warmup L c source h =
     (if cfg_refresh_warmup_enabled c then
        (case enqueue_warmup_file L source enqueue_refresh (cfg_refresh_warmup_limit c) bump_metrics h of
           (Inl x, h') \<Rightarrow> (Inl x, h')
         | (Inr _, h') \<Rightarrow> (Inr (), h'))
      else (Inr (), h))"

section \<open>Life of the process\<close>

definition servers :: "config \<Rightarrow> server list" where
  "servers c = [UdpServer, TcpServer] @ (case http_config_of c of None \<Rightarrow> [] | Some _ \<Rightarrow> [HttpServer])"

datatype action =
    CreateUpstream
  | StartServer server
  | SetReady
  | StartReporter
  | StartRefreshTasks
  | CancelReporter
  | StopRefreshTasks
  | StopServer server
  | CancelServer server
  | CloseUpstream
  | LogStats string

text \<open>
  What the environment contributes: how each server task ended before it was ready (or that it got
  ready), whether it has ended at the shutdown, how the servers end once all are ready (\<^verbatim>\<open>gather\<close>), what
  awaiting the cancelled reporter and a cancelled server raises, what stopping the refresh tasks and
  closing the upstream raises, and the counters at the end.
\<close>

record run_env =
  server_failed :: "server \<Rightarrow> exn option"
  server_ended :: "server \<Rightarrow> bool"
  gather_result :: "unit result"
  reporter_raises :: "unit result"
  stop_raises :: "unit result"
  cancel_raises :: "server \<Rightarrow> unit result"
  close_raises :: "unit result"
  final_metrics :: metrics

text \<open>\<open>wait_ready\<close>: a server that fails before it is ready raises here.\<close>

fun wait_all :: "(server \<Rightarrow> exn option) \<Rightarrow> server list \<Rightarrow> unit result" where
  "wait_all failed [] = Inr ()"
| "wait_all failed (s # ss) = (case failed s of Some x \<Rightarrow> Inl x | None \<Rightarrow> wait_all failed ss)"

text \<open>A cancellation is suppressed where the shutdown awaits a task that it cancelled.\<close>

definition suppress_cancel :: "unit result \<Rightarrow> unit result" where
  "suppress_cancel r = (case r of Inl CancelledError \<Rightarrow> Inr () | _ \<Rightarrow> r)"

fun cancel_servers :: "run_env \<Rightarrow> server list \<Rightarrow> action list \<times> unit result" where
  "cancel_servers env [] = ([], Inr ())"
| "cancel_servers env (s # ss) =
     (if server_ended env s then cancel_servers env ss
      else
        (case suppress_cancel (cancel_raises env s) of
           Inl x \<Rightarrow> ([CancelServer s], Inl x)
         | Inr _ \<Rightarrow> (case cancel_servers env ss of (as, r) \<Rightarrow> (CancelServer s # as, r))))"

text \<open>The \<open>finally\<close> block of \<open>_run\<close>; an exception in it skips the rest.\<close>

definition shutdown :: "config \<Rightarrow> run_env \<Rightarrow> bool \<Rightarrow> bool \<Rightarrow> action list \<times> unit result" where
  "shutdown c env reporter refresh_on =
     (let a1 = (if reporter then [CancelReporter] else []);
          r1 = (if reporter then suppress_cancel (reporter_raises env) else Inr ())
      in case r1 of
           Inl x \<Rightarrow> (a1, Inl x)
         | Inr _ \<Rightarrow>
             (let a2 = a1 @ (if refresh_on then [StopRefreshTasks] else []);
                  r2 = (if refresh_on then stop_raises env else Inr ())
              in case r2 of
                   Inl x \<Rightarrow> (a2, Inl x)
                 | Inr _ \<Rightarrow>
                     (let a3 = a2 @ map StopServer (servers c) in
                      case cancel_servers env (servers c) of
                        (cs, Inl x) \<Rightarrow> (a3 @ cs, Inl x)
                      | (cs, Inr _) \<Rightarrow>
                          (let a4 = a3 @ cs @ [CloseUpstream] in
                           case close_raises env of
                             Inl x \<Rightarrow> (a4, Inl x)
                           | Inr _ \<Rightarrow>
                               (a4 @ (case reporter_round (final_metrics env) of None \<Rightarrow> [] | Some line \<Rightarrow> [LogStats line]),
                                Inr ())))))"

text \<open>How a run ends: normally, by an exception, or because the warmup list could not be loaded.\<close>

datatype run_result = RunOk | RunRaised exn | WarmupExit exn

definition finish_run :: "unit result \<Rightarrow> unit result \<Rightarrow> run_result" where
  "finish_run body final =
     (case final of Inl x \<Rightarrow> RunRaised x | Inr _ \<Rightarrow> (case body of Inl x \<Rightarrow> RunRaised x | Inr _ \<Rightarrow> RunOk))"

definition run_app :: "config \<Rightarrow> unit result \<Rightarrow> run_env \<Rightarrow> action list \<times> run_result" where
  "run_app c warmup env =
     (case warmup of
        Inl x \<Rightarrow> ([CreateUpstream], if is_Exception x then WarmupExit x else RunRaised x)
      | Inr _ \<Rightarrow>
          (let a0 = CreateUpstream # map StartServer (servers c) in
           case wait_all (server_failed env) (servers c) of
             Inl x \<Rightarrow>
               (case shutdown c env False False of (as, r) \<Rightarrow> (a0 @ as, finish_run (Inl x) r))
           | Inr _ \<Rightarrow>
               (let a1 = a0 @ [SetReady, StartReporter, StartRefreshTasks] in
                case shutdown c env True (cfg_refresh_enabled c) of
                  (as, r) \<Rightarrow> (a1 @ as, finish_run (gather_result env) r))))"

section \<open>Signals\<close>

datatype signal = SIGINT | SIGTERM | SIGHUP

datatype signal_action = StopAll "server list" | ClearCache

text \<open>Which handlers the platform supports is an argument.\<close>

definition register_signal_handlers :: "(signal \<Rightarrow> bool) \<Rightarrow> config \<Rightarrow> signal \<Rightarrow> signal_action option" where
  "register_signal_handlers supported c sig =
     (if \<not> supported sig then None
      else (case sig of SIGHUP \<Rightarrow> Some ClearCache | _ \<Rightarrow> Some (StopAll (servers c))))"

definition handle_sighup :: "handler \<Rightarrow> handler" where
  "handle_sighup h = (case clear (h_cache h) (h_metrics h) of (ca, M) \<Rightarrow> h\<lparr>h_cache := ca, h_metrics := M\<rparr>)"

section \<open>main\<close>

text \<open>
  How \<open>main\<close> ends: \<^verbatim>\<open>argparse\<close> exits, the configuration is rejected, the startup check of the relay
  ends the program, or it ran with some level of logging. \<open>UnknownFloat\<close> is a command line with a float
  that is not a real number, of which the model says nothing.
\<close>

datatype main_result =
    UsageExit int
  | UnknownFloat
  | ConfigError string
  | StartupFailed startup_outcome
  | ConfigRaised exn
  | Ran log_level "action list" run_result

definition app_main ::
  "(string \<Rightarrow> bool) \<Rightarrow> args \<Rightarrow> http_outcome \<Rightarrow> unit result \<Rightarrow> run_env \<Rightarrow> main_result" where
  "app_main valid_netloc args info warmup env =
     (let c = build_config args in
      case validate_config valid_netloc c of
        Inl (ValueError message) \<Rightarrow> ConfigError message
      | Inl x \<Rightarrow> ConfigRaised x
      | Inr _ \<Rightarrow>
          (let startup =
             (if cfg_upstream_transport c = ''relay'' \<and> cfg_relay_startup_check c \<noteq> ''off'' then
                run_relay_startup_check (build_relay_config c) (limits (build_relay_config c)) (cfg_relay_startup_check c) info
              else Proceed)
           in case startup of
                SystemExit m \<Rightarrow> StartupFailed startup
              | StartupCrash x \<Rightarrow> StartupFailed startup
              | _ \<Rightarrow> (case run_app c warmup env of (as, r) \<Rightarrow> Ran (setup_logging (cfg_verbose c)) as r)))"

definition main_program ::
  "(string \<Rightarrow> bool) \<Rightarrow> string list \<Rightarrow> http_outcome \<Rightarrow> unit result \<Rightarrow> run_env \<Rightarrow> main_result" where
  "main_program valid_netloc argv info warmup env =
     (case parse_args argv of
        Exits n \<Rightarrow> UsageExit n
      | Unrepresentable \<Rightarrow> UnknownFloat
      | Parsed args \<Rightarrow> app_main valid_netloc args info warmup env)"

section \<open>Properties\<close>

lemma require_iff: "require cs = Inr () \<longleftrightarrow> list_all fst cs"
  by (induction cs rule: require.induct) auto

lemma after_iff: "after r r' = Inr () \<longleftrightarrow> r = Inr () \<and> r' = Inr ()"
  by (cases r) (auto simp: after_def)

text \<open>
  What the components expect of their configurations: the hypotheses under which their properties are
  stated, and the values their constructors accept.
\<close>

fun upstream_ok :: "upstream_config \<Rightarrow> bool" where
  "upstream_ok (RelayUpstream r timeout) \<longleftrightarrow> base_url r \<noteq> [] \<and> 1 \<le> api_version r \<and> validate_limits (limits r) = Inr () \<and>
     startup_check r \<in> {''require'', ''warn'', ''off''} \<and> 0 < timeout"
| "upstream_ok (TcpUpstream t) \<longleftrightarrow> 1 \<le> tcp_port t \<and> tcp_port t \<le> 65535 \<and> 0 \<le> tcp_pool_max_conns t \<and>
     0 < tcp_pool_idle_timeout_s t \<and> 0 < tcp_connect_timeout_s t \<and> 0 < tcp_read_timeout_s t"
| "upstream_ok (UdpUpstream u) \<longleftrightarrow> 1 \<le> udp_port u \<and> udp_port u \<le> 65535 \<and> 1 \<le> udp_max_workers u \<and> 0 < udp_timeout_s u"

definition handler_config_ok :: "handler_config \<Rightarrow> bool" where
  "handler_config_ok h \<longleftrightarrow> 0 \<le> refresh_queue_max h \<and> 0 < refresh_tick_ms h \<and> 0 < refresh_batch_size h \<and>
     0 \<le> refresh_concurrency h \<and> (refresh_enabled h \<longrightarrow> 1 \<le> refresh_concurrency h) \<and> 0 \<le> refresh_ahead_seconds h"

lemma valid_components:
  assumes "validate_config valid_netloc c = Inr ()"
  shows "cache_config_ok (cache_config_of c) \<and> handler_config_ok (handler_config_of c) \<and> upstream_ok (upstream_of c) \<and>
    0 < us_max_inflight (udp_server_config_of c) \<and> 0 < ts_max_inflight (tcp_server_config_of c) \<and>
    (cfg_refresh_warmup_enabled c \<longrightarrow> refresh_enabled (handler_config_of c) \<and> 0 < cfg_refresh_warmup_limit c)"
proof -
  have basic: "list_all fst (basic_checks c)" using assms by (simp add: validate_config_def after_iff require_iff)
  have relay: "text_given (cfg_relay_base_url c) \<and> 1 \<le> cfg_relay_api_version c \<and>
      validate_startup_check (cfg_relay_startup_check c) = Inr () \<and> validate_limits (relay_limits_of c) = Inr ()"
    if "cfg_upstream_transport c = ''relay''"
    using assms that by (auto simp: validate_config_def after_iff split: if_splits)
  then have r: "upstream_ok (RelayUpstream (build_relay_config c) (cfg_upstream_timeout_s c))"
    if "cfg_upstream_transport c = ''relay''"
    using that basic
    by (auto simp: build_relay_config_def text_given_def validate_startup_check_def basic_checks_def split: option.splits if_splits)
  have "upstream_ok (upstream_of c)"
    using basic r by (auto simp: upstream_of_def basic_checks_def)
  moreover have "cache_config_ok (cache_config_of c)" "handler_config_ok (handler_config_of c)"
    using basic by (auto simp: cache_config_ok_def cache_config_of_def handler_config_ok_def handler_config_of_def basic_checks_def)
  moreover have "0 < us_max_inflight (udp_server_config_of c)" "0 < ts_max_inflight (tcp_server_config_of c)"
    "cfg_refresh_warmup_enabled c \<longrightarrow> refresh_enabled (handler_config_of c) \<and> 0 < cfg_refresh_warmup_limit c"
    using basic by (auto simp: udp_server_config_of_def tcp_server_config_of_def handler_config_of_def basic_checks_def)
  ultimately show ?thesis by blast
qed

lemma default_args_valid: "validate_config (\<lambda>_. True) (build_config default_args) = Inr ()"
  by (simp add: validate_config_def after_iff require_iff basic_checks_def build_config_def default_args_def text_given_def
      strip_def rstrip_by_def is_space_def)

lemma app_main_ran:
  assumes "app_main valid_netloc a info warmup env = Ran lvl as r"
  shows "validate_config valid_netloc (build_config a) = Inr () \<and> run_app (build_config a) warmup env = (as, r) \<and>
    lvl = setup_logging (arg_verbose a) \<and>
    (arg_upstream_transport a = ''relay'' \<and> arg_relay_startup_check a = ''require'' \<longrightarrow>
      check_relay_startup (build_relay_config (build_config a)) (relay_limits_of (build_config a)) info = Inr ())"
  using assms
  by (auto simp: app_main_def Let_def run_relay_startup_check_def build_config_def build_relay_config_def
      split: sum.splits exn.splits if_splits startup_outcome.splits startup_error.splits prod.splits)

text \<open>
  C24. From the command line to the components: whenever the program gets to run, whatever its command
  line was, the options were parsed, and every component has a configuration it can work with: the cache,
  the handler with at least one worker when refreshing is on, the chosen upstream with valid ports,
  timeouts and limits, and servers whose number of request tasks is bounded. A relay that has to be
  checked has passed the check.
\<close>

theorem started_program_configured:
  assumes "main_program valid_netloc argv info warmup env = Ran lvl as r"
  shows "\<exists>a. parse_args argv = Parsed a \<and> lvl = setup_logging (arg_verbose a) \<and>
    (let c = build_config a in
      run_app c warmup env = (as, r) \<and>
      cache_config_ok (cache_config_of c) \<and> handler_config_ok (handler_config_of c) \<and> upstream_ok (upstream_of c) \<and>
      0 < us_max_inflight (udp_server_config_of c) \<and> 0 < ts_max_inflight (tcp_server_config_of c) \<and>
      (cfg_refresh_warmup_enabled c \<longrightarrow> refresh_enabled (handler_config_of c) \<and> 0 < cfg_refresh_warmup_limit c) \<and>
      (arg_upstream_transport a = ''relay'' \<and> arg_relay_startup_check a = ''require'' \<longrightarrow>
        check_relay_startup (build_relay_config c) (relay_limits_of c) info = Inr ()))"
proof -
  obtain a where a: "parse_args argv = Parsed a" "app_main valid_netloc a info warmup env = Ran lvl as r"
    using assms by (auto simp: main_program_def split: parsed.splits)
  note m = app_main_ran [OF a(2)]
  show ?thesis
    using a(1) m valid_components [OF m [THEN conjunct1]] by (intro exI [of _ a]) (simp add: Let_def)
qed

definition sample_run_env :: run_env where
  "sample_run_env =
     \<lparr>server_failed = (\<lambda>s. if s = TcpServer then Some OSError else None), server_ended = (\<lambda>s. s = TcpServer),
      gather_result = Inr (), reporter_raises = Inl CancelledError, stop_raises = Inr (),
      cancel_raises = (\<lambda>s. Inl CancelledError), close_raises = Inr (), final_metrics = []\<rparr>"

lemma started_program_configured_witness:
  "\<exists>as r. main_program (\<lambda>_. True) [] (NoResponse TimedOut) (Inr ()) sample_run_env = Ran INFO as r \<and>
     cache_config_ok (cache_config_of (build_config default_args))"
proof -
  have p: "parse_args [] = Parsed default_args" by (simp add: parse_args_def parse_argv_def)
  have "\<not> (cfg_upstream_transport (build_config default_args) = ''relay'')" "\<not> cfg_verbose (build_config default_args)"
    by (simp_all add: build_config_def default_args_def)
  then have "\<exists>as r. main_program (\<lambda>_. True) [] (NoResponse TimedOut) (Inr ()) sample_run_env = Ran INFO as r"
    by (simp add: main_program_def p app_main_def default_args_valid setup_logging_def split: prod.split)
  then show ?thesis using started_program_configured [of "\<lambda>_. True" "[]" "NoResponse TimedOut" "Inr ()" sample_run_env] p by (fastforce simp: Let_def)
qed

lemma cancel_servers_ok:
  assumes "\<forall>s \<in> set ss. server_ended env s \<or> suppress_cancel (cancel_raises env s) = Inr ()"
  shows "cancel_servers env ss = (map CancelServer (filter (\<lambda>s. \<not> server_ended env s) ss), Inr ())"
  using assms by (induction ss) auto

lemma cancel_servers_raises:
  assumes "cancel_servers env ss = (as, r)"
  shows "set as \<subseteq> range CancelServer"
    and "r = Inr () \<longleftrightarrow> (\<forall>s \<in> set ss. server_ended env s \<or> suppress_cancel (cancel_raises env s) = Inr ())"
proof -
  have "set as \<subseteq> range CancelServer \<and>
      (r = Inr () \<longleftrightarrow> (\<forall>s \<in> set ss. server_ended env s \<or> suppress_cancel (cancel_raises env s) = Inr ()))"
    using assms by (induction ss arbitrary: as r) (auto split: if_splits sum.splits prod.splits)
  then show "set as \<subseteq> range CancelServer"
    and "r = Inr () \<longleftrightarrow> (\<forall>s \<in> set ss. server_ended env s \<or> suppress_cancel (cancel_raises env s) = Inr ())" by blast+
qed

lemma wait_all_iff: "wait_all failed ss = Inr () \<longleftrightarrow> (\<forall>s \<in> set ss. failed s = None)"
  by (induction ss) (auto split: option.splits)

text \<open>
  A shutdown that is not interrupted: awaiting the reporter, if it was started, the refresh tasks, if
  they were stopped, and every server that is cancelled raises nothing but the cancellation.
\<close>

definition uninterrupted :: "config \<Rightarrow> run_env \<Rightarrow> bool \<Rightarrow> bool \<Rightarrow> bool" where
  "uninterrupted c env reporter refresh_on \<longleftrightarrow>
     (reporter \<longrightarrow> suppress_cancel (reporter_raises env) = Inr ()) \<and> (refresh_on \<longrightarrow> stop_raises env = Inr ()) \<and>
     (\<forall>s \<in> set (servers c). server_ended env s \<or> suppress_cancel (cancel_raises env s) = Inr ())"

lemma shutdown_clean:
  assumes "uninterrupted c env rep ref"
  obtains log r where "shutdown c env rep ref =
      ((if rep then [CancelReporter] else []) @ (if ref then [StopRefreshTasks] else []) @ map StopServer (servers c) @
       map CancelServer (filter (\<lambda>s. \<not> server_ended env s) (servers c)) @ CloseUpstream # map LogStats log, r)"
proof (cases "close_raises env")
  case (Inl x)
  have "shutdown c env rep ref =
      ((if rep then [CancelReporter] else []) @ (if ref then [StopRefreshTasks] else []) @ map StopServer (servers c) @
       map CancelServer (filter (\<lambda>s. \<not> server_ended env s) (servers c)) @ CloseUpstream # map LogStats [], Inl x)"
    using assms Inl by (simp add: shutdown_def uninterrupted_def cancel_servers_ok)
  then show thesis by (rule that)
next
  case (Inr u)
  define log where "log = (case reporter_round (final_metrics env) of None \<Rightarrow> [] | Some line \<Rightarrow> [line])"
  have "shutdown c env rep ref =
      ((if rep then [CancelReporter] else []) @ (if ref then [StopRefreshTasks] else []) @ map StopServer (servers c) @
       map CancelServer (filter (\<lambda>s. \<not> server_ended env s) (servers c)) @ CloseUpstream # map LogStats log, Inr ())"
    using assms Inr by (simp add: shutdown_def uninterrupted_def cancel_servers_ok log_def split: option.split)
  then show thesis by (rule that)
qed

lemma shutdown_interrupted:
  assumes "\<not> uninterrupted c env rep ref"
  obtains as x where "shutdown c env rep ref = (as, Inl x)" and "CloseUpstream \<notin> set as"
proof -
  obtain cs rc where cs: "cancel_servers env (servers c) = (cs, rc)" by fastforce
  note k = cancel_servers_raises [OF cs]
  obtain as r where sh: "shutdown c env rep ref = (as, r)" by fastforce
  have "CloseUpstream \<notin> set as \<and> (\<exists>x. r = Inl x)"
    using assms k sh cs by (auto simp: shutdown_def uninterrupted_def Let_def split: sum.splits if_splits)
  with sh that show thesis by blast
qed

text \<open>The actions of a run whose warmup succeeded, up to the shutdown.\<close>

definition started :: "config \<Rightarrow> run_env \<Rightarrow> action list" where
  "started c env = CreateUpstream # map StartServer (servers c) @
     (if wait_all (server_failed env) (servers c) = Inr () then [SetReady, StartReporter, StartRefreshTasks] else [])"

lemma run_app_started:
  assumes "run_app c (Inr ()) env = (as, r)"
    and "ok \<longleftrightarrow> wait_all (server_failed env) (servers c) = Inr ()"
    and "shutdown c env ok (ok \<and> cfg_refresh_enabled c) = (sd, rs)"
  shows "as = started c env @ sd" and "rs = Inl x \<Longrightarrow> r = RunRaised x"
proof -
  have "as = started c env @ sd \<and> (rs = Inl x \<longrightarrow> r = RunRaised x)"
  proof (cases "wait_all (server_failed env) (servers c)")
    case (Inl y)
    then show ?thesis using assms by (auto simp: run_app_def started_def finish_run_def)
  next
    case (Inr u)
    then show ?thesis using assms by (auto simp: run_app_def started_def finish_run_def Let_def)
  qed
  then show "as = started c env @ sd" and "rs = Inl x \<Longrightarrow> r = RunRaised x" by blast+
qed

text \<open>
  C23. What a run of the program leaves behind, by the three ways it can go. If the warmup list cannot
  be loaded, the program exits after it has created the upstream: nothing is started, and the upstream
  is not closed. If it can and the shutdown is not interrupted (awaiting what it cancels raises nothing
  but the cancellation), every server that was started is told to stop, and cancelled if it has not
  ended; only then the upstream is closed, exactly once, and after that at most the statistics are
  logged; the process has reported itself ready exactly if every server got ready, and the statistics
  reporter is cancelled exactly if it was started. If the shutdown is interrupted, the upstream is not
  closed and the run ends with an exception.
\<close>

theorem shutdown_complete:
  assumes "run_app c warmup env = (as, r)"
    and "ready \<longleftrightarrow> (\<forall>s \<in> set (servers c). server_failed env s = None)"
  shows "case warmup of
      Inl x \<Rightarrow> as = [CreateUpstream] \<and> r = (if is_Exception x then WarmupExit x else RunRaised x)
    | Inr _ \<Rightarrow>
        if uninterrupted c env ready (ready \<and> cfg_refresh_enabled c) then
          \<exists>pre post. as = pre @ CloseUpstream # post \<and> CloseUpstream \<notin> set pre \<and> set post \<subseteq> range LogStats \<and>
            (\<forall>s. StartServer s \<in> set pre \<longrightarrow> StopServer s \<in> set pre \<and> (server_ended env s \<or> CancelServer s \<in> set pre)) \<and>
            (SetReady \<in> set pre \<longleftrightarrow> ready) \<and> (CancelReporter \<in> set pre \<longleftrightarrow> StartReporter \<in> set pre)
        else CloseUpstream \<notin> set as \<and> (\<exists>x. r = RunRaised x)"
proof (cases warmup)
  case (Inl x)
  with assms(1) show ?thesis by (auto simp: run_app_def)
next
  case (Inr u)
  let ?ref = "ready \<and> cfg_refresh_enabled c"
  have ok: "ready \<longleftrightarrow> wait_all (server_failed env) (servers c) = Inr ()" by (simp add: assms(2) wait_all_iff)
  have app: "run_app c (Inr ()) env = (as, r)" using assms(1) Inr by simp
  have st: "CloseUpstream \<notin> set (started c env)" by (auto simp: started_def)
  show ?thesis
  proof (cases "uninterrupted c env ready ?ref")
    case True
    obtain log rs where sh: "shutdown c env ready ?ref =
        ((if ready then [CancelReporter] else []) @ (if ?ref then [StopRefreshTasks] else []) @ map StopServer (servers c) @
         map CancelServer (filter (\<lambda>s. \<not> server_ended env s) (servers c)) @ CloseUpstream # map LogStats log, rs)"
      using shutdown_clean [OF True] by blast
    let ?pre = "started c env @ (if ready then [CancelReporter] else []) @ (if ?ref then [StopRefreshTasks] else []) @
      map StopServer (servers c) @ map CancelServer (filter (\<lambda>s. \<not> server_ended env s) (servers c))"
    have "as = ?pre @ CloseUpstream # map LogStats log" using run_app_started(1) [OF app ok sh] by simp
    moreover have "CloseUpstream \<notin> set ?pre" using st by auto
    moreover have "\<forall>s. StartServer s \<in> set ?pre \<longrightarrow> StopServer s \<in> set ?pre \<and> (server_ended env s \<or> CancelServer s \<in> set ?pre)"
      by (auto simp: started_def split: if_splits)
    moreover have "SetReady \<in> set ?pre \<longleftrightarrow> ready" by (auto simp: started_def ok split: if_splits)
    moreover have "CancelReporter \<in> set ?pre \<longleftrightarrow> StartReporter \<in> set ?pre" by (auto simp: started_def ok split: if_splits)
    moreover have "set (map LogStats log) \<subseteq> range LogStats" by auto
    ultimately have "\<exists>pre post. as = pre @ CloseUpstream # post \<and> CloseUpstream \<notin> set pre \<and> set post \<subseteq> range LogStats \<and>
        (\<forall>s. StartServer s \<in> set pre \<longrightarrow> StopServer s \<in> set pre \<and> (server_ended env s \<or> CancelServer s \<in> set pre)) \<and>
        (SetReady \<in> set pre \<longleftrightarrow> ready) \<and> (CancelReporter \<in> set pre \<longleftrightarrow> StartReporter \<in> set pre)" by blast
    with True Inr show ?thesis by simp
  next
    case False
    then obtain sd x where sh: "shutdown c env ready ?ref = (sd, Inl x)" "CloseUpstream \<notin> set sd"
      by (rule shutdown_interrupted)
    with run_app_started [OF app ok sh(1)] st False Inr show ?thesis by simp
  qed
qed

lemma shutdown_complete_witness:
  "\<exists>pre post. fst (run_app default_config (Inr ()) sample_run_env) = pre @ CloseUpstream # post \<and> SetReady \<notin> set pre"
proof -
  obtain as r where a: "run_app default_config (Inr ()) sample_run_env = (as, r)" by fastforce
  have "TcpServer \<in> set (servers default_config)" "server_failed sample_run_env TcpServer \<noteq> None"
    by (simp_all add: servers_def sample_run_env_def)
  then have n: "False \<longleftrightarrow> (\<forall>s \<in> set (servers default_config). server_failed sample_run_env s = None)" by auto
  have "uninterrupted default_config sample_run_env False False"
    by (simp add: uninterrupted_def sample_run_env_def suppress_cancel_def)
  with shutdown_complete [OF a n] show ?thesis by (simp add: a) blast
qed

text \<open>
  No option of the command line sets a bound on the cache, so the cache of the program never evicts:
  its size is limited by nothing but the number of names that are asked for.
\<close>

lemma command_line_cache_unbounded:
  "config ca = cache_config_of (build_config args) \<Longrightarrow> evict_if_needed now ca M = (Inr (), ca, M)"
  by (simp add: evict_if_needed_def cache_config_of_def build_config_def)

end
