(* ===== verification/Dns_Check.thy ===== *)
theory Dns_Check
  imports Py_Argparse Dnslib
begin

text \<open>
  The diagnostic script \<^verbatim>\<open>tools/dns-check/dns_check.py\<close>: its options, one query over UDP, and the loop
  that reports every attempt. What the socket does and how long it takes is an argument; what is printed
  is a list of structured lines, so the layout of numbers is left out.
\<close>

section \<open>Options\<close>

record check_args =
  ck_name :: string
  ck_type :: string
  ck_server :: string
  ck_port :: int
  ck_repeat :: int
  ck_timeout :: real

definition check_defaults :: check_args where
  "check_defaults =
     \<lparr>ck_name = [], ck_type = ''A'', ck_server = ''127.0.0.1'', ck_port = 5353, ck_repeat = 1, ck_timeout = 2\<rparr>"

definition check_options :: "check_args options" where
  "check_options =
     [(''-h'', Help), (''--help'', Help),
      (''-t'', StoreText (\<lambda>v a. a\<lparr>ck_type := v\<rparr>)), (''--type'', StoreText (\<lambda>v a. a\<lparr>ck_type := v\<rparr>)),
      (''--server'', StoreText (\<lambda>v a. a\<lparr>ck_server := v\<rparr>)), (''--port'', StoreInt (\<lambda>v a. a\<lparr>ck_port := v\<rparr>)),
      (''--repeat'', StoreInt (\<lambda>v a. a\<lparr>ck_repeat := v\<rparr>)), (''--timeout'', StoreFloat (\<lambda>v a. a\<lparr>ck_timeout := v\<rparr>))]"

definition parse_check_args :: "string list \<Rightarrow> check_args parsed" where
  "parse_check_args argv = parse_argv check_options (Some (\<lambda>v a. a\<lparr>ck_name := v\<rparr>)) argv check_defaults"

section \<open>One query\<close>

text \<open>
  The calls on the socket, and how they end: creating it or setting the timeout fails, sending fails,
  receiving fails (a timeout, for instance), or a datagram arrives between two readings of the clock. At
  most 4096 bytes of it are read.
\<close>

datatype socket_run = NoSocket exn | BadTimeout exn | SendFailed exn | ReceiveFailed exn | Received real real bytes

datatype socket_call = OpenSocket | SetTimeout real | SendTo bytes string int | RecvFrom | CloseSocket

text \<open>
  The result is the calls that were made, in order, and the latency with the parsed answer or the
  exception. A socket that failed is not closed.
\<close>

definition send_query ::
  "dnslib \<Rightarrow> string \<Rightarrow> int \<Rightarrow> string \<Rightarrow> string \<Rightarrow> real \<Rightarrow> socket_run \<Rightarrow> socket_call list \<times> (real \<times> dns_record) result" where
  "send_query L server port name qtype timeout run =
     (case mk_question L name qtype ''IN'' of
        Inl x \<Rightarrow> ([], Inl (if is_Exception x then ValueError (''Unknown query type: '' @ qtype) else x))
      | Inr query \<Rightarrow>
          (case pack L query of
             Inl x \<Rightarrow> ([], Inl x)
           | Inr wire \<Rightarrow>
               (let calls = [OpenSocket, SetTimeout timeout, SendTo wire server port, RecvFrom, CloseSocket] in
                case run of
                  NoSocket x \<Rightarrow> (take 1 calls, Inl x)
                | BadTimeout x \<Rightarrow> (take 2 calls, Inl x)
                | SendFailed x \<Rightarrow> (take 3 calls, Inl x)
                | ReceiveFailed x \<Rightarrow> (take 4 calls, Inl x)
                | Received start end data \<Rightarrow>
                    (calls, map_sum id (\<lambda>response. ((end - start) * 1000, response)) (parse L (take 4096 data))))))"

section \<open>The report\<close>

datatype report =
    Title string string
  | ServerLine string int
  | Rule
  | Answered int real int nat
  | Failed int exn

text \<open>One round of the loop; only an exception that is not an \<^verbatim>\<open>Exception\<close> leaves it.\<close>

definition check_round :: "dnslib \<Rightarrow> check_args \<Rightarrow> string \<Rightarrow> int \<Rightarrow> socket_run \<Rightarrow> report result" where
  "check_round L a qtype i run =
     (case snd (send_query L (ck_server a) (ck_port a) (ck_name a) qtype (ck_timeout a) run) of
        Inr (latency_ms, response) \<Rightarrow> Inr (Answered (i + 1) latency_ms (hdr_rcode response) (length (rrs response)))
      | Inl x \<Rightarrow> if is_Exception x then Inr (Failed (i + 1) x) else Inl x)"

fun check_rounds :: "dnslib \<Rightarrow> check_args \<Rightarrow> string \<Rightarrow> (int \<Rightarrow> socket_run) \<Rightarrow> int list \<Rightarrow> report list \<times> unit result" where
  "check_rounds L a qtype runs [] = ([], Inr ())"
| "check_rounds L a qtype runs (i # is) =
     (case check_round L a qtype i (runs i) of
        Inl x \<Rightarrow> ([], Inl x)
      | Inr line \<Rightarrow> (case check_rounds L a qtype runs is of (ls, r) \<Rightarrow> (line # ls, r)))"

definition check_report :: "dnslib \<Rightarrow> check_args \<Rightarrow> (int \<Rightarrow> socket_run) \<Rightarrow> report list \<times> unit result" where
  "check_report L a runs =
     (let qtype = upper (ck_type a) in
      case check_rounds L a qtype runs [0..ck_repeat a - 1] of
        (ls, r) \<Rightarrow> (Title (ck_name a) qtype # ServerLine (ck_server a) (ck_port a) # Rule # ls, r))"

definition check_main :: "dnslib \<Rightarrow> string list \<Rightarrow> (int \<Rightarrow> socket_run) \<Rightarrow> (report list \<times> unit result) parsed" where
  "check_main L argv runs =
     (case parse_check_args argv of
        Parsed a \<Rightarrow> Parsed (check_report L a runs)
      | Exits n \<Rightarrow> Exits n
      | Unrepresentable \<Rightarrow> Unrepresentable)"

section \<open>Properties\<close>

definition check_line :: "dnslib \<Rightarrow> check_args \<Rightarrow> string \<Rightarrow> int \<Rightarrow> socket_run \<Rightarrow> report" where
  "check_line L a qtype i run =
     (case snd (send_query L (ck_server a) (ck_port a) (ck_name a) qtype (ck_timeout a) run) of
        Inr (latency_ms, response) \<Rightarrow> Answered (i + 1) latency_ms (hdr_rcode response) (length (rrs response))
      | Inl x \<Rightarrow> Failed (i + 1) x)"

definition only_exceptions :: "dnslib \<Rightarrow> check_args \<Rightarrow> string \<Rightarrow> (int \<Rightarrow> socket_run) \<Rightarrow> bool" where
  "only_exceptions L a qtype runs \<longleftrightarrow>
     (\<forall>i x. snd (send_query L (ck_server a) (ck_port a) (ck_name a) qtype (ck_timeout a) (runs i)) = Inl x \<longrightarrow> is_Exception x)"

lemma check_rounds_all:
  assumes "only_exceptions L a qtype runs"
  shows "check_rounds L a qtype runs is = (map (\<lambda>i. check_line L a qtype i (runs i)) is, Inr ())"
proof (induction "is")
  case (Cons i "is")
  have "check_round L a qtype i (runs i) = Inr (check_line L a qtype i (runs i))"
    using assms by (auto simp: check_round_def check_line_def only_exceptions_def split: sum.split)
  with Cons.IH show ?case by simp
qed simp

text \<open>A socket is closed exactly if a datagram arrived, whatever it contains.\<close>

lemma socket_closed_iff:
  "CloseSocket \<in> set (fst (send_query L server port name qtype timeout run)) \<longleftrightarrow>
     (\<exists>query wire. mk_question L name qtype ''IN'' = Inr query \<and> pack L query = Inr wire) \<and> (\<exists>t u d. run = Received t u d)"
  by (auto simp: send_query_def Let_def split: sum.split socket_run.split)

text \<open>
  C38. The diagnostic script reports every attempt: for a name and options given on the command line, after
  the three lines of its heading there is exactly one line per repetition, numbered from one, with the
  response code and the number of answers of what came back or with the failure; a failed attempt never
  ends the run. With a number of repetitions that is not positive there is no attempt.
\<close>

theorem check_reports_every_attempt:
  assumes "only_exceptions L a (upper (ck_type a)) runs" and "check_report L a runs = (ls, r)"
  shows "r = Inr () \<and> length ls = 3 + nat (ck_repeat a) \<and>
    (\<forall>k < nat (ck_repeat a). ls ! (3 + k) = check_line L a (upper (ck_type a)) (int k) (runs (int k)))"
proof -
  let ?line = "\<lambda>i. check_line L a (upper (ck_type a)) i (runs i)"
  have l: "ls = Title (ck_name a) (upper (ck_type a)) # ServerLine (ck_server a) (ck_port a) # Rule #
      map ?line [0..ck_repeat a - 1]" and r: "r = Inr ()"
    using assms(2) by (auto simp: check_report_def Let_def check_rounds_all [OF assms(1)])
  have "ls ! (3 + k) = ?line (int k)" if "k < nat (ck_repeat a)" for k
    using that by (simp add: l numeral_3_eq_3 nth_upto)
  then show ?thesis by (simp add: l r)
qed

lemma check_reports_every_attempt_witness:
  "\<exists>ls. check_main sample_lib [''example.com'', ''--repeat=2''] (\<lambda>i. if i = 0 then ReceiveFailed TimeoutError else Received 1 2 [7, 0, 0, 60]) =
     Parsed (ls, Inr ()) \<and> ls ! 3 = Failed 1 TimeoutError \<and> ls ! 4 = Answered 2 1000 0 1"
proof -
  let ?a = "check_defaults\<lparr>ck_name := ''example.com'', ck_repeat := 2\<rparr>"
  let ?runs = "\<lambda>i :: int. if i = 0 then ReceiveFailed TimeoutError else Received 1 2 [7, 0, 0, 60 :: byte]"
  have d: "is_decimal (CHR ''2'')" "\<not> number_space (CHR ''2'')" by (simp_all add: is_decimal_def number_space_def)
  have "parse_check_args [''example.com'', ''--repeat=2''] = Parsed ?a"
    by (simp add: parse_check_args_def parse_argv_def parse_optional_def check_options_def split_at_def equals_def
        consume_option_def skip_dash_def py_int_def trim_def rstrip_by_def split_sign_def digits_def d
        int_max_str_digits_def decimal_value_def is_long_def check_defaults_def)
  moreover have "only_exceptions sample_lib ?a (upper (ck_type ?a)) ?runs"
    by (auto simp: only_exceptions_def send_query_def sample_lib_def sample_pack_def sample_parse_def is_Exception_def)
  moreover obtain ls r where "check_report sample_lib ?a ?runs = (ls, r)" by fastforce
  ultimately show ?thesis
    using check_reports_every_attempt [of sample_lib ?a ?runs ls r]
    by (auto simp: check_main_def check_line_def send_query_def sample_lib_def sample_pack_def sample_parse_def sample_msg_def
        less_Suc_eq numeral_2_eq_2)
qed

end
