(* ===== verification/Spec2Isabelle.thy ===== *)
theory Spec2Isabelle
  imports App_Main Dns_Check
begin

text \<open>
  \<^bold>\<open>ResilientDNS\<close>, a caching DNS forwarder, verified part by part.

  \<^bold>\<open>The program.\<close> Clients ask over UDP or TCP (\<^verbatim>\<open>dns/server.py\<close>). Every request goes to the handler
  (\<^verbatim>\<open>dns/handler.py\<close>), which answers from the cache (\<^verbatim>\<open>cache/memory.py\<close>), or with a stale answer while a
  refresh runs in the background, or joins or starts a flight for its name (\<^verbatim>\<open>dns/singleflight.py\<close>). A flight
  asks the upstream: plain UDP or pooled TCP (\<^verbatim>\<open>upstream/\<close>) or an HTTP relay (\<^verbatim>\<open>relay_forwarder.py\<close>,
  \<^verbatim>\<open>relay_types.py\<close>, \<^verbatim>\<open>relay_startup_check.py\<close>). A scanner and workers refresh popular names ahead of
  their expiry, and a list of names can be queued at startup (\<^verbatim>\<open>refresh_warmup.py\<close>). Counters
  (\<^verbatim>\<open>metrics.py\<close>) are logged periodically and served over HTTP. \<^verbatim>\<open>main.py\<close> and \<^verbatim>\<open>config.py\<close> wire it up.

  \<^bold>\<open>The theories.\<close>
  \<^item> \<open>Prelude\<close>: exceptions, bytes, clock readings, Python dictionaries with their order, and their lemmas.
  \<^item> \<open>Py_String\<close>, \<open>Base64\<close>, \<open>Json\<close>, \<open>Stream_Io\<close>: what the program uses of Python's standard library: string
    methods, base64, JSON and UTF-8, length prefixes and stream readers, with round trips. \<open>Py_Argparse\<close>:
    numbers as text and the parsing of command lines by \<^verbatim>\<open>argparse\<close>.
  \<^item> \<open>Dnslib\<close>: the third-party package \<^verbatim>\<open>dnslib\<close> as a record of functions that is an argument everywhere, and a
    small instance of it for witnesses.
  \<^item> \<open>Metrics\<close>, \<open>Stats_Report\<close>: the counters, with the locale \<open>counters\<close>, and the statistics line.
  \<^item> \<open>Memory_Cache\<close>: every method of \<open>MemoryDnsCache\<close>. A stored answer is served until it expires and
    then until its stale deadline; eviction is the documented policy; the invariant of all reachable caches.
  \<^item> \<open>Single_Flight\<close>: \<open>SingleFlight\<close>, its invariant, and who leads.
  \<^item> \<open>Dns_Handler\<close>: \<open>DnsHandler\<close>, each coroutine as the segments between its awaits, and the refresh queue
    with the locale \<open>offering\<close>. Which tier answers, what is counted, what is queued, what workers do.
  \<^item> \<open>Resolver\<close>: the running handler as a transition system over these segments in any order, the invariant
    of its reachable states, one upstream query per name, infinite executions and that a client does not
    wait for ever in a fair one whose upstream calls end, what a cancellation does.
  \<^item> \<open>Refresh_Warmup\<close>: the warmup list, against the queue interface extended by counters (\<open>metered_offering\<close>).
  \<^item> \<open>Relay_Types\<close>, \<open>Relay_Forwarder\<close>, \<open>Relay_Startup\<close>: the relay client. What is posted decodes to the query,
    what the relay answers is what the client returns, how failures are counted, when startup succeeds.
  \<^item> \<open>Admission\<close>: the locale \<open>admission\<close> of bounded admission, interpreted for the counter of the forwarders
    and (in \<open>Dns_Server\<close>) for the task sets of the servers.
  \<^item> \<open>Udp_Forwarder\<close>, \<open>Tcp_Forwarder\<close>: both forwarders as transition systems; bounds on queries, threads and pooled
    connections; exclusive use of connections; the lock of the pool, which is never stuck; when a connection
    leaks; reading an answer in chunks; error accounting.
  \<^item> \<open>Dns_Server\<close>: truncation for UDP, and the read loop of a TCP connection, which refines a queue of messages.
  \<^item> \<open>Front\<close>: both servers in front of the running handler, including the response objects they share and the
    cancellation of requests when a server stops.
  \<^item> \<open>Http_Metrics\<close>: the HTTP server for metrics and health.
  \<^item> \<open>Server_Run\<close>: the life of a server task from creating its endpoint to its end, for all three servers.
  \<^item> \<open>App_Config\<close>, \<open>Command_Line\<close>, \<open>App_Main\<close>: options, configuration and validation; the command line and its round
    trip; the wiring, the life of the process and its shutdown, signals, and \<open>main\<close>.
  \<^item> \<open>Dns_Check\<close>: the diagnostic script \<^verbatim>\<open>tools/dns-check\<close>.
  \<^item> This theory: the handler and both servers as configured by a validated command line, and the way of an
    answer from the TCP upstream through forwarder, flight and handler to every waiting client.

  \<^bold>\<open>Conventions.\<close> State is passed explicitly, one record per class. An exception is a value of a sum type.
  Coroutines are cut at their awaits; a transition system lets the segments of all tasks interleave
  freely, which includes every schedule of the event loop. Results of the environment (sockets, HTTP
  exchanges, clock readings, timeouts, cancellations) are arguments or events. Integers are unbounded,
  as in Python; bytes are 8-bit words.

  \<^bold>\<open>Fuel.\<close> The JSON reader has fuel; twice the length of the text plus one is enough, which is proved with
  it. The read loop of a TCP connection has fuel; it returns after at most half the number of bytes plus
  one rounds, which is a property. Everything else is structurally recursive or has a termination proof.

  \<^bold>\<open>Not modelled.\<close> Logging, except its level and the statistics line, and the texts that \<^verbatim>\<open>argparse\<close> and the
  diagnostic script print. Sockets, threads, the event loop and HTTP below the interfaces named above.
  Rounding of floats: they are real numbers, and the model says nothing of a command line with an
  infinity or NaN. Text beyond code point 255 outside JSON. JSON texts with integers of more than 4300
  digits or nested beyond the recursion limit, which Python rejects.
\<close>

section \<open>The program as configured\<close>

text \<open>
  C6. From the options to the wire: if the configuration passes validation, then in every state that the
  handler and both servers reach, wired as \<open>_run\<close> wires them, the invariant of the handler holds, each
  server has at most \<open>max_inflight\<close> requests in progress as long as its shutdown has not cancelled them,
  and no UDP datagram is longer than 1232 bytes.
\<close>

theorem program_invariant:
  assumes "validate_config valid_netloc c = Inr ()"
    and "reachable L (handler_config_of c) (cache_config_of c) s"
    and "f = front_run L es (front_init (udp_server_config_of c) (tcp_server_config_of c) s)"
  shows "resolver_ok (cache_config_of c) (fres f) \<and>
    (\<not> cancelled f True \<longrightarrow> int (card (tasks_via True (rtasks f))) \<le> cfg_max_inflight c) \<and>
    (\<not> cancelled f False \<longrightarrow> int (card (tasks_via False (rtasks f))) \<le> cfg_max_inflight c) \<and>
    (\<forall>a w. (FromUdp a, w) \<in> set (outbox f) \<longrightarrow> length w \<le> 1232)"
proof -
  have cc: "cache_config_ok (cache_config_of c)"
    and pos: "0 < us_max_inflight (udp_server_config_of c)" "0 < ts_max_inflight (tcp_server_config_of c)"
    using valid_components [OF assms(1)] by simp_all
  have "us_max_inflight (udp_server_config_of c) = cfg_max_inflight c"
    "ts_max_inflight (tcp_server_config_of c) = cfg_max_inflight c"
    "us_max_udp_payload (udp_server_config_of c) = 1232"
    by (simp_all add: udp_server_config_of_def tcp_server_config_of_def default_udp_server_config_def)
  with front_guarantees [OF cc assms(2,3)] pos show ?thesis by (simp add: too_big_def not_less)
qed

lemma program_invariant_witness:
  "\<exists>s f. reachable sample_lib (handler_config_of (build_config default_args)) (cache_config_of (build_config default_args)) s \<and>
     f = front_run sample_lib [Receive 1 (FromUdp 7) [5, 0, 0]]
       (front_init (udp_server_config_of (build_config default_args)) (tcp_server_config_of (build_config default_args)) s) \<and>
     int (card (tasks_via True (rtasks f))) \<le> 256"
proof -
  let ?c = "build_config default_args"
  let ?s = "resolver_init (handler_config_of ?c) (cache_init (cache_config_of ?c)) None"
  have r: "reachable sample_lib (handler_config_of ?c) (cache_config_of ?c) ?s"
    unfolding reachable_def by (rule exI [of _ "[]"]) auto
  let ?f = "front_run sample_lib [Receive 1 (FromUdp 7) [5, 0, 0]] (front_init (udp_server_config_of ?c) (tcp_server_config_of ?c) ?s)"
  have "cfg_max_inflight ?c = 256" by (simp add: build_config_def default_args_def)
  moreover have "\<not> cancelled ?f True"
    by (simp add: front_run_def front_init_def receive_def task_enter_def set_metrics_def set_core_def split: if_split)
  ultimately show ?thesis
    using program_invariant [OF default_args_valid r refl, of "[Receive 1 (FromUdp 7) [5, 0, 0]]"] r by auto
qed

section \<open>From the upstream to the clients\<close>

text \<open>
  C7. End to end through the TCP upstream. Let the program be configured with the TCP upstream, let a
  flight of the running handler await the answer to its query \<open>w\<close>, and let the forwarder be idle. Then
  the forwarder writes exactly the framed query to a new connection; and when the upstream sends a framed
  answer that can be cached, in any chunks, the forwarder returns it to the flight, and every client that
  waits for the flight is replied that answer by the handler under its own transaction id, in whatever
  order they wake up.
\<close>

theorem tcp_upstream_end_to_end:
  assumes "validate_config valid_netloc c = Inr ()" and "upstream_of c = TcpUpstream tc" and "0 < tcp_pool_max_conns tc"
    and "reachable L (handler_config_of c) (cache_config_of c) s"
    and "h_tasks (core s) t = Some (Querying j w rid)" and "t \<notin> doomed s"
    and "distinct is" and "\<forall>i \<in> set is. awaiting s i = Some (req i, t)"
    and "tcfg f = tc" and "\<not> tclosed f" and "lockq f = []" and "pool f = []" and "q \<notin> set (keys (phases f))"
    and "fst (gate_enter (tgate f))"
    and "frame w = Inr sent" and "frame answer = Inr (concat chunks)" and "\<not> oversize tc (length answer)"
    and "parse L answer = Inr resp" and "compute_ttl_seconds L (cache_config_of c) resp = Inr ttl" and "pack L resp = Inr wire"
    and "f1 = tcp_run [TQuery q w t0, TConnect q Connected] f"
    and "f2 = tcp_run (TDrained q None # deliveries q (length (conns f)) t1 chunks @ [TWake q t1, TWake q t1]) f1"
  shows "cout (conns f1 ! length (conns f)) = sent \<and>
    (\<exists>s'. run L (Answer t (Inl TypeError) (snd (hd (treturned f2))) t2 t3 # map (\<lambda>i. Wake i t4) is) s = Some s' \<and>
      replies s' = replies s @ map (\<lambda>i. (i, Reply (resp\<lparr>hdr_id := hdr_id (req i)\<rparr>) (Some t))) is)"
proof -
  note f1 = query_on_new_connection [OF assms(10-15,21)]
  have "treturned f2 = (q, Inr (Some answer)) # treturned f1 \<and> tmetrics f2 = tmetrics f1 \<and>
      pool f2 = pool f1 @ [(length (conns f), t1)] \<and> rbuf (cin (conns f2 ! length (conns f))) = []"
    by (rule answer_read [OF f1(1) _ _ _ f1(3,4) _ _ assms(16,22)]) (simp_all add: f1 assms(3,9,17))
  then have "upstream_gives (Inl TypeError) (snd (hd (treturned f2))) answer" by (simp add: upstream_gives_def)
  moreover have "cache_config_ok (cache_config_of c)" using valid_components [OF assms(1)] by simp
  ultimately show ?thesis
    using answer_delivered [OF _ assms(4-6) _ assms(18-20,7,8)] f1(2) by simp
qed

definition tcp_args :: args where
  "tcp_args = default_args\<lparr>arg_upstream_transport := ''tcp''\<rparr>"

lemma tcp_args_config:
  "validate_config (\<lambda>_. True) (build_config tcp_args) = Inr ()"
  "handler_config_of (build_config tcp_args) = default_handler_config"
  "cache_config_of (build_config tcp_args) = default_cache_config"
  "upstream_of (build_config tcp_args) = TcpUpstream (default_tcp_config\<lparr>tcp_pool_idle_timeout_s := 30\<rparr>)"
  by (simp_all add: tcp_args_def validate_config_def after_iff require_iff basic_checks_def build_config_def default_args_def
      text_given_def strip_def rstrip_by_def is_space_def handler_config_of_def default_handler_config_def
      cache_config_of_def default_cache_config_def upstream_of_def default_tcp_config_def)

lemma tcp_upstream_end_to_end_witness:
  "\<exists>s s'. run sample_lib [Query 1 (sample_msg 5 0 []) 1 1, Query 2 (sample_msg 6 0 []) 1 1, Start 0] sample_start = Some s \<and>
     run sample_lib
       [Answer 0 (Inl TypeError)
          (snd (hd (treturned (tcp_run (TDrained 0 None # deliveries 0 0 2 [[0, 4, 5], [0, 0, 9]] @ [TWake 0 2, TWake 0 2])
            (tcp_run [TQuery 0 [5, 0, 0] 1, TConnect 0 Connected]
               (tcp_init (default_tcp_config\<lparr>tcp_pool_idle_timeout_s := 30\<rparr>) None)))))) 2 2,
        Wake 2 3, Wake 1 3] s = Some s' \<and>
     map fst (replies s') = [2, 1]"
proof (rule sample_querying)
  fix s
  assume s: "run sample_lib [Query 1 (sample_msg 5 0 []) 1 1, Query 2 (sample_msg 6 0 []) 1 1, Start 0] sample_start = Some s"
    and aw: "\<forall>i \<in> set [2, 1 :: nat]. awaiting s i = Some (if i = 1 then sample_msg 5 0 [] else sample_msg 6 0 [], 0)"
    and r: "replies s = []" and d: "0 \<notin> doomed s"
    and q: "h_tasks (core s) 0 = Some (Querying (ResolveJob (sample_msg 5 0 []) key1 ''example.com'' ''A'') [5, 0, 0] (str_int 5))"
  let ?tc = "default_tcp_config\<lparr>tcp_pool_idle_timeout_s := 30\<rparr>"
  let ?f = "tcp_init ?tc None"
  have re: "reachable sample_lib (handler_config_of (build_config tcp_args)) (cache_config_of (build_config tcp_args)) s"
    using sample_reachable [OF s] by (simp add: tcp_args_config)
  have f: "tcfg ?f = ?tc" "\<not> tclosed ?f" "lockq ?f = []" "pool ?f = []" "0 \<notin> set (keys (phases ?f))" "fst (gate_enter (tgate ?f))"
    "length (conns ?f) = 0" "0 < tcp_pool_max_conns ?tc"
    by (simp_all add: tcp_init_def default_tcp_config_def gate_enter_def gate_init_def)
  have fr: "frame [5, 0, 0] = Inr [0, 3, 5, 0, 0]" "frame [5, 0, 0, 9] = Inr (concat [[0, 4, 5], [0, 0, 9]])"
    "\<not> oversize ?tc (length [5 :: byte, 0, 0, 9])"
    by (simp_all add: frame_def to_bytes2_def oversize_def default_tcp_config_def)
  have t: "compute_ttl_seconds sample_lib (cache_config_of (build_config tcp_args)) (sample_msg 5 0 [sample_rr 9]) = Inr 9"
    using sample_answer(2) by (simp add: tcp_args_config)
  have "distinct [2, 1 :: nat]" by simp
  from tcp_upstream_end_to_end [OF tcp_args_config(1,4) f(8) re q d this aw f(1-6) fr sample_answer(1) t sample_answer(3) refl refl,
      of 1 2 2 2 3, unfolded f(7) list.map] s r
  show ?thesis by fastforce
qed

end
